(* ===== verification/Prelude.thy ===== *)
theory Prelude
  imports Main "HOL-Library.Word" "HOL-Library.Monad_Syntax"
begin

text \<open>
  Shared vocabulary of the development: the C integer types of the sources as words, the
  conversions between them, checked array accesses (an access outside the array is the value
  \<^const>\<open>None\<close>, a memory fault), and the generic facts on lists, options and words that the
  component theories use.
\<close>

unbundle bit_operations_syntax

section \<open>C integer types\<close>

type_synonym u8 = "8 word"
type_synonym u16 = "16 word"
type_synonym u32 = "32 word"
type_synonym u64 = "64 word"
type_synonym bytes = "8 word list"

text \<open>Conversion of a mathematical integer to \<open>int\<close> and \<open>int16_t\<close> (two's complement), to
  \<open>size_t\<close> and \<open>uint64_t\<close> (64 bits), to \<open>uint32_t\<close> and to \<open>uint16_t\<close>.\<close>

definition c_int :: "int \<Rightarrow> int" where
  "c_int x = signed_take_bit 31 x"

definition c_int16 :: "int \<Rightarrow> int" where
  "c_int16 x = signed_take_bit 15 x"

definition c_size :: "int \<Rightarrow> nat" where
  "c_size x = nat (x mod 2 ^ 64)"

definition c_u32 :: "int \<Rightarrow> nat" where
  "c_u32 x = nat (x mod 2 ^ 32)"

definition c_u16 :: "int \<Rightarrow> nat" where
  "c_u16 x = nat (x mod 2 ^ 16)"

named_theorems c_conv \<open>C integer conversions that are the identity on values in range\<close>

lemma c_int_id [c_conv]: "- (2 ^ 31) \<le> x \<Longrightarrow> x < 2 ^ 31 \<Longrightarrow> c_int x = x"
  by (simp add: c_int_def signed_take_bit_int_eq_self)

lemma c_int16_id [c_conv]: "- (2 ^ 15) \<le> x \<Longrightarrow> x < 2 ^ 15 \<Longrightarrow> c_int16 x = x"
  by (simp add: c_int16_def signed_take_bit_int_eq_self)

lemma c_size_id [c_conv]: "0 \<le> x \<Longrightarrow> x < 2 ^ 64 \<Longrightarrow> c_size x = nat x"
  by (simp add: c_size_def)

lemma c_u32_id [c_conv]: "0 \<le> x \<Longrightarrow> x < 2 ^ 32 \<Longrightarrow> c_u32 x = nat x"
  by (simp add: c_u32_def)

lemma c_u16_id [c_conv]: "0 \<le> x \<Longrightarrow> x < 2 ^ 16 \<Longrightarrow> c_u16 x = nat x"
  by (simp add: c_u16_def)

lemma c_size_of_nat [simp]: "c_size (int n) = n mod 2 ^ 64"
  by (simp add: c_size_def nat_mod_distrib nat_power_eq)

lemma c_u32_of_nat [simp]: "c_u32 (int n) = n mod 2 ^ 32"
  by (simp add: c_u32_def nat_mod_distrib nat_power_eq)

lemma c_u16_of_nat [simp]: "c_u16 (int n) = n mod 2 ^ 16"
  by (simp add: c_u16_def nat_mod_distrib nat_power_eq)

lemma c_size_neg_one: "c_size (- 1) = 2 ^ 64 - 1"
  by (simp add: c_size_def)

section \<open>Checked array accesses\<close>

definition arr_get :: "'a list \<Rightarrow> nat \<Rightarrow> 'a option" where
  "arr_get xs i = (if i < length xs then Some (xs ! i) else None)"

definition arr_set :: "'a list \<Rightarrow> nat \<Rightarrow> 'a \<Rightarrow> 'a list option" where
  "arr_set xs i v = (if i < length xs then Some (xs[i := v]) else None)"

lemma arr_get_Some [simp]: "arr_get xs i = Some v \<longleftrightarrow> i < length xs \<and> v = xs ! i"
  by (auto simp: arr_get_def)

lemma arr_get_in [simp]: "i < length xs \<Longrightarrow> arr_get xs i = Some (xs ! i)"
  by simp

lemma arr_set_Some [simp]: "arr_set xs i v = Some ys \<longleftrightarrow> i < length xs \<and> ys = xs[i := v]"
  by (auto simp: arr_set_def)

lemma arr_set_in [simp]: "i < length xs \<Longrightarrow> arr_set xs i v = Some (xs[i := v])"
  by simp

text \<open>\<open>memcpy\<close> of \<open>n\<close> elements, from offset \<open>s\<close> of the source to offset \<open>d\<close> of the destination.\<close>

definition arr_copy :: "'a list \<Rightarrow> nat \<Rightarrow> 'a list \<Rightarrow> nat \<Rightarrow> nat \<Rightarrow> 'a list option" where
  "arr_copy dst d src s n =
    (if d + n \<le> length dst \<and> s + n \<le> length src
     then Some (take d dst @ take n (drop s src) @ drop (d + n) dst) else None)"

lemma arr_copy_in:
  "d + n \<le> length dst \<Longrightarrow> s + n \<le> length src \<Longrightarrow>
    arr_copy dst d src s n = Some (take d dst @ take n (drop s src) @ drop (d + n) dst)"
  by (simp add: arr_copy_def)

lemma arr_copy_length: "arr_copy dst d src s n = Some ys \<Longrightarrow> length ys = length dst"
  by (auto simp: arr_copy_def split: if_splits)

section \<open>Words\<close>

lemma and_exp_eq_0_iff:
  fixes w :: "'a::len word"
  assumes "n < LENGTH('a)"
  shows "w AND 2 ^ n = 0 \<longleftrightarrow> \<not> bit w n"
proof -
  have "w AND 2 ^ n = of_bool (bit w n) * 2 ^ n"
    by (rule bit_word_eqI) (auto simp: bit_simps)
  moreover have "(2 ^ n :: 'a word) \<noteq> 0"
    using assms by simp
  ultimately show ?thesis by (cases "bit w n") auto
qed

lemma bit_or_exp:
  fixes w :: "'a::len word"
  assumes "n < LENGTH('a)"
  shows "bit (w OR 2 ^ n) m \<longleftrightarrow> bit w m \<or> m = n"
  using assms by (auto simp: bit_or_iff bit_exp_iff)

lemma bit_and_not_exp:
  fixes w :: "'a::len word"
  assumes "n < LENGTH('a)"
  shows "bit (w AND NOT (2 ^ n)) m \<longleftrightarrow> bit w m \<and> m \<noteq> n"
  using bit_imp_le_length [of w m]
  by (auto simp: bit_and_iff bit_not_iff bit_exp_iff)

end
