(* ===== verification/Id_Allocator.thy ===== *)
theory Id_Allocator
  imports Prelude
begin

text \<open>
  The contract of an allocator of small identifiers, and what a group of clients that each hold
  at most one identifier gets from it.  Both thread registries of the program are clients: the
  hook threads of \<open>src/core/jbpf.c\<close> over the bitmap of \<open>src/core/jbpf_bitmap.h\<close>, and the I/O
  threads of \<open>src/io/jbpf_io_thread_mgmt.c\<close>.
\<close>

locale id_allocator =
  fixes invar :: "'s \<Rightarrow> bool"
    and used :: "'s \<Rightarrow> nat set"
    and cap :: "'s \<Rightarrow> nat"
    and alloc :: "'s \<Rightarrow> (int \<times> 's) option"
    and release :: "'s \<Rightarrow> int \<Rightarrow> 's option"
  assumes used_below_cap: "invar s \<Longrightarrow> used s \<subseteq> {..<cap s}"
    and alloc_full: "invar s \<Longrightarrow> used s = {..<cap s} \<Longrightarrow>
      \<exists>s'. alloc s = Some (- 1, s') \<and> invar s' \<and> cap s' = cap s \<and> used s' = used s"
    and alloc_fresh: "invar s \<Longrightarrow> used s \<noteq> {..<cap s} \<Longrightarrow>
      \<exists>s'. alloc s = Some (int (LEAST k. k \<notin> used s), s') \<and> invar s' \<and> cap s' = cap s
        \<and> used s' = insert (LEAST k. k \<notin> used s) (used s)"
    and release_used: "invar s \<Longrightarrow> i < cap s \<Longrightarrow>
      \<exists>s'. release s (int i) = Some s' \<and> invar s' \<and> cap s' = cap s \<and> used s' = used s - {i}"
begin

text \<open>A table of holders is right for an allocator state when no two clients hold the same
  identifier and the identifiers in use are exactly the held ones.\<close>

definition holders_ok :: "'s \<Rightarrow> ('t \<Rightarrow> nat option) \<Rightarrow> bool" where
  "holders_ok s own = (invar s \<and> inj_on own (dom own) \<and> ran own = used s)"

lemma finite_used: "invar s \<Longrightarrow> finite (used s)"
  using used_below_cap finite_subset by blast

lemma fresh_below_cap:
  assumes "invar s" "used s \<noteq> {..<cap s}"
  shows "(LEAST k. k \<notin> used s) < cap s" "(LEAST k. k \<notin> used s) \<notin> used s"
proof -
  obtain k where "k < cap s" "k \<notin> used s"
    using assms used_below_cap by blast
  then show "(LEAST k. k \<notin> used s) < cap s" "(LEAST k. k \<notin> used s) \<notin> used s"
    by (meson Least_le le_less_trans) (metis (mono_tags, lifting) LeastI \<open>k \<notin> used s\<close>)
qed

lemma alloc_cases:
  assumes "invar s"
  obtains (full) s' where "alloc s = Some (- 1, s')" "used s = {..<cap s}"
      "invar s'" "cap s' = cap s" "used s' = used s"
  | (fresh) i s' where "alloc s = Some (int i, s')" "i < cap s" "i \<notin> used s"
      "invar s'" "cap s' = cap s" "used s' = insert i (used s)"
  using assms alloc_full alloc_fresh fresh_below_cap by metis

lemma alloc_holder:
  assumes ok: "holders_ok s own" and t: "own t = None" and al: "alloc s = Some (i, s')" "i \<noteq> - 1"
  shows "holders_ok s' (own(t \<mapsto> nat i))" "0 \<le> i" "nat i < cap s" "cap s' = cap s"
    "nat i \<notin> ran own"
proof -
  have inv: "invar s" and ran: "ran own = used s" and inj: "inj_on own (dom own)"
    using ok by (auto simp: holders_ok_def)
  obtain j where fresh: "i = int j" "j < cap s" "j \<notin> used s"
      "invar s'" "cap s' = cap s" "used s' = insert j (used s)"
    using inv al by (cases rule: alloc_cases) auto
  have "own x \<noteq> Some j" for x
    using ran fresh(3) by (auto simp: ran_def)
  then have "inj_on (own(t \<mapsto> j)) (dom (own(t \<mapsto> j)))"
    using inj by (auto simp: inj_on_def)
  then show "holders_ok s' (own(t \<mapsto> nat i))" "0 \<le> i" "nat i < cap s" "cap s' = cap s"
    "nat i \<notin> ran own"
    using fresh t ran by (auto simp: holders_ok_def ran_map_upd)
qed

lemma alloc_refused:
  assumes ok: "holders_ok s own" and al: "alloc s = Some (- 1, s')"
  shows "holders_ok s' own" "cap s' = cap s" "ran own = {..<cap s}"
proof -
  have inv: "invar s" and ran: "ran own = used s"
    using ok by (auto simp: holders_ok_def)
  have "invar s' \<and> used s = {..<cap s} \<and> used s' = used s \<and> cap s' = cap s"
    using inv al by (cases rule: alloc_cases) auto
  then show "holders_ok s' own" "cap s' = cap s" "ran own = {..<cap s}"
    using ok by (auto simp: holders_ok_def)
qed

lemma alloc_not_stuck: "holders_ok s own \<Longrightarrow> \<exists>i s'. alloc s = Some (i, s')"
  using alloc_full alloc_fresh unfolding holders_ok_def by metis

lemma ran_clear_inj:
  assumes "inj_on own (dom own)" "own t = Some i"
  shows "ran (own(t := None)) = ran own - {i}"
proof -
  have only: "own u = Some i \<longleftrightarrow> u = t" for u
    using assms by (metis domI inj_onD)
  show ?thesis
  proof (rule set_eqI)
    fix j
    have "(\<exists>u. u \<noteq> t \<and> own u = Some j) \<longleftrightarrow> (\<exists>u. own u = Some j) \<and> j \<noteq> i"
      using only assms(2) by (metis option.inject)
    then show "j \<in> ran (own(t := None)) \<longleftrightarrow> j \<in> ran own - {i}"
      by (auto simp: ran_def)
  qed
qed

lemma release_holder:
  assumes ok: "holders_ok s own" and t: "own t = Some i"
  obtains s' where "release s (int i) = Some s'" "holders_ok s' (own(t := None))" "cap s' = cap s"
proof -
  have inv: "invar s" and ran: "ran own = used s" and inj: "inj_on own (dom own)"
    using ok by (auto simp: holders_ok_def)
  have "i < cap s"
    using t ran used_below_cap [OF inv] by (auto simp: ran_def)
  then obtain s' where s': "release s (int i) = Some s'" "invar s'" "cap s' = cap s"
      "used s' = used s - {i}"
    using release_used [OF inv] by blast
  have "inj_on (own(t := None)) (dom (own(t := None)))"
    using inj by (auto simp: inj_on_def)
  with s' show thesis
    using ran_clear_inj [OF inj t] ran by (intro that [of s']) (auto simp: holders_ok_def)
qed

end

end
