(* ===== verification/Bitmap.thy ===== *)
theory Bitmap
  imports Id_Allocator
begin

text \<open>
  The bit allocator of \<open>src/core/jbpf_bitmap.h\<close>: an array of 32 bit words in which a set bit is
  an identifier in use.  The state is the C structure; \<^const>\<open>None\<close> as \<open>bm_data\<close> is the null
  pointer an allocation failure leaves behind, and \<^const>\<open>None\<close> as the result of an operation
  is an access outside the array.
\<close>

section \<open>The data structure and its operations\<close>

record jbpf_bitmap =
  bm_data :: "u32 list option"
  bm_num_blocks :: int
  bm_size :: nat

definition BITMAP_BITS_PER_WORD :: nat where
  "BITMAP_BITS_PER_WORD = 32"

text \<open>The parameter \<open>alloc_ok\<close> says whether the allocator serves a request of that many bytes.\<close>

definition jbpf_init_bitmap :: "(nat \<Rightarrow> bool) \<Rightarrow> nat \<Rightarrow> jbpf_bitmap" where
  "jbpf_init_bitmap alloc_ok sz =
    (let num_elems = ((sz + BITMAP_BITS_PER_WORD - 1) mod 2 ^ 64) div BITMAP_BITS_PER_WORD in
     \<lparr> bm_data = (if alloc_ok (num_elems * 4) then Some (replicate num_elems 0) else None),
       bm_num_blocks = c_int (int num_elems),
       bm_size = sz \<rparr>)"

text \<open>The loop of the allocation from index \<open>i\<close> on, in a thread that runs alone: the
  compare-and-swap then succeeds.\<close>

function allocate_from :: "jbpf_bitmap \<Rightarrow> nat \<Rightarrow> (int \<times> jbpf_bitmap) option" where
  "allocate_from b i =
    (if i < bm_size b then do {
       ws \<leftarrow> bm_data b;
       old_value \<leftarrow> arr_get ws (i div BITMAP_BITS_PER_WORD);
       let bit_mask = push_bit (i mod BITMAP_BITS_PER_WORD) (1 :: u32);
       if old_value AND bit_mask = 0 then do {
         ws' \<leftarrow> arr_set ws (i div BITMAP_BITS_PER_WORD) (old_value OR bit_mask);
         Some (c_int (int i), b\<lparr>bm_data := Some ws'\<rparr>)
       } else allocate_from b (Suc i)
     } else Some (-1, b))"
  by pat_completeness auto
termination
  by (relation "measure (\<lambda>(b, i). bm_size b - i)") auto

declare allocate_from.simps [simp del]

definition jbpf_allocate_bit :: "jbpf_bitmap \<Rightarrow> (int \<times> jbpf_bitmap) option" where
  "jbpf_allocate_bit b = allocate_from b 0"

definition jbpf_free_bit :: "jbpf_bitmap \<Rightarrow> int \<Rightarrow> jbpf_bitmap option" where
  "jbpf_free_bit b bit_index =
    (let index = c_size bit_index div BITMAP_BITS_PER_WORD in
     if index \<ge> c_size (bm_num_blocks b) then Some b
     else do {
       ws \<leftarrow> bm_data b;
       w \<leftarrow> arr_get ws index;
       let bit_mask = push_bit (c_size bit_index mod BITMAP_BITS_PER_WORD) (1 :: u32);
       ws' \<leftarrow> arr_set ws index (w AND NOT bit_mask);
       Some (b\<lparr>bm_data := Some ws'\<rparr>)
     })"

definition jbpf_destroy_bitmap :: "jbpf_bitmap \<Rightarrow> jbpf_bitmap" where
  "jbpf_destroy_bitmap b = b\<lparr>bm_data := None\<rparr>"

section \<open>The set of identifiers in use\<close>

text \<open>The abstraction of a bitmap is the set of its set bits; the invariant says that the word
  array has been allocated and covers every identifier below the size, and that the size fits
  the \<open>int\<close> an identifier is returned as.\<close>

definition bm_used :: "jbpf_bitmap \<Rightarrow> nat set" where
  "bm_used b = {i. i < bm_size b \<and>
     (\<exists>ws. bm_data b = Some ws \<and> bit (ws ! (i div 32)) (i mod 32))}"

definition bm_invar :: "jbpf_bitmap \<Rightarrow> bool" where
  "bm_invar b = (\<exists>ws. bm_data b = Some ws
     \<and> bm_num_blocks b = int (length ws)
     \<and> length ws = (bm_size b + 31) div 32
     \<and> bm_size b \<le> 2 ^ 31)"

lemma bm_invarE:
  assumes "bm_invar b"
  obtains ws where "bm_data b = Some ws" "bm_num_blocks b = int (length ws)"
    "length ws = (bm_size b + 31) div 32" "bm_size b \<le> 2 ^ 31"
  using assms by (auto simp: bm_invar_def)

lemma bm_word_in_range: "i < s \<Longrightarrow> i div 32 < (s + 31) div (32 :: nat)"
  by linarith

lemma bm_used_iff:
  "bm_data b = Some ws \<Longrightarrow> i \<in> bm_used b \<longleftrightarrow> i < bm_size b \<and> bit (ws ! (i div 32)) (i mod 32)"
  by (simp add: bm_used_def)

lemma finite_bm_used [simp]: "finite (bm_used b)"
  by (rule finite_subset [of _ "{..<bm_size b}"]) (auto simp: bm_used_def)

lemma jbpf_init_bitmap_correct:
  assumes "alloc_ok ((sz + 31) div 32 * 4)" "sz \<le> 2 ^ 31"
  shows "bm_invar (jbpf_init_bitmap alloc_ok sz)"
    and "bm_used (jbpf_init_bitmap alloc_ok sz) = {}"
    and "bm_size (jbpf_init_bitmap alloc_ok sz) = sz"
proof -
  have "(31 + sz) mod 18446744073709551616 = 31 + sz" "(31 + int sz) div 32 < 2147483648"
    using assms(2) by simp_all
  then have *: "jbpf_init_bitmap alloc_ok sz =
    \<lparr> bm_data = Some (replicate ((sz + 31) div 32) 0),
      bm_num_blocks = int ((sz + 31) div 32), bm_size = sz \<rparr>"
    using assms(1)
    by (simp add: jbpf_init_bitmap_def BITMAP_BITS_PER_WORD_def Let_def c_int_id zdiv_int add.commute)
  show "bm_invar (jbpf_init_bitmap alloc_ok sz)"
    using assms(2) by (simp add: * bm_invar_def)
  show "bm_used (jbpf_init_bitmap alloc_ok sz) = {}"
    using bm_word_in_range by (auto simp: * bm_used_def)
  show "bm_size (jbpf_init_bitmap alloc_ok sz) = sz"
    by (simp add: *)
qed

text \<open>Setting and clearing one bit of the array changes exactly that element of the set.\<close>

lemma div_mod_eq_iff: "i div n = j div n \<Longrightarrow> i mod n = j mod n \<Longrightarrow> i = (j :: nat)"
  by (metis div_mod_decomp)

lemma bit_update_set:
  fixes ws :: "u32 list"
  assumes "i div 32 < length ws" "j div 32 < length ws"
  shows "bit (ws[i div 32 := ws ! (i div 32) OR 2 ^ (i mod 32)] ! (j div 32)) (j mod 32)
    \<longleftrightarrow> j = i \<or> bit (ws ! (j div 32)) (j mod 32)"
proof (cases "i div 32 = j div 32")
  case True
  then show ?thesis
    using assms(2) div_mod_eq_iff [of j 32 i] by (auto simp: bit_or_exp)
qed auto

lemma bit_update_clear:
  fixes ws :: "u32 list"
  assumes "i div 32 < length ws" "j div 32 < length ws"
  shows "bit (ws[i div 32 := ws ! (i div 32) AND NOT (2 ^ (i mod 32))] ! (j div 32)) (j mod 32)
    \<longleftrightarrow> j \<noteq> i \<and> bit (ws ! (j div 32)) (j mod 32)"
proof (cases "i div 32 = j div 32")
  case True
  then show ?thesis
    using assms(2) div_mod_eq_iff [of j 32 i] by (auto simp: bit_and_not_exp)
qed auto

lemma bm_used_set:
  assumes "bm_data b = Some ws" "length ws = (bm_size b + 31) div 32" "i < bm_size b"
  shows "bm_used (b\<lparr>bm_data := Some (ws[i div 32 := ws ! (i div 32) OR 2 ^ (i mod 32)])\<rparr>)
    = insert i (bm_used b)"
proof (rule set_eqI)
  fix j
  show "j \<in> bm_used (b\<lparr>bm_data := Some (ws[i div 32 := ws ! (i div 32) OR 2 ^ (i mod 32)])\<rparr>)
    \<longleftrightarrow> j \<in> insert i (bm_used b)"
  proof (cases "j < bm_size b")
    case True
    then show ?thesis
      using assms bit_update_set [of i ws j] bm_word_in_range [of _ "bm_size b"]
      by (simp add: bm_used_iff del: nth_list_update)
  qed (use assms in \<open>auto simp: bm_used_def\<close>)
qed

lemma bm_used_clear:
  assumes "bm_data b = Some ws" "length ws = (bm_size b + 31) div 32" "i < bm_size b"
  shows "bm_used (b\<lparr>bm_data := Some (ws[i div 32 := ws ! (i div 32) AND NOT (2 ^ (i mod 32))])\<rparr>)
    = bm_used b - {i}"
proof (rule set_eqI)
  fix j
  show "j \<in> bm_used (b\<lparr>bm_data := Some (ws[i div 32 := ws ! (i div 32) AND NOT (2 ^ (i mod 32))])\<rparr>)
    \<longleftrightarrow> j \<in> bm_used b - {i}"
  proof (cases "j < bm_size b")
    case True
    then show ?thesis
      using assms bit_update_clear [of i ws j] bm_word_in_range [of _ "bm_size b"]
      by (auto simp add: bm_used_iff simp del: nth_list_update)
  qed (use assms in \<open>auto simp: bm_used_def\<close>)
qed

lemma allocate_from_step:
  assumes "bm_invar b" "i < bm_size b"
  shows "allocate_from b i =
    (if i \<in> bm_used b then allocate_from b (Suc i)
     else Some (int i, b\<lparr>bm_data := Some ((the (bm_data b))[i div 32 :=
       the (bm_data b) ! (i div 32) OR 2 ^ (i mod 32)])\<rparr>))"
proof -
  obtain ws where ws: "bm_data b = Some ws" "length ws = (bm_size b + 31) div 32" "bm_size b \<le> 2 ^ 31"
    using assms(1) by (auto elim: bm_invarE)
  have "i div 32 < length ws"
    using assms(2) ws(2) bm_word_in_range by simp
  then show ?thesis
    using assms(2) ws
    by (subst allocate_from.simps)
      (simp add: BITMAP_BITS_PER_WORD_def Let_def and_exp_eq_0_iff bm_used_iff c_int_id)
qed

lemma allocate_from_correct:
  assumes "bm_invar b" "i \<le> bm_size b"
  shows "if {i..<bm_size b} \<subseteq> bm_used b then allocate_from b i = Some (-1, b)
    else \<exists>b'. allocate_from b i = Some (int (LEAST k. i \<le> k \<and> k \<notin> bm_used b), b')
      \<and> bm_invar b' \<and> bm_size b' = bm_size b
      \<and> bm_used b' = insert (LEAST k. i \<le> k \<and> k \<notin> bm_used b) (bm_used b)"
  using assms
proof (induction b i rule: allocate_from.induct)
  case (1 b i)
  show ?case
  proof (cases "i < bm_size b")
    case False
    then show ?thesis by (simp add: allocate_from.simps)
  next
    case lt: True
    obtain ws where ws: "bm_data b = Some ws" "length ws = (bm_size b + 31) div 32"
      "bm_num_blocks b = int (length ws)" "bm_size b \<le> 2 ^ 31"
      using 1(2) by (auto elim: bm_invarE)
    have rng: "i div 32 < length ws" using lt ws(2) bm_word_in_range by simp
    show ?thesis
    proof (cases "i \<in> bm_used b")
      case used: True
      have nz: "ws ! (i div 32) AND 2 ^ (i mod 32) \<noteq> 0"
        using used ws by (simp add: and_exp_eq_0_iff bm_used_iff)
      have eq: "(i \<le> k \<and> k \<notin> bm_used b) = (Suc i \<le> k \<and> k \<notin> bm_used b)" for k
        using used by (metis Suc_leD Suc_leI le_neq_implies_less)
      have ivl: "{i..<bm_size b} = insert i {Suc i..<bm_size b}"
        using lt by auto
      have sub: "{i..<bm_size b} \<subseteq> bm_used b \<longleftrightarrow> {Suc i..<bm_size b} \<subseteq> bm_used b"
        using used by (simp add: ivl)
      show ?thesis
        using 1(1) [OF lt ws(1) _ refl] rng nz lt 1(2) used
        by (simp add: allocate_from_step eq sub BITMAP_BITS_PER_WORD_def Let_def)
    next
      case free: False
      then have l: "(LEAST k. i \<le> k \<and> k \<notin> bm_used b) = i"
        by (intro Least_equality) auto
      let ?b = "b\<lparr>bm_data := Some (ws[i div 32 := ws ! (i div 32) OR 2 ^ (i mod 32)])\<rparr>"
      have "bm_invar ?b" using ws by (simp add: bm_invar_def)
      moreover have "bm_used ?b = insert i (bm_used b)"
        using ws lt by (intro bm_used_set) simp_all
      ultimately show ?thesis
        using free lt ws 1(2) by (auto simp: allocate_from_step l)
    qed
  qed
qed

lemma jbpf_free_bit_correct:
  assumes "bm_invar b" "i < bm_size b"
  shows "\<exists>b'. jbpf_free_bit b (int i) = Some b' \<and> bm_invar b' \<and> bm_size b' = bm_size b
    \<and> bm_used b' = bm_used b - {i}"
proof -
  obtain ws where ws: "bm_data b = Some ws" "length ws = (bm_size b + 31) div 32"
    "bm_num_blocks b = int (length ws)" "bm_size b \<le> 2 ^ 31"
    using assms(1) by (auto elim: bm_invarE)
  have rng: "i div 32 < length ws" using assms(2) ws(2) bm_word_in_range by simp
  have sz: "length ws mod 18446744073709551616 = length ws" "i mod 18446744073709551616 = i"
    using ws assms(2) by simp_all
  let ?b = "b\<lparr>bm_data := Some (ws[i div 32 := ws ! (i div 32) AND NOT (2 ^ (i mod 32))])\<rparr>"
  show ?thesis
  proof (intro exI [of _ ?b] conjI)
    show "jbpf_free_bit b (int i) = Some ?b"
      using ws rng sz by (simp add: jbpf_free_bit_def BITMAP_BITS_PER_WORD_def Let_def)
    show "bm_invar ?b" using ws by (simp add: bm_invar_def)
    show "bm_size ?b = bm_size b" by simp
    show "bm_used ?b = bm_used b - {i}"
      using ws assms(2) by (intro bm_used_clear) simp_all
  qed
qed

lemma jbpf_free_bit_minus_one:
  assumes "bm_invar b"
  shows "jbpf_free_bit b (- 1) = Some b"
proof -
  obtain ws :: "u32 list" where ws: "length ws = (bm_size b + 31) div 32"
    "bm_num_blocks b = int (length ws)" "bm_size b \<le> 2 ^ 31"
    using assms by (elim bm_invarE) blast
  then have "length ws mod 18446744073709551616 = length ws" "length ws \<le> 2 ^ 27" by simp_all
  then show ?thesis
    using ws by (simp add: jbpf_free_bit_def BITMAP_BITS_PER_WORD_def c_size_neg_one Let_def)
qed

section \<open>The bitmap is an identifier allocator\<close>

lemma bm_used_below: "bm_used b \<subseteq> {..<bm_size b}"
  by (auto simp: bm_used_def)

lemma jbpf_allocate_bit_correct:
  assumes "bm_invar b"
  shows "if bm_used b = {..<bm_size b} then jbpf_allocate_bit b = Some (- 1, b)
    else \<exists>b'. jbpf_allocate_bit b = Some (int (LEAST k. k \<notin> bm_used b), b')
      \<and> bm_invar b' \<and> bm_size b' = bm_size b
      \<and> bm_used b' = insert (LEAST k. k \<notin> bm_used b) (bm_used b)"
proof -
  have *: "{0..<bm_size b} \<subseteq> bm_used b \<longleftrightarrow> bm_used b = {..<bm_size b}"
    unfolding atLeast0LessThan using bm_used_below by blast
  show ?thesis
    by (rule allocate_from_correct [OF assms le0, unfolded * eqTrueI [OF le0] simp_thms,
      folded jbpf_allocate_bit_def])
qed

interpretation bm: id_allocator bm_invar bm_used bm_size jbpf_allocate_bit jbpf_free_bit
proof (unfold_locales, goal_cases)
  case (1 s)
  show ?case by (rule bm_used_below)
next
  case (2 s)
  then show ?case using jbpf_allocate_bit_correct [OF 2(1)] by simp
next
  case (3 s)
  then show ?case using jbpf_allocate_bit_correct [OF 3(1)] by argo
next
  case (4 s i)
  then show ?case by (rule jbpf_free_bit_correct)
qed

section \<open>Concurrent allocation\<close>

text \<open>
  Several threads run \<^const>\<open>jbpf_allocate_bit\<close> and \<^const>\<open>jbpf_free_bit\<close> on one bitmap.  The
  atomic actions are the read of a word, the compare-and-swap on it and the atomic \<open>and\<close> of a
  release; between them any other thread may act.  \<open>Scan i\<close> is a thread about to read the word of
  index \<open>i\<close>, \<open>Swap i v\<close> one that found bit \<open>i\<close> clear in the value \<open>v\<close> it read, and \<open>Done r\<close> one
  whose call has returned \<open>r\<close>.
\<close>

datatype alloc_pc = Idle | Scan nat | Swap nat u32 | Done int

type_synonym 't alloc_state = "u32 list \<times> ('t \<Rightarrow> alloc_pc)"

inductive alloc_step :: "nat \<Rightarrow> 't alloc_state \<Rightarrow> 't alloc_state \<Rightarrow> bool" for sz :: nat where
  call: "pc t = Idle \<Longrightarrow> alloc_step sz (ws, pc) (ws, pc(t := Scan 0))"
| read_clear: "pc t = Scan i \<Longrightarrow> i < sz \<Longrightarrow> ws ! (i div 32) AND push_bit (i mod 32) 1 = 0 \<Longrightarrow>
    alloc_step sz (ws, pc) (ws, pc(t := Swap i (ws ! (i div 32))))"
| read_set: "pc t = Scan i \<Longrightarrow> i < sz \<Longrightarrow> ws ! (i div 32) AND push_bit (i mod 32) 1 \<noteq> 0 \<Longrightarrow>
    alloc_step sz (ws, pc) (ws, pc(t := Scan (Suc i)))"
| exhausted: "pc t = Scan i \<Longrightarrow> sz \<le> i \<Longrightarrow> alloc_step sz (ws, pc) (ws, pc(t := Done (- 1)))"
| cas_ok: "pc t = Swap i v \<Longrightarrow> ws ! (i div 32) = v \<Longrightarrow>
    alloc_step sz (ws, pc) (ws[i div 32 := v OR push_bit (i mod 32) 1], pc(t := Done (int i)))"
| cas_fail: "pc t = Swap i v \<Longrightarrow> ws ! (i div 32) \<noteq> v \<Longrightarrow>
    alloc_step sz (ws, pc) (ws, pc(t := Scan (Suc i)))"
| free: "pc t = Done (int i) \<Longrightarrow>
    alloc_step sz (ws, pc)
      (ws[i div 32 := ws ! (i div 32) AND NOT (push_bit (i mod 32) 1)], pc(t := Idle))"

text \<open>The identifiers held by threads.  The invariant: every held identifier has its bit set, no
  two threads hold the same one, and a thread about to swap read a value with its bit clear.\<close>

definition held_ids :: "('t \<Rightarrow> alloc_pc) \<Rightarrow> ('t \<times> nat) set" where
  "held_ids pc = {(t, i). pc t = Done (int i)}"

definition alloc_inv :: "nat \<Rightarrow> 't alloc_state \<Rightarrow> bool" where
  "alloc_inv sz = (\<lambda>(ws, pc). length ws = (sz + 31) div 32
     \<and> (\<forall>(t, i) \<in> held_ids pc. i < sz \<and> bit (ws ! (i div 32)) (i mod 32))
     \<and> inj_on snd (held_ids pc)
     \<and> (\<forall>t i v. pc t = Swap i v \<longrightarrow> i < sz \<and> \<not> bit v (i mod 32)))"

lemma held_ids_iff [simp]: "(t, i) \<in> held_ids pc \<longleftrightarrow> pc t = Done (int i)"
  by (simp add: held_ids_def)

lemma held_ids_upd:
  "held_ids (pc(t := x)) = (held_ids pc - {t} \<times> UNIV) \<union> {t} \<times> {i. x = Done (int i)}"
  by (auto simp: held_ids_def split: if_splits)

lemma alloc_inv_move:
  assumes "alloc_inv sz (ws, pc)" "\<And>i. x \<noteq> Done (int i)"
    "\<And>i v. x = Swap i v \<Longrightarrow> i < sz \<and> \<not> bit v (i mod 32)"
  shows "alloc_inv sz (ws, pc(t := x))"
proof -
  have *: "held_ids (pc(t := x)) = held_ids pc - {t} \<times> UNIV"
    using assms(2) by (simp add: held_ids_upd)
  have "inj_on snd (held_ids pc) \<Longrightarrow> inj_on snd (held_ids pc - {t} \<times> UNIV)"
    by (rule inj_on_diff)
  then show ?thesis
    using assms(1,3) by (simp add: alloc_inv_def *)
qed

lemma alloc_inv_take:
  assumes inv: "alloc_inv sz (ws, pc)" and pc: "pc t = Swap i (ws ! (i div 32))"
  shows "alloc_inv sz (ws[i div 32 := ws ! (i div 32) OR 2 ^ (i mod 32)], pc(t := Done (int i)))"
proof -
  have len: "length ws = (sz + 31) div 32" and i: "i < sz" "\<not> bit (ws ! (i div 32)) (i mod 32)"
    and inj: "inj_on snd (held_ids pc)"
    and bits: "\<And>u j. pc u = Done (int j) \<Longrightarrow> j < sz \<and> bit (ws ! (j div 32)) (j mod 32)"
    and swaps: "\<And>u j v. pc u = Swap j v \<Longrightarrow> j < sz \<and> \<not> bit v (j mod 32)"
    using inv pc by (auto simp: alloc_inv_def)
  have upd: "bit (ws[i div 32 := ws ! (i div 32) OR 2 ^ (i mod 32)] ! (j div 32)) (j mod 32)
    \<longleftrightarrow> j = i \<or> bit (ws ! (j div 32)) (j mod 32)" if "j < sz" for j
    using bit_update_set [of i ws j] i that len bm_word_in_range by simp
  have "held_ids pc - {t} \<times> UNIV = held_ids pc"
    using pc by auto
  then have *: "held_ids (pc(t := Done (int i))) = insert (t, i) (held_ids pc)"
    by (simp add: held_ids_upd)
  have "i \<notin> snd ` held_ids pc"
    using bits i(2) by auto
  then have "inj_on snd (held_ids (pc(t := Done (int i))))"
    using inj unfolding * by (auto simp: inj_on_insert)
  moreover have "\<forall>(u, j) \<in> held_ids (pc(t := Done (int i))).
      j < sz \<and> bit (ws[i div 32 := ws ! (i div 32) OR 2 ^ (i mod 32)] ! (j div 32)) (j mod 32)"
    unfolding * using bits i(1) upd by (auto simp del: nth_list_update)
  ultimately show ?thesis
    using len swaps by (simp add: alloc_inv_def)
qed

lemma alloc_inv_drop:
  assumes inv: "alloc_inv sz (ws, pc)" and pc: "pc t = Done (int i)"
  shows "alloc_inv sz (ws[i div 32 := ws ! (i div 32) AND NOT (2 ^ (i mod 32))], pc(t := Idle))"
proof -
  have len: "length ws = (sz + 31) div 32" and i: "i < sz"
    and inj: "inj_on snd (held_ids pc)"
    and bits: "\<And>u j. pc u = Done (int j) \<Longrightarrow> j < sz \<and> bit (ws ! (j div 32)) (j mod 32)"
    and swaps: "\<And>u j v. pc u = Swap j v \<Longrightarrow> j < sz \<and> \<not> bit v (j mod 32)"
    using inv pc by (auto simp: alloc_inv_def)
  have upd: "bit (ws[i div 32 := ws ! (i div 32) AND NOT (2 ^ (i mod 32))] ! (j div 32)) (j mod 32)
    \<longleftrightarrow> j \<noteq> i \<and> bit (ws ! (j div 32)) (j mod 32)" if "j < sz" for j
    using bit_update_clear [of i ws j] i that len bm_word_in_range by simp
  have *: "held_ids (pc(t := Idle)) = held_ids pc - {(t, i)}"
    using pc by (auto simp: held_ids_upd)
  have "u = t" if "pc u = Done (int i)" for u
    using inj_onD [OF inj, of "(u, i)" "(t, i)"] that pc by auto
  then have "\<forall>(u, j) \<in> held_ids (pc(t := Idle)).
      j < sz \<and> bit (ws[i div 32 := ws ! (i div 32) AND NOT (2 ^ (i mod 32))] ! (j div 32)) (j mod 32)"
    unfolding * using bits upd by (auto simp del: nth_list_update)
  moreover have "inj_on snd (held_ids (pc(t := Idle)))"
    unfolding * by (rule inj_on_diff [OF inj])
  ultimately show ?thesis
    using len swaps by (simp add: alloc_inv_def)
qed

lemma alloc_step_inv:
  assumes "alloc_step sz s s'" "alloc_inv sz s"
  shows "alloc_inv sz s'"
  using assms
proof (induction rule: alloc_step.induct)
  case (cas_ok pc t i v ws)
  then show ?case using alloc_inv_take by auto
next
  case (free pc t i ws)
  then show ?case using alloc_inv_drop by auto
next
  case (call pc t ws)
  from call(2) show ?case by (rule alloc_inv_move) simp_all
next
  case (read_clear pc t i ws)
  from read_clear(4) show ?case
    by (rule alloc_inv_move) (use read_clear(2,3) in \<open>simp_all add: and_exp_eq_0_iff\<close>)
next
  case (read_set pc t i ws)
  from read_set(4) show ?case by (rule alloc_inv_move) simp_all
next
  case (exhausted pc t i ws)
  from exhausted(3) show ?case by (rule alloc_inv_move) simp_all
next
  case (cas_fail pc t i v ws)
  from cas_fail(3) show ?case by (rule alloc_inv_move) simp_all
qed

inductive_cases alloc_stepE: "alloc_step sz s s'"

lemma alloc_reach_inv:
  assumes "(alloc_step sz)\<^sup>*\<^sup>* s s'" "alloc_inv sz s"
  shows "alloc_inv sz s'"
  using assms
proof (induction rule: rtranclp_induct)
  case (step t u)
  show ?case by (rule alloc_step_inv [OF step(2) step(3) [OF step(4)]])
qed

lemma alloc_inv_start: "alloc_inv sz (replicate ((sz + 31) div 32) 0, \<lambda>_. Idle)"
  by (simp add: alloc_inv_def held_ids_def)

section \<open>Properties\<close>

text \<open>C33: A single call of \<^const>\<open>jbpf_allocate_bit\<close> on a well-formed bitmap never faults; it
  returns the lowest identifier not in use and marks exactly that one, or returns -1 and changes
  nothing when all identifiers are in use.\<close>

theorem allocate_bit_lowest:
  assumes "bm_invar b"
  shows "if bm_used b = {..<bm_size b} then jbpf_allocate_bit b = Some (- 1, b)
    else \<exists>b'. jbpf_allocate_bit b = Some (int (LEAST k. k \<notin> bm_used b), b')
      \<and> bm_invar b' \<and> bm_size b' = bm_size b
      \<and> bm_used b' = insert (LEAST k. k \<notin> bm_used b) (bm_used b)"
  by (rule jbpf_allocate_bit_correct [OF assms])

theorem allocate_bit_lowest_witness:
  "let b = \<lparr> bm_data = Some [5], bm_num_blocks = 1, bm_size = 3 \<rparr> in
    bm_invar b \<and> (\<exists>b'. jbpf_allocate_bit b = Some (int (LEAST k. k \<notin> bm_used b), b') \<and>
      bm_used b' = insert (LEAST k. k \<notin> bm_used b) (bm_used b))"
proof -
  let ?b = "\<lparr> bm_data = Some [5], bm_num_blocks = 1, bm_size = 3 \<rparr> :: jbpf_bitmap"
  have inv: "bm_invar ?b" by (simp add: bm_invar_def)
  have "(1 :: nat) \<notin> bm_used ?b" by (simp add: bm_used_def)
  moreover have "(1 :: nat) \<in> {..<bm_size ?b}" by simp
  ultimately have "bm_used ?b \<noteq> {..<bm_size ?b}" by metis
  then show ?thesis
    using inv allocate_bit_lowest [OF inv] unfolding Let_def by metis
qed

text \<open>C14: With any number of threads allocating and releasing concurrently, interleaved at the
  atomic reads and compare-and-swaps, two threads never hold the same identifier at the same
  time, and every held identifier is below the size.\<close>

theorem concurrent_ids_distinct:
  assumes "(alloc_step sz)\<^sup>*\<^sup>* (replicate ((sz + 31) div 32) 0, \<lambda>_. Idle) (ws, pc)"
    and "pc t = Done (int i)" and "pc u = Done (int i)"
  shows "t = u \<and> i < sz \<and> bit (ws ! (i div 32)) (i mod 32)"
proof -
  have inv: "alloc_inv sz (ws, pc)"
    by (rule alloc_reach_inv [OF assms(1) alloc_inv_start])
  then have "inj_on snd (held_ids pc)"
    by (simp add: alloc_inv_def)
  then have "(t, i) = (u, i)"
    using assms(2,3) by (auto dest: inj_onD [of _ _ "(t, i)" "(u, i)"])
  with inv assms(2) show ?thesis
    by (auto simp: alloc_inv_def)
qed

theorem concurrent_ids_distinct_witness:
  "(alloc_step 32)\<^sup>*\<^sup>* (replicate ((32 + 31) div 32) 0, \<lambda>_ :: nat. Idle) ([1], (\<lambda>_. Idle)(7 := Done 0))
    \<and> (0 :: nat) < 32 \<and> bit (1 :: u32) 0"
proof -
  let ?p = "\<lambda>_ :: nat. Idle"
  have 1: "alloc_step 32 ([0], ?p) ([0], ?p(7 := Scan 0))"
    by (rule call) simp
  have "alloc_step 32 ([0], ?p(7 := Scan 0)) ([0], (?p(7 := Scan 0))(7 := Swap 0 ([0] ! (0 div 32))))"
    by (rule read_clear) simp_all
  then have 2: "alloc_step 32 ([0], ?p(7 := Scan 0)) ([0], ?p(7 := Swap 0 0))" by simp
  have "alloc_step 32 ([0], ?p(7 := Swap 0 0))
     ([0][0 div 32 := 0 OR push_bit (0 mod 32) 1], (?p(7 := Swap 0 0))(7 := Done (int 0)))"
    by (rule cas_ok) simp_all
  then have 3: "alloc_step 32 ([0], ?p(7 := Swap 0 0)) ([1], ?p(7 := Done 0))" by simp
  have "replicate ((32 + 31) div 32) 0 = [0 :: u32]" by simp
  then have r: "(alloc_step 32)\<^sup>*\<^sup>* (replicate ((32 + 31) div 32) 0, ?p) ([1], ?p(7 := Done 0))"
    using converse_rtranclp_into_rtranclp [of "alloc_step 32", OF 1
      converse_rtranclp_into_rtranclp [of "alloc_step 32", OF 2 r_into_rtranclp [of "alloc_step 32", OF 3]]]
    by (simp only:)
  from concurrent_ids_distinct [OF r, of 7 0 7] r show ?thesis by simp
qed

end
