(* ===== verification/Threads.thy ===== *)
theory Threads
  imports Bitmap
begin

text \<open>
  Registration of the threads that call hooks: the hook thread identifiers of
  \<open>src/core/jbpf.c\<close>, kept in the bitmap of \<^theory_text>\<open>Bitmap\<close>, and the I/O thread identifiers of
  \<open>src/io/jbpf_io_thread_mgmt.c\<close>, kept in a bitmap of Concurrency Kit.  Thread-local variables are
  fields of \<open>thread_local\<close>, one record per thread.
\<close>

section \<open>I/O threads\<close>

text \<open>The operations of \<open>ck_bitmap\<close> the code calls are a record of functions; \<open>ck_bitmap_spec\<close> is
  what its documentation promises of them.\<close>

record 'm ck_bitmap_ops =
  ck_bitmap_init :: "nat \<Rightarrow> 'm"
  ck_bitmap_bits :: "'m \<Rightarrow> nat"
  ck_bitmap_test :: "'m \<Rightarrow> nat \<Rightarrow> bool"
  ck_bitmap_bts :: "'m \<Rightarrow> nat \<Rightarrow> bool \<times> 'm"
  ck_bitmap_reset :: "'m \<Rightarrow> nat \<Rightarrow> 'm"

definition ck_bitmap_spec :: "'m ck_bitmap_ops \<Rightarrow> bool" where
  "ck_bitmap_spec ck =
    ((\<forall>n. ck_bitmap_bits ck (ck_bitmap_init ck n) = n)
     \<and> (\<forall>n i. i < n \<longrightarrow> \<not> ck_bitmap_test ck (ck_bitmap_init ck n) i)
     \<and> (\<forall>m i. i < ck_bitmap_bits ck m \<longrightarrow>
          fst (ck_bitmap_bts ck m i) = ck_bitmap_test ck m i
          \<and> ck_bitmap_bits ck (snd (ck_bitmap_bts ck m i)) = ck_bitmap_bits ck m
          \<and> (\<forall>j < ck_bitmap_bits ck m. ck_bitmap_test ck (snd (ck_bitmap_bts ck m i)) j
                \<longleftrightarrow> j = i \<or> ck_bitmap_test ck m j))
     \<and> (\<forall>m i. i < ck_bitmap_bits ck m \<longrightarrow>
          ck_bitmap_bits ck (ck_bitmap_reset ck m i) = ck_bitmap_bits ck m
          \<and> (\<forall>j < ck_bitmap_bits ck m. ck_bitmap_test ck (ck_bitmap_reset ck m i) j
                \<longleftrightarrow> j \<noteq> i \<and> ck_bitmap_test ck m j)))"

definition JBPF_IO_MAX_NUM_THREADS :: nat where
  "JBPF_IO_MAX_NUM_THREADS = 32"

record thread_local =
  tl_thread_id :: int
  tl_registered :: bool
  tl_unregistered :: bool
  tl_e_record :: "int option"
  tl_seed :: nat
  tl_io_thread_id :: int
  tl_io_records :: "int option"

definition thread_local_init :: thread_local where
  "thread_local_init = \<lparr> tl_thread_id = - 1, tl_registered = False, tl_unregistered = False,
     tl_e_record = None, tl_seed = 0, tl_io_thread_id = - 1, tl_io_records = None \<rparr>"

definition jbpf_io_thread_ctx_init :: "'m ck_bitmap_ops \<Rightarrow> 'm" where
  "jbpf_io_thread_ctx_init ck = ck_bitmap_init ck JBPF_IO_MAX_NUM_THREADS"

text \<open>The loop over the bits; the result is the first bit that was clear, now set.\<close>

function io_register_scan :: "'m ck_bitmap_ops \<Rightarrow> nat \<Rightarrow> 'm \<Rightarrow> nat \<Rightarrow> nat option \<times> 'm" where
  "io_register_scan ck num_threads tm i =
    (if i < num_threads then
       (let (old, tm') = ck_bitmap_bts ck tm i in
        if \<not> old then (Some i, tm') else io_register_scan ck num_threads tm' (Suc i))
     else (None, tm))"
  by pat_completeness auto
termination
  by (relation "measure (\<lambda>(ck, n, tm, i). n - i)") auto

declare io_register_scan.simps [simp del]

definition jbpf_io_register_thread ::
  "'m ck_bitmap_ops \<Rightarrow> 'm \<Rightarrow> thread_local \<Rightarrow> bool \<times> 'm \<times> thread_local" where
  "jbpf_io_register_thread ck tm lc =
    (if tl_io_thread_id lc \<ge> 0 then (True, tm, lc)
     else case io_register_scan ck (ck_bitmap_bits ck tm) tm 0 of
       (Some i, tm') \<Rightarrow>
         (True, tm', lc\<lparr>tl_io_thread_id := c_int16 (int i), tl_io_records := Some (c_int16 (int i))\<rparr>)
     | (None, tm') \<Rightarrow> (False, tm', lc\<lparr>tl_io_thread_id := - 1\<rparr>))"

definition jbpf_io_remove_thread ::
  "'m ck_bitmap_ops \<Rightarrow> 'm \<Rightarrow> thread_local \<Rightarrow> 'm \<times> thread_local" where
  "jbpf_io_remove_thread ck tm lc =
    (if tl_io_thread_id lc < 0 then (tm, lc)
     else (ck_bitmap_reset ck tm (c_u32 (tl_io_thread_id lc)),
           lc\<lparr>tl_io_records := None, tl_io_thread_id := - 1\<rparr>))"

definition jbpf_io_get_thread_id ::
  "'m ck_bitmap_ops \<Rightarrow> 'm \<Rightarrow> thread_local \<Rightarrow> int \<times> 'm \<times> thread_local" where
  "jbpf_io_get_thread_id ck tm lc =
    (let (tm', lc') = (if tl_io_thread_id lc < 0
        then snd (jbpf_io_register_thread ck tm lc) else (tm, lc)) in
     (tl_io_thread_id lc', tm', lc'))"

section \<open>Hook threads\<close>

definition JBPF_MAX_NUM_REG_THREADS :: nat where
  "JBPF_MAX_NUM_REG_THREADS = 32"

record ('t, 'm) threads_info =
  registered_threads :: jbpf_bitmap
  thread_mask :: 'm
  locals :: "'t \<Rightarrow> thread_local"

definition jbpf_init_threads_info :: "(nat \<Rightarrow> bool) \<Rightarrow> jbpf_bitmap" where
  "jbpf_init_threads_info alloc_ok = jbpf_init_bitmap alloc_ok JBPF_MAX_NUM_REG_THREADS"

definition register_jbpf_hook_thread ::
  "jbpf_bitmap \<Rightarrow> thread_local \<Rightarrow> (bool \<times> jbpf_bitmap \<times> thread_local) option" where
  "register_jbpf_hook_thread bm lc = do {
     (i, bm') \<leftarrow> jbpf_allocate_bit bm;
     let lc' = lc\<lparr>tl_thread_id := i\<rparr>;
     if i = - 1 then Some (False, bm', lc')
     else Some (True, bm', lc'\<lparr>tl_e_record := Some i\<rparr>)
   }"

text \<open>\<open>now\<close> is what \<open>time\<close> returns; the seed keeps its low 32 bits.\<close>

definition jbpf_register_thread ::
  "'m ck_bitmap_ops \<Rightarrow> nat \<Rightarrow> 't \<Rightarrow> ('t, 'm) threads_info \<Rightarrow> ('t, 'm) threads_info option" where
  "jbpf_register_thread ck now t ti =
    (if \<not> tl_registered (locals ti t) then do {
       let (_, tm', lc1) = jbpf_io_register_thread ck (thread_mask ti) (locals ti t);
       (ok, bm', lc2) \<leftarrow> register_jbpf_hook_thread (registered_threads ti) lc1;
       let lc3 = (if ok then lc2\<lparr>tl_registered := True, tl_seed := c_u32 (int now)\<rparr> else lc2);
       Some (ti\<lparr>registered_threads := bm', thread_mask := tm', locals := (locals ti)(t := lc3)\<rparr>)
     } else Some ti)"

definition jbpf_remove_hook_thread :: "jbpf_bitmap \<Rightarrow> thread_local \<Rightarrow> jbpf_bitmap option" where
  "jbpf_remove_hook_thread bm lc = jbpf_free_bit bm (tl_thread_id lc)"

definition jbpf_cleanup_thread ::
  "'m ck_bitmap_ops \<Rightarrow> 't \<Rightarrow> ('t, 'm) threads_info \<Rightarrow> ('t, 'm) threads_info option" where
  "jbpf_cleanup_thread ck t ti =
    (if \<not> tl_unregistered (locals ti t) then do {
       bm' \<leftarrow> jbpf_remove_hook_thread (registered_threads ti) (locals ti t);
       let lc1 = (locals ti t)\<lparr>tl_unregistered := True\<rparr>;
       let (tm', lc2) = jbpf_io_remove_thread ck (thread_mask ti) lc1;
       Some (ti\<lparr>registered_threads := bm', thread_mask := tm', locals := (locals ti)(t := lc2)\<rparr>)
     } else Some ti)"

text \<open>A history of the calls the threads make, in the order they take effect.\<close>

datatype 't thread_op = Register nat 't | Cleanup 't

fun run_thread_ops ::
  "'m ck_bitmap_ops \<Rightarrow> 't thread_op list \<Rightarrow> ('t, 'm) threads_info \<Rightarrow> ('t, 'm) threads_info option" where
  "run_thread_ops ck [] ti = Some ti"
| "run_thread_ops ck (Register now t # ops) ti =
     jbpf_register_thread ck now t ti \<bind> run_thread_ops ck ops"
| "run_thread_ops ck (Cleanup t # ops) ti =
     jbpf_cleanup_thread ck t ti \<bind> run_thread_ops ck ops"

definition threads_start :: "'m ck_bitmap_ops \<Rightarrow> (nat \<Rightarrow> bool) \<Rightarrow> ('t, 'm) threads_info" where
  "threads_start ck alloc_ok = \<lparr> registered_threads = jbpf_init_threads_info alloc_ok,
     thread_mask = jbpf_io_thread_ctx_init ck, locals = (\<lambda>_. thread_local_init) \<rparr>"

section \<open>Both registries are identifier allocators\<close>

definition io_used :: "'m ck_bitmap_ops \<Rightarrow> 'm \<Rightarrow> nat set" where
  "io_used ck m = {i. i < ck_bitmap_bits ck m \<and> ck_bitmap_test ck m i}"

definition io_alloc :: "'m ck_bitmap_ops \<Rightarrow> 'm \<Rightarrow> (int \<times> 'm) option" where
  "io_alloc ck m = (case io_register_scan ck (ck_bitmap_bits ck m) m 0 of
     (Some i, m') \<Rightarrow> Some (int i, m') | (None, m') \<Rightarrow> Some (- 1, m'))"

definition io_release :: "'m ck_bitmap_ops \<Rightarrow> 'm \<Rightarrow> int \<Rightarrow> 'm option" where
  "io_release ck m i = Some (ck_bitmap_reset ck m (c_u32 i))"

definition io_invar :: "'m ck_bitmap_ops \<Rightarrow> 'm \<Rightarrow> bool" where
  "io_invar ck m = (ck_bitmap_bits ck m \<le> 2 ^ 15)"

lemma ck_bts:
  assumes "ck_bitmap_spec ck" "i < ck_bitmap_bits ck m"
  shows "fst (ck_bitmap_bts ck m i) \<longleftrightarrow> i \<in> io_used ck m"
    and "ck_bitmap_bits ck (snd (ck_bitmap_bts ck m i)) = ck_bitmap_bits ck m"
    and "io_used ck (snd (ck_bitmap_bts ck m i)) = insert i (io_used ck m)"
  using assms by (auto simp: ck_bitmap_spec_def io_used_def)

lemma ck_reset:
  assumes "ck_bitmap_spec ck" "i < ck_bitmap_bits ck m"
  shows "ck_bitmap_bits ck (ck_bitmap_reset ck m i) = ck_bitmap_bits ck m"
    and "io_used ck (ck_bitmap_reset ck m i) = io_used ck m - {i}"
  using assms by (auto simp: ck_bitmap_spec_def io_used_def)

lemma io_register_scan_correct:
  assumes "ck_bitmap_spec ck" "n = ck_bitmap_bits ck m" "i \<le> n"
  shows "if {i..<n} \<subseteq> io_used ck m
    then \<exists>m'. io_register_scan ck n m i = (None, m') \<and> ck_bitmap_bits ck m' = n
      \<and> io_used ck m' = io_used ck m
    else \<exists>m'. io_register_scan ck n m i = (Some (LEAST k. i \<le> k \<and> k \<notin> io_used ck m), m')
      \<and> ck_bitmap_bits ck m' = n
      \<and> io_used ck m' = insert (LEAST k. i \<le> k \<and> k \<notin> io_used ck m) (io_used ck m)"
  using assms
proof (induction ck n m i rule: io_register_scan.induct)
  case (1 ck n m i)
  show ?case
  proof (cases "i < n")
    case False
    then show ?thesis using 1 by (simp add: io_register_scan.simps)
  next
    case lt: True
    obtain old m' where b: "ck_bitmap_bts ck m i = (old, m')" by fastforce
    have old: "old \<longleftrightarrow> i \<in> io_used ck m" and bits: "ck_bitmap_bits ck m' = n"
      and us: "io_used ck m' = insert i (io_used ck m)"
      using ck_bts [OF 1(2), of i m] lt b 1(3) by auto
    show ?thesis
    proof (cases "i \<in> io_used ck m")
      case True
      have eq: "(i \<le> k \<and> k \<notin> io_used ck m) = (Suc i \<le> k \<and> k \<notin> io_used ck m)" for k
        using True by (metis Suc_leD Suc_leI le_neq_implies_less)
      have ivl: "{i..<n} = insert i {Suc i..<n}" using lt by auto
      have us': "io_used ck m' = io_used ck m" using us True by auto
      have "io_register_scan ck n m i = io_register_scan ck n m' (Suc i)"
        using lt b old True by (subst io_register_scan.simps) simp
      moreover have "\<not> \<not> old" "Suc i \<le> n" using old True lt by auto
      note 1(1) [OF lt b [symmetric] refl this(1) 1(2) bits [symmetric] this(2), unfolded us']
      ultimately show ?thesis by (simp only: eq ivl insert_subset True simp_thms)
    next
      case False
      then have l: "(LEAST k. i \<le> k \<and> k \<notin> io_used ck m) = i"
        by (intro Least_equality) auto
      have "io_register_scan ck n m i = (Some i, m')"
        using lt b old False by (subst io_register_scan.simps) simp
      then show ?thesis using False lt bits us by (auto simp: l)
    qed
  qed
qed

lemma io_id_allocator:
  assumes "ck_bitmap_spec ck"
  shows "id_allocator (io_invar ck) (io_used ck) (ck_bitmap_bits ck) (io_alloc ck) (io_release ck)"
proof (unfold_locales, goal_cases)
  case (1 s)
  show ?case by (auto simp: io_used_def)
next
  case (2 s)
  show ?case
    using io_register_scan_correct [OF assms refl, of 0 s] 2
    by (auto simp: io_alloc_def io_invar_def atLeast0LessThan)
next
  case (3 s)
  have "\<not> {0..<ck_bitmap_bits ck s} \<subseteq> io_used ck s"
    using 3(2) by (auto simp: io_used_def)
  then show ?case
    using io_register_scan_correct [OF assms refl, of 0 s] 3(1)
    by (auto simp: io_alloc_def io_invar_def)
next
  case (4 s i)
  then have "i mod 4294967296 = i" by (simp add: io_invar_def)
  then show ?case
    using ck_reset [OF assms, of i s] 4 by (simp add: io_release_def io_invar_def)
qed

section \<open>Distinct identifiers for every history of calls\<close>

text \<open>A holder table \<open>own\<close> fits the hook thread identifiers when every holder is a registered
  thread with that identifier, a thread that is registered and not cleaned up is a holder, and
  an unregistered thread is none.\<close>

definition hook_table :: "('t \<Rightarrow> thread_local) \<Rightarrow> ('t \<Rightarrow> nat option) \<Rightarrow> bool" where
  "hook_table lcs own = (\<forall>t.
     (\<forall>i. own t = Some i \<longrightarrow> tl_registered (lcs t) \<and> tl_thread_id (lcs t) = int i)
     \<and> (tl_registered (lcs t) \<longrightarrow> \<not> tl_unregistered (lcs t) \<longrightarrow> own t \<noteq> None)
     \<and> (\<not> tl_registered (lcs t) \<longrightarrow> tl_thread_id (lcs t) = - 1))"

definition io_table :: "('t \<Rightarrow> thread_local) \<Rightarrow> 't \<Rightarrow> nat option" where
  "io_table lcs t =
    (if tl_io_thread_id (lcs t) < 0 then None else Some (nat (tl_io_thread_id (lcs t))))"

definition threads_inv :: "'m ck_bitmap_ops \<Rightarrow> ('t, 'm) threads_info \<Rightarrow> bool" where
  "threads_inv ck ti =
    (bm_size (registered_threads ti) = JBPF_MAX_NUM_REG_THREADS
     \<and> ck_bitmap_bits ck (thread_mask ti) = JBPF_IO_MAX_NUM_THREADS
     \<and> (\<exists>own. bm.holders_ok (registered_threads ti) own \<and> hook_table (locals ti) own)
     \<and> id_allocator.holders_ok (io_invar ck) (io_used ck) (thread_mask ti) (io_table (locals ti)))"

lemma io_table_upd:
  "io_table (lcs(t := lc)) = (io_table lcs)(t := if tl_io_thread_id lc < 0 then None
    else Some (nat (tl_io_thread_id lc)))"
  by (auto simp: io_table_def)

lemma jbpf_io_register_thread_eq:
  "jbpf_io_register_thread ck tm lc =
    (if tl_io_thread_id lc \<ge> 0 then (True, tm, lc)
     else let (i, tm') = the (io_alloc ck tm) in
       if i = - 1 then (False, tm', lc\<lparr>tl_io_thread_id := - 1\<rparr>)
       else (True, tm', lc\<lparr>tl_io_thread_id := c_int16 i, tl_io_records := Some (c_int16 i)\<rparr>))"
  by (auto simp: jbpf_io_register_thread_def io_alloc_def Let_def split: prod.splits option.splits)

text \<open>What a registration with the I/O library keeps, and which fields it leaves alone.\<close>

lemma io_register_inv:
  assumes spec: "ck_bitmap_spec ck"
    and ok: "id_allocator.holders_ok (io_invar ck) (io_used ck) tm (io_table lcs)"
    and reg: "jbpf_io_register_thread ck tm (lcs t) = (b, tm', lc')"
  shows "id_allocator.holders_ok (io_invar ck) (io_used ck) tm' (io_table (lcs(t := lc')))"
    and "ck_bitmap_bits ck tm' = ck_bitmap_bits ck tm"
    and "tl_thread_id lc' = tl_thread_id (lcs t)" "tl_registered lc' = tl_registered (lcs t)"
      "tl_unregistered lc' = tl_unregistered (lcs t)"
    and "b \<longleftrightarrow> tl_io_thread_id lc' \<ge> 0"
proof -
  note A = io_id_allocator [OF spec]
  have cap: "ck_bitmap_bits ck tm \<le> 2 ^ 15"
    using ok A by (simp add: id_allocator.holders_ok_def io_invar_def)
  consider (already) "tl_io_thread_id (lcs t) \<ge> 0"
    | (fresh) "tl_io_thread_id (lcs t) < 0" by linarith
  then have "id_allocator.holders_ok (io_invar ck) (io_used ck) tm' (io_table (lcs(t := lc')))
    \<and> ck_bitmap_bits ck tm' = ck_bitmap_bits ck tm \<and> tl_thread_id lc' = tl_thread_id (lcs t)
    \<and> tl_registered lc' = tl_registered (lcs t) \<and> tl_unregistered lc' = tl_unregistered (lcs t)
    \<and> (b \<longleftrightarrow> tl_io_thread_id lc' \<ge> 0)"
  proof cases
    case already
    then show ?thesis using reg ok by (auto simp: jbpf_io_register_thread_eq)
  next
    case fresh
    then have none: "io_table lcs t = None" by (simp add: io_table_def)
    obtain i tm1 where al: "io_alloc ck tm = Some (i, tm1)"
      using id_allocator.alloc_not_stuck [OF A ok] by blast
    show ?thesis
    proof (cases "i = - 1")
      case True
      have eqs: "b = False" "tm' = tm1" "lc' = (lcs t)\<lparr>tl_io_thread_id := - 1\<rparr>"
        using reg fresh al True by (auto simp: jbpf_io_register_thread_eq)
      have "io_table (lcs(t := lc')) = io_table lcs"
        using none by (simp add: eqs io_table_upd fun_upd_idem)
      with id_allocator.alloc_refused(1,2) [OF A ok al [unfolded True]] show ?thesis
        by (simp add: eqs)
    next
      case False
      note h = id_allocator.alloc_holder [OF A ok none al False]
      have "c_int16 i = i" using h(2,3) cap by (intro c_int16_id) auto
      then have eqs: "b = True" "tm' = tm1"
          "lc' = (lcs t)\<lparr>tl_io_thread_id := i, tl_io_records := Some i\<rparr>"
        using reg fresh al False by (auto simp: jbpf_io_register_thread_eq)
      then have "io_table (lcs(t := lc')) = (io_table lcs)(t \<mapsto> nat i)"
        using h(2) by (simp add: io_table_upd)
      with h show ?thesis by (simp add: eqs)
    qed
  qed
  then show "id_allocator.holders_ok (io_invar ck) (io_used ck) tm' (io_table (lcs(t := lc')))"
    "ck_bitmap_bits ck tm' = ck_bitmap_bits ck tm"
    "tl_thread_id lc' = tl_thread_id (lcs t)" "tl_registered lc' = tl_registered (lcs t)"
    "tl_unregistered lc' = tl_unregistered (lcs t)" "b \<longleftrightarrow> tl_io_thread_id lc' \<ge> 0"
    by auto
qed

lemma io_remove_inv:
  assumes spec: "ck_bitmap_spec ck"
    and ok: "id_allocator.holders_ok (io_invar ck) (io_used ck) tm (io_table lcs)"
    and lc: "tl_io_thread_id lc = tl_io_thread_id (lcs t)"
    and rem: "jbpf_io_remove_thread ck tm lc = (tm', lc')"
  shows "id_allocator.holders_ok (io_invar ck) (io_used ck) tm' (io_table (lcs(t := lc')))
    \<and> ck_bitmap_bits ck tm' = ck_bitmap_bits ck tm \<and> tl_thread_id lc' = tl_thread_id lc
    \<and> tl_registered lc' = tl_registered lc \<and> tl_unregistered lc' = tl_unregistered lc
    \<and> tl_io_thread_id lc' < 0"
proof (cases "tl_io_thread_id (lcs t) < 0")
  case True
  then have "tm' = tm" "lc' = lc"
    using rem lc by (auto simp: jbpf_io_remove_thread_def)
  moreover have "io_table (lcs(t := lc)) = io_table lcs"
    using True lc by (simp add: io_table_upd fun_upd_idem io_table_def)
  ultimately show ?thesis
    using True lc ok by simp
next
  case False
  note A = io_id_allocator [OF spec]
  have some: "io_table lcs t = Some (nat (tl_io_thread_id (lcs t)))"
    using False by (simp add: io_table_def)
  obtain tm1 where tm1: "io_release ck tm (int (nat (tl_io_thread_id (lcs t)))) = Some tm1"
    "id_allocator.holders_ok (io_invar ck) (io_used ck) tm1 ((io_table lcs)(t := None))"
    "ck_bitmap_bits ck tm1 = ck_bitmap_bits ck tm"
    using id_allocator.release_holder [OF A ok some] by blast
  moreover have "tm' = tm1" "lc' = lc\<lparr>tl_io_records := None, tl_io_thread_id := - 1\<rparr>"
    using False rem lc tm1(1) by (auto simp: jbpf_io_remove_thread_def io_release_def)
  ultimately show ?thesis by (simp add: io_table_upd)
qed

lemma hook_tableD:
  assumes "hook_table lcs own"
  shows "own t = Some i \<Longrightarrow> tl_registered (lcs t)" "own t = Some i \<Longrightarrow> tl_thread_id (lcs t) = int i"
    and "\<not> tl_registered (lcs t) \<Longrightarrow> own t = None"
    and "\<not> tl_registered (lcs t) \<Longrightarrow> tl_thread_id (lcs t) = - 1"
    and "tl_registered (lcs t) \<Longrightarrow> \<not> tl_unregistered (lcs t) \<Longrightarrow>
      own t = Some (nat (tl_thread_id (lcs t)))"
proof -
  have h: "(\<forall>i. own t = Some i \<longrightarrow> tl_registered (lcs t) \<and> tl_thread_id (lcs t) = int i)
     \<and> (tl_registered (lcs t) \<longrightarrow> \<not> tl_unregistered (lcs t) \<longrightarrow> own t \<noteq> None)
     \<and> (\<not> tl_registered (lcs t) \<longrightarrow> tl_thread_id (lcs t) = - 1)"
    using assms by (simp add: hook_table_def)
  then show "own t = Some i \<Longrightarrow> tl_registered (lcs t)" "own t = Some i \<Longrightarrow> tl_thread_id (lcs t) = int i"
    "\<not> tl_registered (lcs t) \<Longrightarrow> own t = None" "\<not> tl_registered (lcs t) \<Longrightarrow> tl_thread_id (lcs t) = - 1"
    "tl_registered (lcs t) \<Longrightarrow> \<not> tl_unregistered (lcs t) \<Longrightarrow> own t = Some (nat (tl_thread_id (lcs t)))"
    by (cases "own t"; auto)+
qed

lemma hook_table_upd:
  assumes "hook_table lcs own"
    and "\<And>i. x = Some i \<Longrightarrow> tl_registered lc \<and> tl_thread_id lc = int i"
    and "tl_registered lc \<Longrightarrow> \<not> tl_unregistered lc \<Longrightarrow> x \<noteq> None"
    and "\<not> tl_registered lc \<Longrightarrow> tl_thread_id lc = - 1"
  shows "hook_table (lcs(t := lc)) (own(t := x))"
  using assms unfolding hook_table_def by simp

lemma threads_invE:
  assumes "threads_inv ck ti"
  obtains own where "bm.holders_ok (registered_threads ti) own" "hook_table (locals ti) own"
    "bm_size (registered_threads ti) = JBPF_MAX_NUM_REG_THREADS"
    "ck_bitmap_bits ck (thread_mask ti) = JBPF_IO_MAX_NUM_THREADS"
    "id_allocator.holders_ok (io_invar ck) (io_used ck) (thread_mask ti) (io_table (locals ti))"
  using assms unfolding threads_inv_def by blast

lemma threads_invI:
  assumes "bm.holders_ok bm own" "hook_table lcs own" "bm_size bm = JBPF_MAX_NUM_REG_THREADS"
    "ck_bitmap_bits ck tm = JBPF_IO_MAX_NUM_THREADS"
    "id_allocator.holders_ok (io_invar ck) (io_used ck) tm (io_table lcs)"
  shows "threads_inv ck (ti\<lparr>registered_threads := bm, thread_mask := tm, locals := lcs\<rparr>)"
  using assms unfolding threads_inv_def by auto

lemma register_inv:
  assumes spec: "ck_bitmap_spec ck" and inv: "threads_inv ck ti"
  obtains ti' where "jbpf_register_thread ck now t ti = Some ti'" "threads_inv ck ti'"
    "\<not> tl_registered (locals ti' t) \<Longrightarrow> bm_used (registered_threads ti) = {..<JBPF_MAX_NUM_REG_THREADS}"
proof (cases "tl_registered (locals ti t)")
  case True
  then show thesis using inv by (intro that [of ti]) (auto simp: jbpf_register_thread_def)
next
  case unreg: False
  obtain own where own: "bm.holders_ok (registered_threads ti) own" "hook_table (locals ti) own"
    and sz: "bm_size (registered_threads ti) = JBPF_MAX_NUM_REG_THREADS"
    and bits: "ck_bitmap_bits ck (thread_mask ti) = JBPF_IO_MAX_NUM_THREADS"
    and io: "id_allocator.holders_ok (io_invar ck) (io_used ck) (thread_mask ti) (io_table (locals ti))"
    using inv by (rule threads_invE)
  obtain b tm' lc where reg: "jbpf_io_register_thread ck (thread_mask ti) (locals ti t) = (b, tm', lc)"
    using prod_cases3 by blast
  note io' = io_register_inv [OF spec io reg]
  note none = hook_tableD(3) [OF own(2) unreg]
  obtain i bm' where al: "jbpf_allocate_bit (registered_threads ti) = Some (i, bm')"
    using bm.alloc_not_stuck [OF own(1)] by blast
  let ?lc = "if i = - 1 then lc\<lparr>tl_thread_id := - 1\<rparr> else lc\<lparr>tl_thread_id := i,
    tl_e_record := Some i, tl_registered := True, tl_seed := c_u32 (int now)\<rparr>"
  let ?ti = "ti\<lparr>registered_threads := bm', thread_mask := tm', locals := (locals ti)(t := ?lc)\<rparr>"
  have step: "jbpf_register_thread ck now t ti = Some ?ti"
    using unreg reg al by (simp add: jbpf_register_thread_def register_jbpf_hook_thread_def)
  have iot: "io_table ((locals ti)(t := ?lc)) = io_table ((locals ti)(t := lc))"
    by (auto simp: io_table_upd)
  show thesis
  proof (cases "i = - 1")
    case True
    note h = bm.alloc_refused [OF own(1) al [unfolded True]]
    have "hook_table ((locals ti)(t := ?lc)) (own(t := None))"
      using own(2) by (rule hook_table_upd) (use True unreg io'(4) in simp_all)
    then have "hook_table ((locals ti)(t := ?lc)) own"
      using none by (simp add: fun_upd_idem)
    then have "threads_inv ck ?ti"
      using h sz bits io'(1,2) iot by (intro threads_invI) simp_all
    moreover have "bm_used (registered_threads ti) = {..<JBPF_MAX_NUM_REG_THREADS}"
      using h(3) own(1) sz by (simp add: bm.holders_ok_def)
    ultimately show thesis using step by (intro that [of ?ti]) auto
  next
    case False
    note h = bm.alloc_holder [OF own(1) none al False]
    have "hook_table ((locals ti)(t := ?lc)) (own(t \<mapsto> nat i))"
      using own(2) by (rule hook_table_upd) (use False h(2) in simp_all)
    then have "threads_inv ck ?ti"
      using h sz bits io'(1,2) iot by (intro threads_invI) simp_all
    then show thesis using step False by (intro that [of ?ti]) auto
  qed
qed

lemma cleanup_inv:
  assumes spec: "ck_bitmap_spec ck" and inv: "threads_inv ck ti"
  obtains ti' where "jbpf_cleanup_thread ck t ti = Some ti'" "threads_inv ck ti'"
proof (cases "tl_unregistered (locals ti t)")
  case True
  then show thesis using inv by (intro that [of ti]) (auto simp: jbpf_cleanup_thread_def)
next
  case un: False
  obtain own where own: "bm.holders_ok (registered_threads ti) own" "hook_table (locals ti) own"
    and sz: "bm_size (registered_threads ti) = JBPF_MAX_NUM_REG_THREADS"
    and bits: "ck_bitmap_bits ck (thread_mask ti) = JBPF_IO_MAX_NUM_THREADS"
    and io: "id_allocator.holders_ok (io_invar ck) (io_used ck) (thread_mask ti) (io_table (locals ti))"
    using inv by (rule threads_invE)
  let ?lc = "(locals ti t)\<lparr>tl_unregistered := True\<rparr>"
  obtain tm' lc where rem: "jbpf_io_remove_thread ck (thread_mask ti) ?lc = (tm', lc)"
    by fastforce
  have io': "id_allocator.holders_ok (io_invar ck) (io_used ck) tm' (io_table ((locals ti)(t := lc)))"
    "ck_bitmap_bits ck tm' = JBPF_IO_MAX_NUM_THREADS" "tl_thread_id lc = tl_thread_id (locals ti t)"
    "tl_registered lc = tl_registered (locals ti t)" "tl_unregistered lc"
    using io_remove_inv [OF spec io _ rem, of t] bits by simp_all
  have "\<exists>bm' own'. jbpf_free_bit (registered_threads ti) (tl_thread_id (locals ti t)) = Some bm'
    \<and> bm.holders_ok bm' own' \<and> bm_size bm' = bm_size (registered_threads ti)
    \<and> hook_table ((locals ti)(t := lc)) own'"
  proof (cases "own t")
    case None
    then have nr: "\<not> tl_registered (locals ti t)"
      using hook_tableD(5) [OF own(2)] un by auto
    then have "tl_thread_id (locals ti t) = - 1"
      by (rule hook_tableD(4) [OF own(2)])
    moreover have "jbpf_free_bit (registered_threads ti) (- 1) = Some (registered_threads ti)"
      using own(1) by (intro jbpf_free_bit_minus_one) (simp add: bm.holders_ok_def)
    moreover have "hook_table ((locals ti)(t := lc)) (own(t := None))"
      using own(2) by (rule hook_table_upd) (use nr calculation(1) io'(3-5) in simp_all)
    then have "hook_table ((locals ti)(t := lc)) own"
      using None by (simp add: fun_upd_idem)
    ultimately show ?thesis using own(1) by auto
  next
    case (Some i)
    then have "tl_thread_id (locals ti t) = int i" and r: "tl_registered (locals ti t)"
      using hook_tableD(1,2) [OF own(2)] by auto
    moreover obtain bm' where "jbpf_free_bit (registered_threads ti) (int i) = Some bm'"
        "bm.holders_ok bm' (own(t := None))" "bm_size bm' = bm_size (registered_threads ti)"
      using bm.release_holder [OF own(1) Some] by blast
    moreover have "hook_table ((locals ti)(t := lc)) (own(t := None))"
      using own(2) by (rule hook_table_upd) (use r io'(3-5) in simp_all)
    ultimately show ?thesis by auto
  qed
  then obtain bm' own' where bm': "jbpf_free_bit (registered_threads ti) (tl_thread_id (locals ti t)) = Some bm'"
    "bm.holders_ok bm' own'" "bm_size bm' = bm_size (registered_threads ti)"
    "hook_table ((locals ti)(t := lc)) own'" by blast
  let ?ti = "ti\<lparr>registered_threads := bm', thread_mask := tm', locals := (locals ti)(t := lc)\<rparr>"
  show thesis
  proof (rule that)
    show "jbpf_cleanup_thread ck t ti = Some ?ti"
      using un bm'(1) rem by (simp add: jbpf_cleanup_thread_def jbpf_remove_hook_thread_def)
    show "threads_inv ck ?ti"
      using bm' sz io' by (intro threads_invI) simp_all
  qed
qed

lemma threads_inv_start:
  assumes spec: "ck_bitmap_spec ck" and alloc_ok: "alloc_ok 4"
  shows "threads_inv ck (threads_start ck alloc_ok)"
proof -
  note A = io_id_allocator [OF spec]
  have "bm.holders_ok (jbpf_init_threads_info alloc_ok) (\<lambda>_. None)"
    using alloc_ok jbpf_init_bitmap_correct [of alloc_ok 32]
    by (simp add: jbpf_init_threads_info_def JBPF_MAX_NUM_REG_THREADS_def bm.holders_ok_def)
  moreover have "bm_size (jbpf_init_threads_info alloc_ok) = JBPF_MAX_NUM_REG_THREADS"
    by (simp add: jbpf_init_threads_info_def jbpf_init_bitmap_def Let_def)
  moreover have "hook_table (\<lambda>_. thread_local_init) (\<lambda>_. None)"
    by (simp add: hook_table_def thread_local_init_def)
  moreover have "ck_bitmap_bits ck (jbpf_io_thread_ctx_init ck) = JBPF_IO_MAX_NUM_THREADS"
    using spec by (simp add: jbpf_io_thread_ctx_init_def ck_bitmap_spec_def)
  moreover have "io_used ck (jbpf_io_thread_ctx_init ck) = {}"
    using spec by (auto simp: jbpf_io_thread_ctx_init_def ck_bitmap_spec_def io_used_def)
  moreover have iot: "io_table (\<lambda>_. thread_local_init) = (\<lambda>_. None)"
    by (auto simp: io_table_def thread_local_init_def)
  have "id_allocator.holders_ok (io_invar ck) (io_used ck) (jbpf_io_thread_ctx_init ck)
      (io_table (\<lambda>_. thread_local_init))"
    unfolding iot using calculation(4,5)
    by (simp add: id_allocator.holders_ok_def [OF A] io_invar_def JBPF_IO_MAX_NUM_THREADS_def)
  ultimately show ?thesis
    unfolding threads_start_def threads_inv_def by auto
qed

lemma run_thread_ops_inv:
  assumes spec: "ck_bitmap_spec ck" and inv: "threads_inv ck ti"
  shows "\<exists>ti'. run_thread_ops ck ops ti = Some ti' \<and> threads_inv ck ti'"
  using inv
proof (induction ops arbitrary: ti)
  case (Cons op ops)
  show ?case
  proof (cases op)
    case (Register now t)
    obtain ti' where "jbpf_register_thread ck now t ti = Some ti'" "threads_inv ck ti'"
      using register_inv [OF spec Cons.prems] by blast
    then show ?thesis using Cons.IH [of ti'] Register by simp
  next
    case (Cleanup t)
    obtain ti' where "jbpf_cleanup_thread ck t ti = Some ti'" "threads_inv ck ti'"
      using cleanup_inv [OF spec Cons.prems] by blast
    then show ?thesis using Cons.IH [of ti'] Cleanup by simp
  qed
qed simp

text \<open>A registered thread that has not been cleaned up.\<close>

definition active :: "('t, 'm) threads_info \<Rightarrow> 't \<Rightarrow> bool" where
  "active ti t = (tl_registered (locals ti t) \<and> \<not> tl_unregistered (locals ti t))"

lemma active_ids:
  assumes inv: "threads_inv ck ti" and t: "active ti t"
  shows "0 \<le> tl_thread_id (locals ti t)" "tl_thread_id (locals ti t) < int JBPF_MAX_NUM_REG_THREADS"
    "active ti u \<Longrightarrow> tl_thread_id (locals ti t) = tl_thread_id (locals ti u) \<Longrightarrow> t = u"
proof -
  obtain own where own: "bm.holders_ok (registered_threads ti) own" "hook_table (locals ti) own"
    and sz: "bm_size (registered_threads ti) = JBPF_MAX_NUM_REG_THREADS"
    using inv by (rule threads_invE)
  have h: "own v = Some (nat (tl_thread_id (locals ti v)))" "0 \<le> tl_thread_id (locals ti v)"
    if "active ti v" for v
    using hook_tableD(5) [OF own(2), of v] hook_tableD(2) [OF own(2), of v] that
    by (auto simp: active_def split: if_splits)
  show "0 \<le> tl_thread_id (locals ti t)" by (rule h(2) [OF t])
  have "nat (tl_thread_id (locals ti t)) \<in> bm_used (registered_threads ti)"
    using own(1) h(1) [OF t] by (auto simp: bm.holders_ok_def ran_def)
  then show "tl_thread_id (locals ti t) < int JBPF_MAX_NUM_REG_THREADS"
    using bm_used_below [of "registered_threads ti"] h(2) [OF t] sz by auto
  have "inj_on own (dom own)" using own(1) by (simp add: bm.holders_ok_def)
  then show "active ti u \<Longrightarrow> tl_thread_id (locals ti t) = tl_thread_id (locals ti u) \<Longrightarrow> t = u"
    using h(1) [OF t] h(1) [of u] by (auto simp: inj_on_def dom_def)
qed

lemma io_ids:
  assumes spec: "ck_bitmap_spec ck" and inv: "threads_inv ck ti" and t: "tl_io_thread_id (locals ti t) \<ge> 0"
  shows "tl_io_thread_id (locals ti t) < int JBPF_IO_MAX_NUM_THREADS"
    "tl_io_thread_id (locals ti t) = tl_io_thread_id (locals ti u) \<Longrightarrow> t = u"
proof -
  note A = io_id_allocator [OF spec]
  have ok: "id_allocator.holders_ok (io_invar ck) (io_used ck) (thread_mask ti) (io_table (locals ti))"
    and bits: "ck_bitmap_bits ck (thread_mask ti) = JBPF_IO_MAX_NUM_THREADS"
    using inv by (auto elim: threads_invE)
  have some: "io_table (locals ti) t = Some (nat (tl_io_thread_id (locals ti t)))"
    using t by (simp add: io_table_def)
  then have "nat (tl_io_thread_id (locals ti t)) \<in> io_used ck (thread_mask ti)"
    using ok by (auto simp: id_allocator.holders_ok_def [OF A] ran_def)
  then show "tl_io_thread_id (locals ti t) < int JBPF_IO_MAX_NUM_THREADS"
    using t bits by (auto simp: io_used_def)
  have inj: "inj_on (io_table (locals ti)) (dom (io_table (locals ti)))"
    using ok by (simp add: id_allocator.holders_ok_def [OF A])
  assume "tl_io_thread_id (locals ti t) = tl_io_thread_id (locals ti u)"
  then have "io_table (locals ti) u = io_table (locals ti) t" by (simp add: io_table_def)
  then show "t = u" using inj some by (metis domI inj_onD)
qed

section \<open>Properties\<close>

text \<open>C12: For every history of registrations and cleanups of threads, no call faults, and afterwards
  the threads that are registered and not cleaned up have pairwise different hook thread
  identifiers between 0 and 31, and the threads with an I/O identifier have pairwise different
  ones in that range.\<close>

theorem thread_ids_distinct:
  assumes "ck_bitmap_spec ck" and "alloc_ok 4"
  shows "\<exists>ti. run_thread_ops ck ops (threads_start ck alloc_ok) = Some ti
    \<and> (\<forall>t u. active ti t \<longrightarrow> active ti u \<longrightarrow>
          tl_thread_id (locals ti t) = tl_thread_id (locals ti u) \<longrightarrow> t = u)
    \<and> (\<forall>t. active ti t \<longrightarrow> 0 \<le> tl_thread_id (locals ti t) \<and> tl_thread_id (locals ti t) < 32)
    \<and> (\<forall>t u. 0 \<le> tl_io_thread_id (locals ti t) \<longrightarrow>
          tl_io_thread_id (locals ti t) = tl_io_thread_id (locals ti u) \<longrightarrow> t = u)
    \<and> (\<forall>t. tl_io_thread_id (locals ti t) < 32)"
proof -
  obtain ti where ti: "run_thread_ops ck ops (threads_start ck alloc_ok) = Some ti" "threads_inv ck ti"
    using run_thread_ops_inv [OF assms(1) threads_inv_start [of ck alloc_ok, OF assms]] by blast
  have "tl_io_thread_id (locals ti t) < 32" for t
    using io_ids(1) [OF assms(1) ti(2), of t] by (simp add: JBPF_IO_MAX_NUM_THREADS_def) linarith
  then show ?thesis
    using ti active_ids [OF ti(2)] io_ids(2) [OF assms(1) ti(2)]
    by (intro exI [of _ ti]) (simp add: JBPF_MAX_NUM_REG_THREADS_def)
qed

text \<open>A bitmap of Concurrency Kit as a size and a predicate, with which the hypotheses hold.\<close>

definition pred_bitmap :: "(nat \<times> (nat \<Rightarrow> bool)) ck_bitmap_ops" where
  "pred_bitmap = \<lparr> ck_bitmap_init = (\<lambda>n. (n, \<lambda>_. False)), ck_bitmap_bits = fst,
     ck_bitmap_test = snd, ck_bitmap_bts = (\<lambda>(n, p) i. (p i, n, p(i := True))),
     ck_bitmap_reset = (\<lambda>(n, p) i. (n, p(i := False))) \<rparr>"

lemma pred_bitmap_spec: "ck_bitmap_spec pred_bitmap"
  by (simp add: ck_bitmap_spec_def pred_bitmap_def split_def)

theorem thread_ids_distinct_witness:
  "\<exists>ti. run_thread_ops pred_bitmap [Register 7 0, Register 8 1, Cleanup 0, Register 9 (2 :: nat)]
      (threads_start pred_bitmap (\<lambda>_. True)) = Some ti
    \<and> (\<forall>t u. active ti t \<longrightarrow> active ti u \<longrightarrow>
          tl_thread_id (locals ti t) = tl_thread_id (locals ti u) \<longrightarrow> t = u)"
  using thread_ids_distinct [of pred_bitmap "\<lambda>_. True"
    "[Register 7 0, Register 8 1, Cleanup 0, Register 9 2]", OF pred_bitmap_spec TrueI] by blast

lemmas thread_eval =
  threads_start_def jbpf_init_threads_info_def jbpf_init_bitmap_def pred_bitmap_def
  jbpf_io_thread_ctx_init_def JBPF_IO_MAX_NUM_THREADS_def JBPF_MAX_NUM_REG_THREADS_def
  BITMAP_BITS_PER_WORD_def thread_local_init_def jbpf_register_thread_def jbpf_cleanup_thread_def
  jbpf_io_register_thread_def jbpf_io_remove_thread_def register_jbpf_hook_thread_def
  jbpf_remove_hook_thread_def jbpf_allocate_bit_def jbpf_free_bit_def
  allocate_from.simps io_register_scan.simps c_int_def c_int16_def c_u32_def c_size_def Let_def


end
