(* ===== verification/Hook.thy ===== *)
theory Hook
  imports Prelude
begin

text \<open>
  The hooks of \<open>src/core/jbpf_hook.c\<close> and \<open>src/core/jbpf_hook.h\<close>: a hook has an array of codelets
  ended by an entry with a null function pointer, or no array at all.  Registration and removal
  build a new array and publish it; calling the hook walks the array.  An array access out of
  bounds is \<^const>\<open>None\<close>.
\<close>

section \<open>Data\<close>

type_synonym jit_fn = nat  \<comment> \<open>the address of the compiled codelet, 0 is the null pointer\<close>

datatype hook_type = JBPF_HOOK_TYPE_MON | JBPF_HOOK_TYPE_CTRL

record hook_codelet =
  jbpf_codelet :: jit_fn
  prio :: u32
  time_thresh :: u64

record jbpf_hook =
  name :: string
  codelets :: "hook_codelet list option"
  hook_type :: hook_type

definition zero_codelet :: hook_codelet where
  "zero_codelet = \<lparr> jbpf_codelet = 0, prio = 0, time_thresh = 0 \<rparr>"

section \<open>Registration and removal\<close>

text \<open>The loop over the registered codelets: whether the codelet is there already, how many
  entries were passed, and the first position with a lower priority (-1 if there is none).\<close>

function hook_scan ::
  "hook_codelet list \<Rightarrow> jit_fn \<Rightarrow> u32 \<Rightarrow> nat \<Rightarrow> int \<Rightarrow> (bool \<times> nat \<times> int) option" where
  "hook_scan old codelet p nr pos =
    (if nr < length old then
       (if jbpf_codelet (old ! nr) = 0 then Some (False, nr, pos)
        else
          (let pos' = (if pos < 0 \<and> prio (old ! nr) < p then int nr else pos) in
           if jbpf_codelet (old ! nr) = codelet then Some (True, nr, pos')
           else hook_scan old codelet p (Suc nr) pos'))
     else None)"
  by pat_completeness auto
termination
  by (relation "measure (\<lambda>(old, c, p, nr, pos). length old - nr)") auto

declare hook_scan.simps [simp del]

text \<open>The new array, from the scan of the old one; \<open>alloc_ok\<close> is the allocator's answer.\<close>

definition build_codelets ::
  "(nat \<Rightarrow> bool) \<Rightarrow> hook_codelet list option \<Rightarrow> nat \<Rightarrow> int \<Rightarrow> hook_codelet
    \<Rightarrow> hook_codelet list option option" where
  "build_codelets alloc_ok old nr pos hook_codelet =
    (if \<not> alloc_ok (nr + 2) then Some None
     else do {
       let new_codelets = replicate (nr + 2) zero_codelet;
       (p, arr) \<leftarrow> (case old of
           Some old_codelets \<Rightarrow>
             if pos < 0 then do {
               arr \<leftarrow> arr_copy new_codelets 0 old_codelets 0 nr;
               Some (nr, arr)
             } else do {
               arr1 \<leftarrow> arr_copy new_codelets 0 old_codelets 0 (nat pos);
               arr2 \<leftarrow> arr_copy arr1 (nat pos + 1) old_codelets (nat pos) (nr - nat pos);
               Some (nat pos, arr2)
             }
         | None \<Rightarrow> Some (0, new_codelets));
       arr3 \<leftarrow> arr_set arr p hook_codelet;
       last \<leftarrow> arr_get arr3 (nr + 1);
       arr4 \<leftarrow> arr_set arr3 (nr + 1) (last\<lparr>jbpf_codelet := 0\<rparr>);
       Some (Some arr4)
     })"

definition jbpf_register_codelet_hook ::
  "(nat \<Rightarrow> bool) \<Rightarrow> jbpf_hook \<Rightarrow> jit_fn \<Rightarrow> u64 \<Rightarrow> u32 \<Rightarrow> (int \<times> jbpf_hook) option" where
  "jbpf_register_codelet_hook alloc_ok hook codelet runtime_threshold p =
    (if codelet = 0 then Some (- 1, hook)
     else do {
       let hook_codelet = \<lparr> jbpf_codelet = codelet, prio = p, time_thresh = runtime_threshold \<rparr>;
       (exists, nr_codelets, pos) \<leftarrow> (case codelets hook of
           Some old_codelets \<Rightarrow> hook_scan old_codelets codelet p 0 (- 1)
         | None \<Rightarrow> Some (False, 0, - 1));
       if exists then Some (- 1, hook)
       else if codelets hook \<noteq> None \<and> hook_type hook = JBPF_HOOK_TYPE_CTRL \<and> nr_codelets > 0
         then Some (- 1, hook)
       else do {
         new_codelets \<leftarrow> build_codelets alloc_ok (codelets hook) nr_codelets pos hook_codelet;
         (case new_codelets of
           None \<Rightarrow> Some (- 1, hook)
         | Some arr \<Rightarrow> Some (0, hook\<lparr>codelets := Some arr\<rparr>))
       }
     })"

text \<open>The counting loop of the removal: entries passed, and how many of them are the codelet.\<close>

function count_codelets :: "hook_codelet list \<Rightarrow> jit_fn \<Rightarrow> nat \<Rightarrow> nat \<Rightarrow> (nat \<times> nat) option" where
  "count_codelets old codelet nr nr_rem =
    (if nr < length old then
       (if jbpf_codelet (old ! nr) = 0 then Some (nr, nr_rem)
        else count_codelets old codelet (Suc nr)
          (if jbpf_codelet (old ! nr) = codelet then Suc nr_rem else nr_rem))
     else None)"
  by pat_completeness auto
termination
  by (relation "measure (\<lambda>(old, c, nr, r). length old - nr)") auto

text \<open>The copying loop of the removal.\<close>

function copy_codelets ::
  "hook_codelet list \<Rightarrow> jit_fn \<Rightarrow> nat \<Rightarrow> nat \<Rightarrow> hook_codelet list \<Rightarrow> hook_codelet list option" where
  "copy_codelets old codelet i pos new =
    (if i < length old then
       (if jbpf_codelet (old ! i) = 0 then Some new
        else if jbpf_codelet (old ! i) \<noteq> codelet then
          (if pos < length new then copy_codelets old codelet (Suc i) (Suc pos) (new[pos := old ! i])
           else None)
        else copy_codelets old codelet (Suc i) pos new)
     else None)"
  by pat_completeness auto
termination
  by (relation "measure (\<lambda>(old, c, i, pos, new). length old - i)") auto

declare count_codelets.simps [simp del] copy_codelets.simps [simp del]

definition jbpf_remove_codelet_hook ::
  "(nat \<Rightarrow> bool) \<Rightarrow> jbpf_hook \<Rightarrow> jit_fn \<Rightarrow> (int \<times> jbpf_hook) option" where
  "jbpf_remove_codelet_hook alloc_ok hook codelet =
    (case codelets hook of
       None \<Rightarrow> Some (- 1, hook)
     | Some old_codelets \<Rightarrow> do {
         (nr_codelets, nr_rem) \<leftarrow> count_codelets old_codelets codelet 0 0;
         if nr_rem = 0 then Some (- 1, hook)
         else if nr_codelets - nr_rem = 0 then Some (0, hook\<lparr>codelets := None\<rparr>)
         else if \<not> alloc_ok (nr_codelets - nr_rem + 1) then Some (- 1, hook)
         else do {
           arr1 \<leftarrow> copy_codelets old_codelets codelet 0 0
             (replicate (nr_codelets - nr_rem + 1) zero_codelet);
           last \<leftarrow> arr_get arr1 (nr_codelets - nr_rem);
           arr2 \<leftarrow> arr_set arr1 (nr_codelets - nr_rem) (last\<lparr>jbpf_codelet := 0\<rparr>);
           Some (0, hook\<lparr>codelets := Some arr2\<rparr>)
         }
       })"

section \<open>Calling a hook\<close>

text \<open>\<open>run_codelets\<close> is the loop of \<open>__RUN_JBPF_HOOK\<close>: from index \<open>i\<close> on, each codelet is called
  with its runtime threshold in force, until the entry after it is the terminator.  The
  parameter \<open>call\<close> is what a compiled codelet does to the state when it is called.\<close>

function run_codelets ::
  "(jit_fn \<Rightarrow> u64 \<Rightarrow> 's \<Rightarrow> 's) \<Rightarrow> hook_codelet list \<Rightarrow> nat \<Rightarrow> 's \<Rightarrow> 's option" where
  "run_codelets call arr i s =
    (if i < length arr then
       (let s' = call (jbpf_codelet (arr ! i)) (time_thresh (arr ! i)) s in
        if Suc i < length arr then
          (if jbpf_codelet (arr ! Suc i) \<noteq> 0 then run_codelets call arr (Suc i) s' else Some s')
        else None)
     else None)"
  by pat_completeness auto
termination
  by (relation "measure (\<lambda>(c, arr, i, s). length arr - i)") auto

declare run_codelets.simps [simp del]

definition run_hook :: "(jit_fn \<Rightarrow> u64 \<Rightarrow> 's \<Rightarrow> 's) \<Rightarrow> jbpf_hook \<Rightarrow> 's \<Rightarrow> 's option" where
  "run_hook call hook s =
    (case codelets hook of None \<Rightarrow> Some s | Some arr \<Rightarrow> run_codelets call arr 0 s)"

definition JBPF_DEFAULT_CTRL_OP :: u64 where
  "JBPF_DEFAULT_CTRL_OP = 0"

definition run_ctrl_hook ::
  "(jit_fn \<Rightarrow> u64 \<Rightarrow> 's \<Rightarrow> u64 \<times> 's) \<Rightarrow> jbpf_hook \<Rightarrow> 's \<Rightarrow> (u64 \<times> 's) option" where
  "run_ctrl_hook call hook s =
    (case codelets hook of
       None \<Rightarrow> Some (JBPF_DEFAULT_CTRL_OP, s)
     | Some arr \<Rightarrow> do { c \<leftarrow> arr_get arr 0; Some (call (jbpf_codelet c) (time_thresh c) s) })"

section \<open>The chain of codelets\<close>

definition chain_array :: "hook_codelet list \<Rightarrow> hook_codelet list \<Rightarrow> bool" where
  "chain_array arr cs = (\<exists>t. arr = cs @ [t] \<and> jbpf_codelet t = 0 \<and> (\<forall>c\<in>set cs. jbpf_codelet c \<noteq> 0))"

definition hook_chain :: "jbpf_hook \<Rightarrow> hook_codelet list" where
  "hook_chain h = (case codelets h of None \<Rightarrow> [] | Some arr \<Rightarrow> butlast arr)"

text \<open>The invariant of a hook: the array, if there is one, is a non-empty chain and its
  terminator, in descending order of priority, without duplicates, and of one codelet only for a
  control hook.\<close>

definition hook_wf :: "jbpf_hook \<Rightarrow> bool" where
  "hook_wf h = ((\<forall>arr. codelets h = Some arr \<longrightarrow> hook_chain h \<noteq> [] \<and> chain_array arr (hook_chain h))
     \<and> sorted_wrt (\<ge>) (map prio (hook_chain h))
     \<and> distinct (map jbpf_codelet (hook_chain h))
     \<and> (hook_type h = JBPF_HOOK_TYPE_CTRL \<longrightarrow> length (hook_chain h) \<le> 1))"

text \<open>The place of a new codelet: behind all those of at least its priority.\<close>

definition insert_prio :: "hook_codelet \<Rightarrow> hook_codelet list \<Rightarrow> hook_codelet list" where
  "insert_prio c cs = takeWhile (\<lambda>d. prio c \<le> prio d) cs @ c # dropWhile (\<lambda>d. prio c \<le> prio d) cs"

section \<open>Correctness of the array operations\<close>

lemma hook_scan_chain:
  assumes "\<forall>c\<in>set cs. jbpf_codelet c \<noteq> 0" "jbpf_codelet t = 0" "nr \<le> length cs"
  shows "(codelet \<in> jbpf_codelet ` set (drop nr cs) \<longrightarrow>
      (\<exists>n q. hook_scan (cs @ [t]) codelet p nr pos = Some (True, n, q)))
    \<and> (codelet \<notin> jbpf_codelet ` set (drop nr cs) \<longrightarrow>
      hook_scan (cs @ [t]) codelet p nr pos = Some (False, length cs,
        if pos < 0 \<and> (\<exists>d\<in>set (drop nr cs). prio d < p)
        then int (nr + length (takeWhile (\<lambda>d. p \<le> prio d) (drop nr cs))) else pos))"
  using assms(3)
proof (induction "length cs - nr" arbitrary: nr pos)
  case 0
  then show ?case using assms(2) by (subst (1 2) hook_scan.simps) (simp add: nth_append)
next
  case (Suc k)
  then have lt: "nr < length cs" by simp
  have nz: "jbpf_codelet (cs ! nr) \<noteq> 0" using assms(1) lt by simp
  have dr: "drop nr cs = cs ! nr # drop (Suc nr) cs" using lt by (simp add: Cons_nth_drop_Suc)
  let ?pos = "if pos < 0 \<and> prio (cs ! nr) < p then int nr else pos"
  have step: "hook_scan (cs @ [t]) codelet p nr pos =
      (if jbpf_codelet (cs ! nr) = codelet then Some (True, nr, ?pos)
       else hook_scan (cs @ [t]) codelet p (Suc nr) ?pos)"
    using lt nz by (subst hook_scan.simps) (simp add: nth_append Let_def)
  have "k = length cs - Suc nr" "Suc nr \<le> length cs" using Suc.hyps(2) lt by simp_all
  note IH = Suc.hyps(1) [OF this, of ?pos]
  show ?case
  proof (cases "jbpf_codelet (cs ! nr) = codelet")
    case True
    then show ?thesis unfolding step dr by simp
  next
    case False
    have ne: "(codelet = jbpf_codelet (cs ! nr)) = False" using False by simp
    show ?thesis
    proof (cases "pos < 0 \<and> prio (cs ! nr) < p")
      case True
      then have "\<not> p \<le> prio (cs ! nr)" by (simp add: not_le)
      then show ?thesis
        using IH False True unfolding step dr by (simp add: ne)
    next
      case nl: False
      show ?thesis
      proof (cases "pos < 0")
        case True
        then have "p \<le> prio (cs ! nr)" "\<not> prio (cs ! nr) < p" using nl by auto
        then show ?thesis
          using IH False True unfolding step dr by (simp add: ne)
      next
        case pos: False
        then show ?thesis
          using IH False unfolding step dr by (simp add: ne)
      qed
    qed
  qed
qed

lemma replicate_plus_two: "replicate (n + 2) z = replicate n z @ [z, z]"
  by (induction n) simp_all

lemma build_codelets_chain:
  assumes "chain_array arr cs" "alloc_ok (length cs + 2)" "k \<le> length cs"
    and "pos = int k \<or> pos < 0 \<and> k = length cs"
  shows "build_codelets alloc_ok (Some arr) (length cs) pos c =
    Some (Some (take k cs @ c # drop k cs @ [zero_codelet]))"
proof -
  obtain t where arr: "arr = cs @ [t]" using assms(1) by (auto simp: chain_array_def)
  let ?z = zero_codelet
  have z: "?z\<lparr>jbpf_codelet := 0\<rparr> = ?z" by (simp add: zero_codelet_def)
  let ?f = "take k cs @ ?z # drop k cs @ [?z]"
  have len: "length ?f = length cs + 2" using assms(3) by simp
  have upd: "?f[k := c] = take k cs @ c # drop k cs @ [?z]"
    using assms(3) by (simp add: list_update_append)
  have last: "(take k cs @ c # drop k cs @ [?z]) ! (length cs + 1) = ?z"
    using assms(3) by (simp add: nth_append nth_Cons')
  have "(take k cs @ c # drop k cs @ [?z])[length cs + 1 := ?z] = take k cs @ c # drop k cs @ [?z]"
    using list_update_id [of "take k cs @ c # drop k cs @ [?z]" "length cs + 1"] by (simp only: last)
  then have fin: "do { arr3 \<leftarrow> arr_set ?f k c; l \<leftarrow> arr_get arr3 (length cs + 1);
      arr4 \<leftarrow> arr_set arr3 (length cs + 1) (l\<lparr>jbpf_codelet := 0\<rparr>); Some (Some arr4) }
    = Some (Some (take k cs @ c # drop k cs @ [?z]))"
    using len upd last z assms(3) by (simp del: append_Cons)
  show ?thesis
  proof (cases "pos < 0")
    case True
    then have k: "k = length cs" using assms(4) by simp
    have "arr_copy (replicate (length cs + 2) ?z) 0 arr 0 (length cs) = Some ?f"
      unfolding replicate_plus_two by (simp add: arr_copy_in arr k)
    then show ?thesis
      using True assms(2) fin k by (simp add: build_codelets_def)
  next
    case False
    then have pos: "pos = int k" using assms(4) by simp
    have 1: "arr_copy (replicate n ?z) 0 arr 0 k = Some (take k cs @ replicate (n - k) ?z)"
      if "k \<le> n" for n
      using that assms(3) by (simp add: arr_copy_in arr)
    have "replicate (length cs + 2 - k) ?z = ?z # replicate (length cs - k) ?z @ [?z]"
      using assms(3) by (simp add: Suc_diff_le replicate_append_same)
    then have "arr_copy (take k cs @ replicate (length cs + 2 - k) ?z) (k + 1) arr k (length cs - k)
        = Some ?f"
      using assms(3) by (simp add: arr_copy_in arr Suc_diff_le)
    then show ?thesis
      using False pos 1 [of "length cs + 2"] assms(2,3) fin
      by (simp add: build_codelets_def del: replicate_Suc)
  qed
qed

lemma count_codelets_chain:
  assumes "\<forall>c\<in>set cs. jbpf_codelet c \<noteq> 0" "jbpf_codelet t = 0" "nr \<le> length cs"
  shows "count_codelets (cs @ [t]) codelet nr r =
    Some (length cs, r + length (filter (\<lambda>c. jbpf_codelet c = codelet) (drop nr cs)))"
  using assms(3)
proof (induction "length cs - nr" arbitrary: nr r)
  case 0
  then show ?case using assms(2) by (subst count_codelets.simps) (simp add: nth_append)
next
  case (Suc k)
  then have lt: "nr < length cs" by simp
  have nz: "jbpf_codelet (cs ! nr) \<noteq> 0" using assms(1) lt by simp
  have dr: "drop nr cs = cs ! nr # drop (Suc nr) cs" using lt by (simp add: Cons_nth_drop_Suc)
  have "k = length cs - Suc nr" "Suc nr \<le> length cs" using Suc.hyps(2) lt by simp_all
  note IH = Suc.hyps(1) [OF this]
  show ?case
    using lt nz IH by (subst count_codelets.simps) (simp add: nth_append dr)
qed

lemma copy_codelets_chain:
  assumes "\<forall>c\<in>set cs. jbpf_codelet c \<noteq> 0" "jbpf_codelet t = 0" "i \<le> length cs"
    and "length zs = length (filter (\<lambda>c. jbpf_codelet c \<noteq> codelet) (drop i cs)) + 1"
    and "length done = pos"
  shows "copy_codelets (cs @ [t]) codelet i pos (done @ zs) =
    Some (done @ filter (\<lambda>c. jbpf_codelet c \<noteq> codelet) (drop i cs) @ [last zs])"
  using assms(3-5)
proof (induction "length cs - i" arbitrary: i pos "done" zs)
  case 0
  then obtain z where "zs = [z]" by (auto simp: length_Suc_conv)
  then show ?case using 0 assms(2) by (subst copy_codelets.simps) (simp add: nth_append)
next
  case (Suc k)
  then have lt: "i < length cs" by simp
  have nz: "jbpf_codelet (cs ! i) \<noteq> 0" using assms(1) lt by simp
  have dr: "drop i cs = cs ! i # drop (Suc i) cs" using lt by (simp add: Cons_nth_drop_Suc)
  have k: "k = length cs - Suc i" "Suc i \<le> length cs" using Suc.hyps(2) lt by simp_all
  show ?case
  proof (cases "jbpf_codelet (cs ! i) = codelet")
    case True
    then show ?thesis
      using Suc.hyps(1) [OF k, of zs "done" pos] Suc.prems lt nz dr
      by (subst copy_codelets.simps) (simp add: nth_append)
  next
    case False
    then obtain y ys where zs: "zs = y # ys"
      using Suc.prems(2) dr by (cases zs) auto
    then have "length ys = length (filter (\<lambda>c. jbpf_codelet c \<noteq> codelet) (drop (Suc i) cs)) + 1"
      using Suc.prems(2) False dr by simp
    then have "ys \<noteq> []" by auto
    have upd: "(done @ zs)[pos := cs ! i] = (done @ [cs ! i]) @ ys"
      using Suc.prems(3) zs by (simp add: list_update_append)
    show ?thesis
      using Suc.hyps(1) [OF k, of ys "done @ [cs ! i]" "Suc pos"] Suc.prems lt nz dr False zs upd \<open>ys \<noteq> []\<close>
      by (subst copy_codelets.simps) (simp add: nth_append)
  qed
qed

lemma run_codelets_chain:
  assumes "\<forall>c\<in>set cs. jbpf_codelet c \<noteq> 0" "jbpf_codelet t = 0" "i < length cs"
  shows "run_codelets call (cs @ [t]) i s =
    Some (fold (\<lambda>c. call (jbpf_codelet c) (time_thresh c)) (drop i cs) s)"
  using assms(3)
proof (induction "length cs - i" arbitrary: i s)
  case (Suc k)
  then have lt: "i < length cs" by simp
  have dr: "drop i cs = cs ! i # drop (Suc i) cs" using lt by (simp add: Cons_nth_drop_Suc)
  show ?case
  proof (cases "Suc i < length cs")
    case True
    then have "jbpf_codelet (cs ! Suc i) \<noteq> 0" using assms(1) by simp
    moreover have "k = length cs - Suc i" using Suc.hyps(2) lt by simp
    note IH = Suc.hyps(1) [OF this True]
    ultimately show ?thesis
      using lt True IH by (subst run_codelets.simps) (simp add: nth_append dr Let_def)
  next
    case False
    then have "Suc i = length cs" using lt by simp
    then show ?thesis
      using lt assms(2) by (subst run_codelets.simps) (simp add: nth_append dr Let_def)
  qed
qed simp

lemma hook_wfE:
  assumes "hook_wf h"
  obtains (empty) "codelets h = None" "hook_chain h = []"
  | (arr) t where "codelets h = Some (hook_chain h @ [t])" "jbpf_codelet t = 0" "hook_chain h \<noteq> []"
      "\<forall>c\<in>set (hook_chain h). jbpf_codelet c \<noteq> 0"
proof (cases "codelets h")
  case None
  then show thesis by (intro empty) (simp_all add: hook_chain_def)
next
  case (Some a)
  then have "chain_array a (hook_chain h)" "hook_chain h \<noteq> []"
    using assms by (auto simp: hook_wf_def)
  then show thesis using Some arr by (auto simp: chain_array_def)
qed

lemma hook_wf_chain:
  assumes "hook_wf h"
  shows "sorted_wrt (\<ge>) (map prio (hook_chain h))" "distinct (map jbpf_codelet (hook_chain h))"
    "\<forall>c\<in>set (hook_chain h). jbpf_codelet c \<noteq> 0"
    "hook_type h = JBPF_HOOK_TYPE_CTRL \<Longrightarrow> length (hook_chain h) \<le> 1"
proof -
  show "\<forall>c\<in>set (hook_chain h). jbpf_codelet c \<noteq> 0"
    using assms by (cases rule: hook_wfE) simp_all
qed (use assms in \<open>simp_all add: hook_wf_def\<close>)

lemma hook_wfI:
  assumes "cs \<noteq> []" "jbpf_codelet t = 0" "\<forall>c\<in>set cs. jbpf_codelet c \<noteq> 0"
    "sorted_wrt (\<ge>) (map prio cs)" "distinct (map jbpf_codelet cs)"
    "hook_type h = JBPF_HOOK_TYPE_CTRL \<Longrightarrow> length cs \<le> 1"
  shows "hook_wf (h\<lparr>codelets := Some (cs @ [t])\<rparr>)"
  using assms by (simp add: hook_wf_def hook_chain_def chain_array_def)

lemma insert_prio_Cons:
  "insert_prio c [] = [c]"
  "insert_prio c (d # cs) = (if prio c \<le> prio d then d # insert_prio c cs else c # d # cs)"
  by (simp_all add: insert_prio_def)

lemma set_insert_prio [simp]: "set (insert_prio c cs) = insert c (set cs)"
  by (induction cs) (auto simp: insert_prio_Cons)

lemma length_insert_prio [simp]: "length (insert_prio c cs) = Suc (length cs)"
  by (induction cs) (auto simp: insert_prio_Cons)

lemma sorted_insert_prio:
  "sorted_wrt (\<ge>) (map prio cs) \<Longrightarrow> sorted_wrt (\<ge>) (map prio (insert_prio c cs))"
  by (induction cs) (auto simp: insert_prio_Cons)

lemma distinct_insert_prio:
  "distinct (map jbpf_codelet cs) \<Longrightarrow> jbpf_codelet c \<notin> jbpf_codelet ` set cs \<Longrightarrow>
    distinct (map jbpf_codelet (insert_prio c cs))"
  by (induction cs) (auto simp: insert_prio_Cons)

lemma filter_insert_prio:
  "\<not> P c \<Longrightarrow> filter P (insert_prio c cs) = filter P cs"
  by (induction cs) (auto simp: insert_prio_Cons)

lemma insert_prio_position:
  "insert_prio c cs = take k cs @ c # drop k cs"
  if "k = length (takeWhile (\<lambda>d. prio c \<le> prio d) cs)"
  using that by (simp add: insert_prio_def takeWhile_eq_take [symmetric] dropWhile_eq_drop)

text \<open>The three reasons to refuse a registration that are the caller's: no codelet, a codelet that
  is registered already, a second codelet on a control hook.\<close>

definition register_refused :: "jbpf_hook \<Rightarrow> jit_fn \<Rightarrow> bool" where
  "register_refused h codelet = (codelet = 0 \<or> codelet \<in> jbpf_codelet ` set (hook_chain h)
     \<or> hook_type h = JBPF_HOOK_TYPE_CTRL \<and> hook_chain h \<noteq> [])"

lemma register_refused_result:
  assumes "hook_wf h" "register_refused h codelet"
  shows "jbpf_register_codelet_hook alloc_ok h codelet th p = Some (- 1, h)"
proof (cases "codelet = 0")
  case True
  then show ?thesis by (simp add: jbpf_register_codelet_hook_def)
next
  case nz: False
  then have ne: "hook_chain h \<noteq> []" using assms(2) by (auto simp: register_refused_def)
  from assms(1) obtain t where t: "codelets h = Some (hook_chain h @ [t])" "jbpf_codelet t = 0"
      "\<forall>c\<in>set (hook_chain h). jbpf_codelet c \<noteq> 0"
    using ne by (cases rule: hook_wfE) auto
  note scan = hook_scan_chain [OF t(3,2), of 0 codelet p "- 1", simplified]
  show ?thesis
  proof (cases "codelet \<in> jbpf_codelet ` set (hook_chain h)")
    case True
    then obtain n q where "hook_scan (hook_chain h @ [t]) codelet p 0 (- 1) = Some (True, n, q)"
      using scan by blast
    then show ?thesis using nz t(1) by (simp add: jbpf_register_codelet_hook_def)
  next
    case False
    then have "hook_type h = JBPF_HOOK_TYPE_CTRL" using assms(2) nz by (auto simp: register_refused_def)
    then show ?thesis using False scan nz ne t(1) by (simp add: jbpf_register_codelet_hook_def)
  qed
qed

lemma register_accepted_result:
  assumes wf: "hook_wf h" and acc: "\<not> register_refused h codelet"
  shows "jbpf_register_codelet_hook alloc_ok h codelet th p =
    (if alloc_ok (length (hook_chain h) + 2)
     then Some (0, h\<lparr>codelets := Some (insert_prio \<lparr> jbpf_codelet = codelet, prio = p, time_thresh = th \<rparr>
       (hook_chain h) @ [zero_codelet])\<rparr>)
     else Some (- 1, h))"
proof -
  let ?c = "\<lparr> jbpf_codelet = codelet, prio = p, time_thresh = th \<rparr>"
  have nz: "codelet \<noteq> 0" and new: "codelet \<notin> jbpf_codelet ` set (hook_chain h)"
    and ctrl: "\<not> (hook_type h = JBPF_HOOK_TYPE_CTRL \<and> hook_chain h \<noteq> [])"
    using acc by (auto simp: register_refused_def)
  from wf show ?thesis
  proof (cases rule: hook_wfE)
    case empty
    then show ?thesis using nz
      by (simp add: jbpf_register_codelet_hook_def build_codelets_def insert_prio_def
        zero_codelet_def numeral_2_eq_2)
  next
    case (arr t)
    let ?cs = "hook_chain h"
    let ?pos = "if \<exists>d\<in>set ?cs. prio d < p then int (length (takeWhile (\<lambda>d. p \<le> prio d) ?cs)) else - 1"
    define k where "k = length (takeWhile (\<lambda>d. p \<le> prio d) ?cs)"
    have scan: "hook_scan (?cs @ [t]) codelet p 0 (- 1) = Some (False, length ?cs, ?pos)"
      using hook_scan_chain [OF arr(4,2), of 0 codelet p "- 1"] new by simp
    have "k = length ?cs" if "\<not> (\<exists>d\<in>set ?cs. prio d < p)"
    proof -
      have "\<forall>d\<in>set ?cs. p \<le> prio d" using that by (simp add: not_less)
      then have "takeWhile (\<lambda>d. p \<le> prio d) ?cs = ?cs" by simp
      then show ?thesis by (simp only: k_def)
    qed
    then have k: "k \<le> length ?cs" "?pos = int k \<or> ?pos < 0 \<and> k = length ?cs"
      by (simp_all add: k_def length_takeWhile_le)
    have ca: "chain_array (?cs @ [t]) ?cs" using arr by (simp add: chain_array_def)
    show ?thesis
    proof (cases "alloc_ok (length ?cs + 2)")
      case True
      have "build_codelets alloc_ok (Some (?cs @ [t])) (length ?cs) ?pos ?c
          = Some (Some (insert_prio ?c ?cs @ [zero_codelet]))"
        using build_codelets_chain [of "?cs @ [t]" ?cs alloc_ok k ?pos ?c, OF ca True k] insert_prio_position [of k ?c ?cs]
        by (simp add: k_def)
      then show ?thesis
        using True nz scan ctrl arr(1,3) by (auto simp: jbpf_register_codelet_hook_def)
    next
      case False
      then have "build_codelets alloc_ok (Some (?cs @ [t])) (length ?cs) ?pos ?c = Some None"
        by (simp add: build_codelets_def)
      then show ?thesis
        using False nz scan ctrl arr(1,3) by (auto simp: jbpf_register_codelet_hook_def)
    qed
  qed
qed

lemma register_accepted_wf:
  assumes wf: "hook_wf h" and acc: "\<not> register_refused h codelet"
    and c: "c = \<lparr> jbpf_codelet = codelet, prio = p, time_thresh = th \<rparr>"
  shows "hook_wf (h\<lparr>codelets := Some (insert_prio c (hook_chain h) @ [zero_codelet])\<rparr>)"
proof (rule hook_wfI)
  note ch = hook_wf_chain [OF wf]
  show "insert_prio c (hook_chain h) \<noteq> []" by (simp add: insert_prio_def)
  show "jbpf_codelet zero_codelet = 0" by (simp add: zero_codelet_def)
  show "\<forall>d\<in>set (insert_prio c (hook_chain h)). jbpf_codelet d \<noteq> 0"
    using ch(3) acc c by (auto simp: register_refused_def)
  show "sorted_wrt (\<ge>) (map prio (insert_prio c (hook_chain h)))"
    by (rule sorted_insert_prio [OF ch(1)])
  show "distinct (map jbpf_codelet (insert_prio c (hook_chain h)))"
    using acc c by (intro distinct_insert_prio [OF ch(2)]) (auto simp: register_refused_def)
  show "hook_type h = JBPF_HOOK_TYPE_CTRL \<Longrightarrow> length (insert_prio c (hook_chain h)) \<le> 1"
    using acc by (auto simp: register_refused_def)
qed

lemma remove_result:
  fixes codelet :: jit_fn
  assumes wf: "hook_wf h"
  defines "rest \<equiv> filter (\<lambda>c. jbpf_codelet c \<noteq> codelet) (hook_chain h)"
  shows "jbpf_remove_codelet_hook alloc_ok h codelet =
    (if codelet \<notin> jbpf_codelet ` set (hook_chain h) then Some (- 1, h)
     else if rest = [] then Some (0, h\<lparr>codelets := None\<rparr>)
     else if alloc_ok (length rest + 1) then Some (0, h\<lparr>codelets := Some (rest @ [zero_codelet])\<rparr>)
     else Some (- 1, h))"
proof (cases rule: hook_wfE [OF wf])
  case 1
  then show ?thesis by (simp add: jbpf_remove_codelet_hook_def)
next
  case (2 t)
  let ?cs = "hook_chain h"
  have cnt: "count_codelets (?cs @ [t]) codelet 0 0
      = Some (length ?cs, length (filter (\<lambda>c. jbpf_codelet c = codelet) ?cs))"
    using count_codelets_chain [OF 2(4,2), of 0] by simp
  have len: "length ?cs - length (filter (\<lambda>c. jbpf_codelet c = codelet) ?cs) = length rest"
    using sum_length_filter_compl [of "\<lambda>c. jbpf_codelet c = codelet" ?cs] by (simp add: rest_def)
  have none: "length (filter (\<lambda>c. jbpf_codelet c = codelet) ?cs) = 0
      \<longleftrightarrow> codelet \<notin> jbpf_codelet ` set ?cs"
    by (auto simp: filter_empty_conv)
  have cp: "copy_codelets (?cs @ [t]) codelet 0 0 (replicate (length rest + 1) zero_codelet)
      = Some (rest @ [zero_codelet])"
    using copy_codelets_chain [OF 2(4,2), of 0 "replicate (length rest + 1) zero_codelet" codelet "[]" 0]
    by (simp add: rest_def del: replicate_Suc)
  have z: "zero_codelet\<lparr>jbpf_codelet := 0\<rparr> = zero_codelet" by (simp add: zero_codelet_def)
  show ?thesis
    using 2(1) cnt cp none z
    by (auto simp: jbpf_remove_codelet_hook_def len nth_append list_update_append simp del: replicate_Suc)
qed

lemma remove_wf:
  assumes wf: "hook_wf h" and ne: "filter P (hook_chain h) \<noteq> []"
  shows "hook_wf (h\<lparr>codelets := Some (filter P (hook_chain h) @ [zero_codelet])\<rparr>)"
proof (rule hook_wfI)
  note ch = hook_wf_chain [OF wf]
  show "filter P (hook_chain h) \<noteq> []" by (rule ne)
  show "jbpf_codelet zero_codelet = 0" by (simp add: zero_codelet_def)
  show "\<forall>d\<in>set (filter P (hook_chain h)). jbpf_codelet d \<noteq> 0" using ch(3) by simp
  show "sorted_wrt (\<ge>) (map prio (filter P (hook_chain h)))"
    using ch(1) by (simp add: sorted_wrt_map sorted_wrt_filter)
  show "distinct (map jbpf_codelet (filter P (hook_chain h)))"
    using ch(2) by (simp add: distinct_map_filter)
  show "hook_type h = JBPF_HOOK_TYPE_CTRL \<Longrightarrow> length (filter P (hook_chain h)) \<le> 1"
    using ch(4) length_filter_le [of P "hook_chain h"] by linarith
qed

section \<open>The contract of a hook\<close>

text \<open>What the loader of codelets relies on: a registration is refused without effect or inserts
  the codelet by priority, a removal takes out exactly the codelet, both may fail for want of
  memory without effect, and neither ever faults.\<close>

locale codelet_chain =
  fixes wf :: "'h \<Rightarrow> bool"
    and chain :: "'h \<Rightarrow> hook_codelet list"
    and refused :: "'h \<Rightarrow> jit_fn \<Rightarrow> bool"
    and register :: "(nat \<Rightarrow> bool) \<Rightarrow> 'h \<Rightarrow> jit_fn \<Rightarrow> u64 \<Rightarrow> u32 \<Rightarrow> (int \<times> 'h) option"
    and remove :: "(nat \<Rightarrow> bool) \<Rightarrow> 'h \<Rightarrow> jit_fn \<Rightarrow> (int \<times> 'h) option"
  assumes register_no: "wf h \<Longrightarrow> refused h f \<Longrightarrow> register a h f th p = Some (- 1, h)"
    and register_nomem: "wf h \<Longrightarrow> \<not> refused h f \<Longrightarrow> \<not> a (length (chain h) + 2) \<Longrightarrow>
      register a h f th p = Some (- 1, h)"
    and register_yes: "wf h \<Longrightarrow> \<not> refused h f \<Longrightarrow> a (length (chain h) + 2) \<Longrightarrow>
      \<exists>h'. register a h f th p = Some (0, h') \<and> wf h'
        \<and> chain h' = insert_prio \<lparr> jbpf_codelet = f, prio = p, time_thresh = th \<rparr> (chain h)"
    and remove_absent: "wf h \<Longrightarrow> f \<notin> jbpf_codelet ` set (chain h) \<Longrightarrow> remove a h f = Some (- 1, h)"
    and remove_nomem: "wf h \<Longrightarrow> f \<in> jbpf_codelet ` set (chain h) \<Longrightarrow>
      filter (\<lambda>c. jbpf_codelet c \<noteq> f) (chain h) \<noteq> [] \<Longrightarrow>
      \<not> a (length (filter (\<lambda>c. jbpf_codelet c \<noteq> f) (chain h)) + 1) \<Longrightarrow> remove a h f = Some (- 1, h)"
    and remove_present: "wf h \<Longrightarrow> f \<in> jbpf_codelet ` set (chain h) \<Longrightarrow>
      filter (\<lambda>c. jbpf_codelet c \<noteq> f) (chain h) = []
        \<or> a (length (filter (\<lambda>c. jbpf_codelet c \<noteq> f) (chain h)) + 1) \<Longrightarrow>
      \<exists>h'. remove a h f = Some (0, h') \<and> wf h'
        \<and> chain h' = filter (\<lambda>c. jbpf_codelet c \<noteq> f) (chain h)"
    and refused_present: "f = 0 \<or> f \<in> jbpf_codelet ` set (chain h) \<Longrightarrow> refused h f"
begin

lemma register_total:
  assumes "wf h"
  obtains r h' where "register a h f th p = Some (r, h')" "wf h'" "r = 0 \<or> r = - 1 \<and> h' = h"
    "f \<in> jbpf_codelet ` set (chain h) \<Longrightarrow> r = - 1" "f = 0 \<Longrightarrow> r = - 1"
    "r = 0 \<Longrightarrow> chain h' = insert_prio \<lparr> jbpf_codelet = f, prio = p, time_thresh = th \<rparr> (chain h)"
proof (cases "refused h f")
  case True
  then show thesis using assms register_no that [of "- 1" h] by simp
next
  case False
  then have no: "f \<notin> jbpf_codelet ` set (chain h)" "f \<noteq> 0"
    using refused_present [of f h] by metis+
  show thesis
  proof (cases "a (length (chain h) + 2)")
    case True
    then obtain h' where "register a h f th p = Some (0, h')" "wf h'"
        "chain h' = insert_prio \<lparr> jbpf_codelet = f, prio = p, time_thresh = th \<rparr> (chain h)"
      using register_yes [OF assms False] by blast
    then show thesis using that [of 0 h'] no by simp
  next
    case nomem: False
    then show thesis using register_nomem [of h f a, OF assms False nomem] assms that [of "- 1" h] no by simp
  qed
qed

lemma remove_total:
  assumes "wf h"
  obtains r h' where "remove a h f = Some (r, h')" "wf h'" "r = 0 \<or> r = - 1 \<and> h' = h"
    "r = 0 \<Longrightarrow> chain h' = filter (\<lambda>c. jbpf_codelet c \<noteq> f) (chain h)"
    "r = 0 \<Longrightarrow> f \<in> jbpf_codelet ` set (chain h)"
proof (cases "f \<in> jbpf_codelet ` set (chain h)")
  case False
  then show thesis using assms remove_absent that [of "- 1" h] by simp
next
  case True
  let ?rest = "filter (\<lambda>c. jbpf_codelet c \<noteq> f) (chain h)"
  show thesis
  proof (cases "?rest = [] \<or> a (length ?rest + 1)")
    case ok: True
    then obtain h' where "remove a h f = Some (0, h')" "wf h'" "chain h' = ?rest"
      using remove_present [OF assms True] by blast
    then show thesis using that [of 0 h'] True by simp
  next
    case False
    then have "remove a h f = Some (- 1, h)"
      using remove_nomem [OF assms True, of a] by simp
    then show thesis using that [of "- 1" h] assms by simp
  qed
qed

lemma register_remove_chain:
  assumes wf: "wf h" and reg: "register a h f th p = Some (0, h')"
    and mem: "b (length (chain h) + 1)"
  obtains h'' where "remove b h' f = Some (0, h'')" "wf h''" "chain h'' = chain h"
proof -
  let ?c = "\<lparr> jbpf_codelet = f, prio = p, time_thresh = th \<rparr>"
  obtain r h1 where h1: "register a h f th p = Some (r, h1)" "wf h1"
      "f \<in> jbpf_codelet ` set (chain h) \<Longrightarrow> r = - 1" "r = 0 \<Longrightarrow> chain h1 = insert_prio ?c (chain h)"
    by (rule register_total [OF wf, where f = f and p = p and th = th and a = a]) blast
  then have wf': "wf h'" and ch: "chain h' = insert_prio ?c (chain h)"
    and new: "f \<notin> jbpf_codelet ` set (chain h)"
    using reg by auto
  have "filter (\<lambda>c. jbpf_codelet c \<noteq> f) (insert_prio ?c (chain h)) = filter (\<lambda>c. jbpf_codelet c \<noteq> f) (chain h)"
    by (rule filter_insert_prio) simp
  also have "\<dots> = chain h"
    using new by (auto simp: filter_id_conv)
  finally have rest: "filter (\<lambda>c. jbpf_codelet c \<noteq> f) (chain h') = chain h" by (simp add: ch)
  have "f \<in> jbpf_codelet ` set (chain h')" by (simp add: ch)
  from remove_present [OF wf' this, unfolded rest, of b] mem
  obtain h'' where "remove b h' f = Some (0, h'')" "wf h''" "chain h'' = chain h" by blast
  then show thesis by (rule that)
qed

end

lemma hook_chain_codelets [simp]:
  "hook_chain (h\<lparr>codelets := Some (cs @ [t])\<rparr>) = cs"
  "hook_chain (h\<lparr>codelets := None\<rparr>) = []"
  by (simp_all add: hook_chain_def)

lemma hook_wf_none [simp]: "hook_wf (h\<lparr>codelets := None\<rparr>)"
  by (simp add: hook_wf_def)

interpretation hk: codelet_chain hook_wf hook_chain register_refused
  jbpf_register_codelet_hook jbpf_remove_codelet_hook
proof (unfold_locales, goal_cases)
  case (1 h f a th p)
  then show ?case by (rule register_refused_result)
next
  case (2 h f a th p)
  then show ?case by (simp add: register_accepted_result)
next
  case (3 h f a th p)
  then show ?case
    using register_accepted_wf [OF 3(1,2) refl] by (simp add: register_accepted_result)
next
  case (4 h f a)
  then show ?case by (simp add: remove_result)
next
  case (5 h f a)
  then show ?case by (simp add: remove_result)
next
  case (6 h f a)
  then show ?case
    using remove_wf [OF 6(1), of "\<lambda>c. jbpf_codelet c \<noteq> f"] by (auto simp: remove_result)
next
  case (7 f h)
  then show ?case by (auto simp: register_refused_def)
qed

section \<open>Histories of a hook\<close>

text \<open>A history of registrations and removals on one hook; each operation carries the answers of
  the allocator at its time.\<close>

datatype hook_op =
    Reg "nat \<Rightarrow> bool" jit_fn u64 u32
  | Rem "nat \<Rightarrow> bool" jit_fn

fun run_hook_ops :: "hook_op list \<Rightarrow> jbpf_hook \<Rightarrow> jbpf_hook option" where
  "run_hook_ops [] h = Some h"
| "run_hook_ops (Reg a f th p # ops) h =
     do { (_, h') \<leftarrow> jbpf_register_codelet_hook a h f th p; run_hook_ops ops h' }"
| "run_hook_ops (Rem a f # ops) h =
     do { (_, h') \<leftarrow> jbpf_remove_codelet_hook a h f; run_hook_ops ops h' }"

lemma run_hook_ops_wf:
  "hook_wf h \<Longrightarrow> \<exists>h'. run_hook_ops ops h = Some h' \<and> hook_wf h'"
proof (induction ops arbitrary: h)
  case (Cons op ops)
  show ?case
  proof (cases op)
    case (Reg a f th p)
    then show ?thesis
      using Cons by (cases rule: hk.register_total [OF Cons.prems, of a f th p]) auto
  next
    case (Rem a f)
    then show ?thesis
      using Cons by (cases rule: hk.remove_total [OF Cons.prems, of a f]) auto
  qed
qed simp

lemma run_hook_wf:
  assumes "hook_wf h"
  shows "run_hook call h s = Some (fold (\<lambda>c. call (jbpf_codelet c) (time_thresh c)) (hook_chain h) s)"
  using assms
proof (cases rule: hook_wfE)
  case (arr t)
  then show ?thesis
    using run_codelets_chain [OF arr(4,2), of 0] by (simp add: run_hook_def)
qed (simp add: run_hook_def)

definition DEFINE_JBPF_HOOK :: "string \<Rightarrow> hook_type \<Rightarrow> jbpf_hook" where
  "DEFINE_JBPF_HOOK n ty = \<lparr> name = n, codelets = None, hook_type = ty \<rparr>"

lemma define_hook_wf: "hook_wf (DEFINE_JBPF_HOOK n ty)"
  by (simp add: DEFINE_JBPF_HOOK_def hook_wf_def hook_chain_def)

lemma register_type:
  "jbpf_register_codelet_hook alloc_ok h f th p = Some (r, h') \<Longrightarrow> hook_type h' = hook_type h"
  by (auto simp: jbpf_register_codelet_hook_def Let_def split: if_splits option.splits bind_splits)

lemma remove_type:
  "jbpf_remove_codelet_hook alloc_ok h f = Some (r, h') \<Longrightarrow> hook_type h' = hook_type h"
  by (auto simp: jbpf_remove_codelet_hook_def Let_def split: if_splits option.splits bind_splits)

lemma run_hook_ops_type: "run_hook_ops ops h = Some h' \<Longrightarrow> hook_type h' = hook_type h"
  by (induction ops h rule: run_hook_ops.induct)
    (auto dest: register_type remove_type split: bind_splits)

section \<open>Properties\<close>

text \<open>C17: Registration on a well-formed hook, every branch: it is refused without effect when the
  codelet is null, registered already, a second one on a control hook, or when memory runs out;
  otherwise it returns 0 and the new array is the old chain with the codelet inserted behind all
  codelets of at least its priority, followed by the terminator.  The hook stays well-formed:
  sorted by descending priority, free of duplicates, one codelet at most on a control hook.\<close>

theorem register_codelet_hook_spec:
  assumes "hook_wf h"
  shows "jbpf_register_codelet_hook alloc_ok h f th p =
      (if register_refused h f \<or> \<not> alloc_ok (length (hook_chain h) + 2) then Some (- 1, h)
       else Some (0, h\<lparr>codelets := Some (insert_prio
         \<lparr> jbpf_codelet = f, prio = p, time_thresh = th \<rparr> (hook_chain h) @ [zero_codelet])\<rparr>))
    \<and> (\<forall>r h'. jbpf_register_codelet_hook alloc_ok h f th p = Some (r, h') \<longrightarrow> hook_wf h')"
proof -
  have "hook_wf h'" if "jbpf_register_codelet_hook alloc_ok h f th p = Some (r, h')" for r h'
    using that by (cases rule: hk.register_total [OF assms, of alloc_ok f th p]) auto
  then show ?thesis
    by (cases "register_refused h f")
      (simp_all add: register_refused_result [OF assms] register_accepted_result [OF assms])
qed

theorem register_codelet_hook_spec_witness:
  "let h = \<lparr> name = ''h'', codelets = Some [\<lparr> jbpf_codelet = 3, prio = 5, time_thresh = 0 \<rparr>, zero_codelet],
             hook_type = JBPF_HOOK_TYPE_MON \<rparr> in
   hook_wf h \<and> jbpf_register_codelet_hook (\<lambda>_. True) h 2 9 7 =
     Some (0, h\<lparr>codelets := Some [\<lparr> jbpf_codelet = 2, prio = 7, time_thresh = 9 \<rparr>,
       \<lparr> jbpf_codelet = 3, prio = 5, time_thresh = 0 \<rparr>, zero_codelet]\<rparr>)"
proof -
  let ?h = "\<lparr> name = ''h'', codelets = Some [\<lparr> jbpf_codelet = 3, prio = 5, time_thresh = 0 \<rparr>, zero_codelet],
             hook_type = JBPF_HOOK_TYPE_MON \<rparr> :: jbpf_hook"
  have ch: "hook_chain ?h = [\<lparr> jbpf_codelet = 3, prio = 5, time_thresh = 0 \<rparr>]"
    by (simp add: hook_chain_def)
  have wf: "hook_wf ?h"
    unfolding hook_wf_def ch by (simp add: chain_array_def zero_codelet_def)
  moreover have "\<not> register_refused ?h 2"
    unfolding register_refused_def ch by simp
  ultimately show ?thesis
    using register_codelet_hook_spec [OF wf, of "\<lambda>_. True" 2 9 7, THEN conjunct1]
    by (simp add: Let_def hook_chain_def insert_prio_def)
qed



text \<open>Removing a codelet right after its successful registration gives back the chain the hook
  had before.\<close>

theorem register_remove_roundtrip:
  assumes "hook_wf h" and "jbpf_register_codelet_hook a h f th p = Some (0, h')"
    and "b (length (hook_chain h) + 1)"
  shows "\<exists>h''. jbpf_remove_codelet_hook b h' f = Some (0, h'') \<and> hook_chain h'' = hook_chain h"
  using hk.register_remove_chain [of h a f th p h' b, OF assms] by blast

theorem register_remove_roundtrip_witness:
  "\<exists>h' h''. jbpf_register_codelet_hook (\<lambda>_. True) (DEFINE_JBPF_HOOK ''h'' JBPF_HOOK_TYPE_MON) 4 0 1 = Some (0, h')
    \<and> jbpf_remove_codelet_hook (\<lambda>_. True) h' 4 = Some (0, h'')
    \<and> hook_chain h'' = hook_chain (DEFINE_JBPF_HOOK ''h'' JBPF_HOOK_TYPE_MON)"
proof -
  let ?h = "DEFINE_JBPF_HOOK ''h'' JBPF_HOOK_TYPE_MON"
  obtain h' where h': "jbpf_register_codelet_hook (\<lambda>_. True) ?h 4 0 1 = Some (0, h')"
    by (simp add: jbpf_register_codelet_hook_def DEFINE_JBPF_HOOK_def build_codelets_def numeral_2_eq_2)
  then show ?thesis
    using register_remove_roundtrip [OF define_hook_wf h', of "\<lambda>_. True"] by blast
qed

end
