(* ===== verification/Hook_Epoch.thy ===== *)
theory Hook_Epoch
  imports Hook
begin

text \<open>
  Hooks called by many threads while codelets are registered and removed.  A thread that calls a
  hook enters an epoch section, loads the array and walks it one codelet at a time; the thread
  that holds the hook mutex publishes a new array and frees the old one only when the
  synchronisation of Concurrency Kit's epochs returns.  Arrays live in a heap, so that a walk
  over a freed array would show as a missing entry.
\<close>

datatype reader_pc =
    Outside             \<comment> \<open>not in the hook\<close>
  | Entered             \<comment> \<open>after \<open>ck_epoch_begin\<close>, before the second load of the array\<close>
  | Running nat nat     \<comment> \<open>about to call the codelet of this index of the array at this address\<close>
  | Leaving             \<comment> \<open>before \<open>ck_epoch_end\<close>\<close>

record 't hk_state =
  hs_heap :: "nat \<Rightarrow> hook_codelet list option"
  hs_ptr :: "nat option"
  hs_next :: nat
  hs_type :: hook_type
  hs_reader :: "'t \<Rightarrow> reader_pc"
  hs_retired :: "(nat \<times> 't set) option"

text \<open>The hook as the functions of \<^theory_text>\<open>Hook\<close> see it.\<close>

definition hs_view :: "'t hk_state \<Rightarrow> jbpf_hook" where
  "hs_view s = \<lparr> name = [], codelets = (case hs_ptr s of None \<Rightarrow> None | Some a \<Rightarrow> hs_heap s a),
     hook_type = hs_type s \<rparr>"

text \<open>Publication of the result of a registration or removal, and the start of the grace period
  for the array it replaces: the sections that are open at that time.\<close>

definition hs_publish :: "'t hk_state \<Rightarrow> jbpf_hook \<Rightarrow> 't hk_state" where
  "hs_publish s h' = s\<lparr>
     hs_heap := (case codelets h' of None \<Rightarrow> hs_heap s | Some arr \<Rightarrow> (hs_heap s)(hs_next s \<mapsto> arr)),
     hs_ptr := (case codelets h' of None \<Rightarrow> None | Some _ \<Rightarrow> Some (hs_next s)),
     hs_next := Suc (hs_next s),
     hs_retired := (case hs_ptr s of None \<Rightarrow> None
       | Some a \<Rightarrow> Some (a, {t. hs_reader s t \<noteq> Outside})) \<rparr>"

text \<open>\<open>sync_returns W\<close> says that a synchronisation may return while the sections in \<open>W\<close>, of those
  open when it was called, have not ended.\<close>

inductive hk_step :: "('t set \<Rightarrow> bool) \<Rightarrow> 't hk_state \<Rightarrow> 't hk_state \<Rightarrow> bool"
  for sync_returns :: "'t set \<Rightarrow> bool" where
  enter: "hs_reader s t = Outside \<Longrightarrow> hs_ptr s \<noteq> None \<Longrightarrow>
    hk_step sync_returns s (s\<lparr>hs_reader := (hs_reader s)(t := Entered)\<rparr>)"
| load: "hs_reader s t = Entered \<Longrightarrow> hs_ptr s = Some a \<Longrightarrow>
    hk_step sync_returns s (s\<lparr>hs_reader := (hs_reader s)(t := Running a 0)\<rparr>)"
| load_null: "hs_reader s t = Entered \<Longrightarrow> hs_ptr s = None \<Longrightarrow>
    hk_step sync_returns s (s\<lparr>hs_reader := (hs_reader s)(t := Leaving)\<rparr>)"
| call_next: "hs_reader s t = Running a i \<Longrightarrow> hs_heap s a = Some arr \<Longrightarrow> Suc i < length arr \<Longrightarrow>
    jbpf_codelet (arr ! Suc i) \<noteq> 0 \<Longrightarrow>
    hk_step sync_returns s (s\<lparr>hs_reader := (hs_reader s)(t := Running a (Suc i))\<rparr>)"
| call_last: "hs_reader s t = Running a i \<Longrightarrow> hs_heap s a = Some arr \<Longrightarrow> Suc i < length arr \<Longrightarrow>
    jbpf_codelet (arr ! Suc i) = 0 \<Longrightarrow>
    hk_step sync_returns s (s\<lparr>hs_reader := (hs_reader s)(t := Leaving)\<rparr>)"
| leave: "hs_reader s t = Leaving \<Longrightarrow>
    hk_step sync_returns s (s\<lparr>hs_reader := (hs_reader s)(t := Outside),
      hs_retired := map_option (\<lambda>(a, W). (a, W - {t})) (hs_retired s)\<rparr>)"
| register: "hs_retired s = None \<Longrightarrow>
    jbpf_register_codelet_hook alloc_ok (hs_view s) f th p = Some (0, h') \<Longrightarrow>
    hk_step sync_returns s (hs_publish s h')"
| remove: "hs_retired s = None \<Longrightarrow> jbpf_remove_codelet_hook alloc_ok (hs_view s) f = Some (0, h') \<Longrightarrow>
    hk_step sync_returns s (hs_publish s h')"
| reclaim: "hs_retired s = Some (a, W) \<Longrightarrow> sync_returns W \<Longrightarrow>
    hk_step sync_returns s (s\<lparr>hs_heap := (hs_heap s)(a := None), hs_retired := None\<rparr>)"

section \<open>The invariant\<close>

text \<open>A position of a walk is good when the array at the address is allocated, has an entry behind
  the index, and the codelet at the index is not null.\<close>

definition good_pos :: "(nat \<Rightarrow> hook_codelet list option) \<Rightarrow> nat \<Rightarrow> nat \<Rightarrow> bool" where
  "good_pos heap a i = (\<exists>cs t. heap a = Some (cs @ [t]) \<and> i < length cs
     \<and> (\<forall>c\<in>set cs. jbpf_codelet c \<noteq> 0) \<and> jbpf_codelet t = 0)"

definition hk_inv :: "'t hk_state \<Rightarrow> bool" where
  "hk_inv s = (hook_wf (hs_view s)
     \<and> (\<forall>a. hs_heap s a \<noteq> None \<longrightarrow> a < hs_next s)
     \<and> (\<forall>a. hs_ptr s = Some a \<longrightarrow> hs_heap s a \<noteq> None)
     \<and> (\<forall>t a i. hs_reader s t = Running a i \<longrightarrow> good_pos (hs_heap s) a i
          \<and> (hs_ptr s = Some a \<or> (\<exists>W. hs_retired s = Some (a, W) \<and> t \<in> W)))
     \<and> (\<forall>a W. hs_retired s = Some (a, W) \<longrightarrow> hs_ptr s \<noteq> Some a \<and> (\<forall>t\<in>W. hs_reader s t \<noteq> Outside)))"

lemma hk_invI:
  assumes "hook_wf (hs_view s)"
    and "\<And>a. hs_heap s a \<noteq> None \<Longrightarrow> a < hs_next s"
    and "\<And>a. hs_ptr s = Some a \<Longrightarrow> hs_heap s a \<noteq> None"
    and "\<And>t a i. hs_reader s t = Running a i \<Longrightarrow> good_pos (hs_heap s) a i"
    and "\<And>t a i. hs_reader s t = Running a i \<Longrightarrow>
      hs_ptr s = Some a \<or> (\<exists>W. hs_retired s = Some (a, W) \<and> t \<in> W)"
    and "\<And>a W. hs_retired s = Some (a, W) \<Longrightarrow> hs_ptr s \<noteq> Some a"
    and "\<And>a W t. hs_retired s = Some (a, W) \<Longrightarrow> t \<in> W \<Longrightarrow> hs_reader s t \<noteq> Outside"
  shows "hk_inv s"
  unfolding hk_inv_def using assms(1-3) assms(4-7) by (intro conjI allI impI ballI) auto

lemma hk_invD:
  assumes "hk_inv s"
  shows "hook_wf (hs_view s)"
    and "hs_heap s a \<noteq> None \<Longrightarrow> a < hs_next s"
    and "hs_ptr s = Some a \<Longrightarrow> hs_heap s a \<noteq> None"
    and "hs_reader s t = Running a i \<Longrightarrow> good_pos (hs_heap s) a i"
    and "hs_reader s t = Running a i \<Longrightarrow>
      hs_ptr s = Some a \<or> (\<exists>W. hs_retired s = Some (a, W) \<and> t \<in> W)"
    and "hs_retired s = Some (a, W) \<Longrightarrow> hs_ptr s \<noteq> Some a"
    and "hs_retired s = Some (a, W) \<Longrightarrow> t \<in> W \<Longrightarrow> hs_reader s t \<noteq> Outside"
  using assms unfolding hk_inv_def by blast+

lemma good_pos_start:
  assumes "hk_inv s" "hs_ptr s = Some a"
  shows "good_pos (hs_heap s) a 0"
proof -
  obtain arr where arr: "hs_heap s a = Some arr" using assms by (auto simp: hk_inv_def)
  have "hook_wf (hs_view s)" using assms(1) by (simp add: hk_inv_def)
  then show ?thesis
  proof (cases rule: hook_wfE)
    case empty
    then show ?thesis using assms(2) arr by (simp add: hs_view_def)
  next
    case (arr t)
    then show ?thesis using assms(2) by (auto simp: hs_view_def good_pos_def)
  qed
qed

lemma good_pos_next:
  assumes "good_pos heap a i" "heap a = Some arr" "jbpf_codelet (arr ! Suc i) \<noteq> 0"
  shows "good_pos heap a (Suc i)"
proof -
  obtain cs t where cs: "heap a = Some (cs @ [t])" "i < length cs" "\<forall>c\<in>set cs. jbpf_codelet c \<noteq> 0"
    "jbpf_codelet t = 0" using assms(1) by (auto simp: good_pos_def)
  then have "Suc i \<noteq> length cs" using assms(2,3) by auto
  then show ?thesis using cs by (auto simp: good_pos_def)
qed

text \<open>A change of one reader keeps the invariant if its new position is good.\<close>

lemma hk_inv_reader:
  assumes inv: "hk_inv s"
    and pos: "\<And>a i. r = Running a i \<Longrightarrow> good_pos (hs_heap s) a i
      \<and> (hs_ptr s = Some a \<or> (\<exists>W. hs_retired s = Some (a, W) \<and> t \<in> W))"
    and "r \<noteq> Outside"
  shows "hk_inv (s\<lparr>hs_reader := (hs_reader s)(t := r)\<rparr>)"
proof -
  have view: "hs_view (s\<lparr>hs_reader := x\<rparr>) = hs_view s" for x by (simp add: hs_view_def split: option.split)
  show ?thesis using inv pos assms(3) unfolding hk_inv_def view by simp
qed

lemma hk_inv_publish:
  assumes inv: "hk_inv s" and ret: "hs_retired s = None" and wf: "hook_wf h'"
    and ty: "hook_type h' = hs_type s"
  shows "hk_inv (hs_publish s h')"
proof -
  let ?s = "hs_publish s h'"
  have fresh: "hs_heap s (hs_next s) = None" using inv by (auto simp: hk_inv_def)
  have "codelets (hs_view ?s) = codelets h'"
    by (auto simp: hs_view_def hs_publish_def split: option.split)
  then have view: "hook_wf (hs_view ?s)"
    using wf ty by (simp add: hook_wf_def hook_chain_def hs_view_def hs_publish_def)
  have heap: "hs_heap ?s a = hs_heap s a" if "a \<noteq> hs_next s" for a
    using that by (auto simp: hs_publish_def split: option.split)
  have run: "good_pos (hs_heap ?s) a i \<and> (\<exists>W. hs_retired ?s = Some (a, W) \<and> t \<in> W)"
    if "hs_reader ?s t = Running a i" for t a i
  proof -
    have r: "hs_reader s t = Running a i" using that by (simp add: hs_publish_def)
    then have g: "good_pos (hs_heap s) a i" "hs_ptr s = Some a" using inv ret by (auto simp: hk_inv_def)
    then have "a \<noteq> hs_next s" using fresh by (auto simp: good_pos_def)
    then have "good_pos (hs_heap ?s) a i" using g(1) heap by (simp add: good_pos_def)
    then show ?thesis using g(2) r by (simp add: hs_publish_def)
  qed
  have "hs_ptr s \<noteq> Some (hs_next s)" using inv fresh by (auto simp: hk_inv_def)
  then have ret': "hs_ptr ?s \<noteq> Some a" "t \<in> W \<Longrightarrow> hs_reader ?s t \<noteq> Outside"
    if "hs_retired ?s = Some (a, W)" for a W t
    using that by (auto simp: hs_publish_def split: option.splits)
  have bound: "a < hs_next ?s" if "hs_heap ?s a \<noteq> None" for a
    using that inv by (cases "a = hs_next s") (auto simp: hs_publish_def hk_inv_def less_SucI split: option.splits)
  have ptr: "hs_heap ?s a \<noteq> None" if "hs_ptr ?s = Some a" for a
    using that by (auto simp: hs_publish_def split: option.splits)
  show ?thesis
  proof (rule hk_invI, goal_cases)
    case 1
    show ?case by (rule view)
  next
    case (2 a)
    then show ?case by (rule bound)
  next
    case (3 a)
    then show ?case by (rule ptr)
  next
    case (4 t a i)
    then show ?case by (rule run [THEN conjunct1])
  next
    case (5 t a i)
    then show ?case by (intro disjI2 run [THEN conjunct2])
  next
    case (6 a W)
    then show ?case by (rule ret')
  next
    case (7 a W t)
    then show ?case by (rule ret')
  qed
qed

lemma hk_inv_leave:
  assumes inv: "hk_inv s" and t: "hs_reader s t = Leaving"
  shows "hk_inv (s\<lparr>hs_reader := (hs_reader s)(t := Outside),
    hs_retired := map_option (\<lambda>(a, W). (a, W - {t})) (hs_retired s)\<rparr>)"
proof -
  have view: "hs_view (s\<lparr>hs_reader := x, hs_retired := y\<rparr>) = hs_view s" for x y
    by (simp add: hs_view_def split: option.split)
  note I = hk_invD [OF inv]
  show ?thesis
  proof (rule hk_invI, unfold view, goal_cases)
    case (5 u a i)
    then have "u \<noteq> t" "hs_reader s u = Running a i" by (auto split: if_splits)
    then show ?case using I(5) [of u a i] by auto
  next
    case (7 a W u)
    then obtain W' where "hs_retired s = Some (a, W')" "u \<in> W'" "u \<noteq> t" by auto
    then show ?case using I(7) [of a W' u] by simp
  qed (use I in \<open>auto split: if_splits\<close>)
qed

lemma hk_inv_reclaim:
  assumes inv: "hk_inv s" and ret: "hs_retired s = Some (a, {})"
  shows "hk_inv (s\<lparr>hs_heap := (hs_heap s)(a := None), hs_retired := None\<rparr>)"
proof -
  have ptr: "hs_ptr s \<noteq> Some a" using inv ret by (auto simp: hk_inv_def)
  then have view: "hs_view (s\<lparr>hs_heap := (hs_heap s)(a := None), hs_retired := None\<rparr>) = hs_view s"
    by (auto simp: hs_view_def split: option.split)
  note I = hk_invD [OF inv]
  have run: "hs_ptr s = Some b" "b \<noteq> a" if "hs_reader s t = Running b i" for t b i
    using I(5) [OF that] ret ptr by auto
  show ?thesis
  proof (rule hk_invI, unfold view, goal_cases)
    case (4 t b i)
    then show ?case using I(4) [of t b i] run by (simp add: good_pos_def)
  qed (use I(1-3) run ptr in \<open>auto split: if_splits\<close>)
qed

text \<open>The contract of the epoch library: synchronisation returns only when the sections that were
  open have ended.\<close>

lemma hk_step_inv:
  assumes grace: "\<And>W. sync_returns W \<Longrightarrow> W = {}"
    and step: "hk_step sync_returns s s'" and inv: "hk_inv s"
  shows "hk_inv s'"
  using step inv
proof (cases rule: hk_step.cases)
  case (load t a)
  then show ?thesis using inv good_pos_start [OF inv] by (auto intro!: hk_inv_reader)
next
  case (call_next t a i arr)
  note D = hk_invD(4,5) [OF inv call_next(2)]
  show ?thesis
    unfolding call_next(1) using D good_pos_next [OF D(1) call_next(3,5)]
    by (intro hk_inv_reader [OF inv]) auto
next
  case (leave t)
  then show ?thesis using hk_inv_leave [OF inv] by simp
next
  case (register alloc_ok f th p h')
  have "hook_wf h'"
    using register(3) by (cases rule: hk.register_total [OF hk_invD(1) [OF inv], of alloc_ok f th p]) auto
  moreover have "hook_type h' = hs_type s" using register_type [OF register(3)] by (simp add: hs_view_def)
  ultimately show ?thesis using hk_inv_publish [OF inv register(2)] register(1) by simp
next
  case (remove alloc_ok f h')
  have "hook_wf h'"
    using remove(3) by (cases rule: hk.remove_total [OF hk_invD(1) [OF inv], of alloc_ok f]) auto
  moreover have "hook_type h' = hs_type s" using remove_type [OF remove(3)] by (simp add: hs_view_def)
  ultimately show ?thesis using hk_inv_publish [OF inv remove(2)] remove(1) by simp
next
  case (reclaim a W)
  then show ?thesis using hk_inv_reclaim [OF inv] grace by auto
qed (use inv in \<open>auto intro!: hk_inv_reader\<close>)

lemma hk_reach_inv:
  assumes grace: "\<And>W. sync_returns W \<Longrightarrow> W = {}"
    and "(hk_step sync_returns)\<^sup>*\<^sup>* s s'" and inv: "hk_inv s"
  shows "hk_inv s'"
  using assms(2)
proof (induction rule: rtranclp_induct)
  case (step t u)
  show ?case using grace step(2,3) by (rule hk_step_inv)
qed (rule inv)

definition hk_start :: "hook_type \<Rightarrow> 't hk_state" where
  "hk_start ty = \<lparr> hs_heap = (\<lambda>_. None), hs_ptr = None, hs_next = 0, hs_type = ty,
     hs_reader = (\<lambda>_. Outside), hs_retired = None \<rparr>"

lemma hk_start_inv: "hk_inv (hk_start ty)"
  by (rule hk_invI) (simp_all add: hk_start_def hs_view_def hook_wf_def hook_chain_def)

section \<open>Properties\<close>

text \<open>C1: However calls of a hook interleave with registrations and removals, and given that the
  epoch library's synchronisation returns only when the sections open at its call have ended, a
  thread that walks the array of a hook is always at a codelet of an array that has not been
  freed, with the terminator still ahead of it.\<close>

theorem hook_walk_safe:
  assumes "\<forall>W. sync_returns W \<longrightarrow> W = {}"
    and "(hk_step sync_returns)\<^sup>*\<^sup>* (hk_start ty) s" and "hs_reader s t = Running a i"
  shows "\<exists>arr. hs_heap s a = Some arr \<and> Suc i < length arr \<and> jbpf_codelet (arr ! i) \<noteq> 0"
proof -
  have "hk_inv s"
    by (rule hk_reach_inv [OF _ assms(2) hk_start_inv]) (use assms(1) in blast)
  then have "good_pos (hs_heap s) a i" by (rule hk_invD(4) [OF _ assms(3)])
  then show ?thesis by (auto simp: good_pos_def nth_append)
qed

theorem hook_walk_safe_witness:
  "\<exists>s. (hk_step (\<lambda>W. W = {}))\<^sup>*\<^sup>* (hk_start JBPF_HOOK_TYPE_MON) s
    \<and> hs_reader s (0 :: nat) = Running 0 0
    \<and> (\<exists>arr. hs_heap s 0 = Some arr \<and> Suc 0 < length arr \<and> jbpf_codelet (arr ! 0) \<noteq> 0)"
proof -
  let ?S = "hk_step (\<lambda>W. W = {})" and ?s0 = "hk_start JBPF_HOOK_TYPE_MON :: nat hk_state"
  obtain h' arr where h': "jbpf_register_codelet_hook (\<lambda>_. True) (hs_view ?s0) 4 0 1 = Some (0, h')"
      "codelets h' = Some arr"
    by (simp add: jbpf_register_codelet_hook_def hs_view_def hk_start_def build_codelets_def numeral_2_eq_2)
  let ?s1 = "hs_publish ?s0 h'"
  let ?s2 = "?s1\<lparr>hs_reader := (hs_reader ?s1)(0 := Entered)\<rparr>"
  let ?s3 = "?s2\<lparr>hs_reader := (hs_reader ?s2)(0 := Running 0 0)\<rparr>"
  have 1: "?S ?s0 ?s1" by (rule register [OF _ h'(1)]) (simp add: hk_start_def)
  have 2: "?S ?s1 ?s2" by (rule enter) (simp_all add: hk_start_def hs_publish_def h'(2))
  have 3: "?S ?s2 ?s3" by (rule load) (simp_all add: hk_start_def hs_publish_def h'(2))
  have r: "?S\<^sup>*\<^sup>* ?s0 ?s3"
    using 1 2 3 by (meson rtranclp.rtrancl_into_rtrancl r_into_rtranclp)
  have "hs_reader ?s3 0 = Running 0 0" by simp
  with hook_walk_safe [OF _ r this] r show ?thesis by blast
qed

end
