(* ===== verification/Lookup3.thy ===== *)
theory Lookup3
  imports Prelude
begin

text \<open>
  The hash functions of \<open>src/core/jbpf_lookup3.c\<close> over a byte memory: a key is an address and a
  length, and the functions choose between 32 bit, 16 bit and byte reads by the alignment of the
  address.  The main result is that every path computes one and the same function of the bytes of
  the key, so that the hash does not depend on where the key is stored nor on what follows it.
\<close>

section \<open>Mixing\<close>

type_synonym mem = "nat \<Rightarrow> u8"
type_synonym hst = "u32 \<times> u32 \<times> u32"

definition rot :: "u32 \<Rightarrow> nat \<Rightarrow> u32" where
  "rot x k = push_bit k x OR drop_bit (32 - k) x"

definition mix :: "hst \<Rightarrow> hst" where
  "mix = (\<lambda>(a, b, c).
     let a = a - c; a = a XOR rot c 4; c = c + b;
         b = b - a; b = b XOR rot a 6; a = a + c;
         c = c - b; c = c XOR rot b 8; b = b + a;
         a = a - c; a = a XOR rot c 16; c = c + b;
         b = b - a; b = b XOR rot a 19; a = a + c;
         c = c - b; c = c XOR rot b 4; b = b + a
     in (a, b, c))"

definition final :: "hst \<Rightarrow> hst" where
  "final = (\<lambda>(a, b, c).
     let c = c XOR b; c = c - rot b 14;
         a = a XOR c; a = a - rot c 11;
         b = b XOR a; b = b - rot a 25;
         c = c XOR b; c = c - rot b 16;
         a = a XOR c; a = a - rot c 4;
         b = b XOR a; b = b - rot a 14;
         c = c XOR b; c = c - rot b 24
     in (a, b, c))"

section \<open>Hashing arrays of words\<close>

text \<open>The loop and the final switch of \<open>hashword\<close> and \<open>hashword2\<close>, on the words of the key.\<close>

fun hashword_loop :: "u32 list \<Rightarrow> hst \<Rightarrow> hst" where
  "hashword_loop ks (a, b, c) =
    (if length ks > 3
     then hashword_loop (drop 3 ks) (mix (a + ks ! 0, b + ks ! 1, c + ks ! 2))
     else if length ks = 3 then final (a + ks ! 0, b + ks ! 1, c + ks ! 2)
     else if length ks = 2 then final (a + ks ! 0, b + ks ! 1, c)
     else if length ks = 1 then final (a + ks ! 0, b, c)
     else (a, b, c))"

declare hashword_loop.simps [simp del]

definition hashword :: "u32 list \<Rightarrow> u32 \<Rightarrow> u32" where
  "hashword ks initval =
    (let i = 0xdeadbeef + push_bit 2 (of_nat (length ks)) + initval;
         (a, b, c) = hashword_loop ks (i, i, i) in c)"

definition hashword2 :: "u32 list \<Rightarrow> u32 \<Rightarrow> u32 \<Rightarrow> u32 \<times> u32" where
  "hashword2 ks pc pb =
    (let i = 0xdeadbeef + ucast (push_bit 2 (of_nat (length ks) :: u64)) + pc;
         (a, b, c) = hashword_loop ks (i, i, i + pb) in (c, b))"

section \<open>Hashing bytes\<close>

text \<open>Reads of 16 and 32 bits from the memory of a little-endian machine.\<close>

definition rd16 :: "mem \<Rightarrow> nat \<Rightarrow> u16" where
  "rd16 m p = ucast (m p) OR push_bit 8 (ucast (m (p + 1)))"

definition rd32 :: "mem \<Rightarrow> nat \<Rightarrow> u32" where
  "rd32 m p = ucast (m p) OR push_bit 8 (ucast (m (p + 1)))
     OR push_bit 16 (ucast (m (p + 2))) OR push_bit 24 (ucast (m (p + 3)))"

text \<open>The additions of one block of twelve bytes, by words, by half words and by bytes.\<close>

definition add32 :: "mem \<Rightarrow> nat \<Rightarrow> hst \<Rightarrow> hst" where
  "add32 m k = (\<lambda>(a, b, c). (a + rd32 m k, b + rd32 m (k + 4), c + rd32 m (k + 8)))"

definition pair16 :: "mem \<Rightarrow> nat \<Rightarrow> u32" where
  "pair16 m k = ucast (rd16 m k) + push_bit 16 (ucast (rd16 m (k + 2)))"

definition add16 :: "mem \<Rightarrow> nat \<Rightarrow> hst \<Rightarrow> hst" where
  "add16 m k = (\<lambda>(a, b, c). (a + pair16 m k, b + pair16 m (k + 4), c + pair16 m (k + 8)))"

definition add8 :: "mem \<Rightarrow> nat \<Rightarrow> hst \<Rightarrow> hst" where
  "add8 m k = (\<lambda>(a, b, c).
     let a = a + ucast (m k); a = a + push_bit 8 (ucast (m (k + 1)));
         a = a + push_bit 16 (ucast (m (k + 2))); a = a + push_bit 24 (ucast (m (k + 3)));
         b = b + ucast (m (k + 4)); b = b + push_bit 8 (ucast (m (k + 5)));
         b = b + push_bit 16 (ucast (m (k + 6))); b = b + push_bit 24 (ucast (m (k + 7)));
         c = c + ucast (m (k + 8)); c = c + push_bit 8 (ucast (m (k + 9)));
         c = c + push_bit 16 (ucast (m (k + 10))); c = c + push_bit 24 (ucast (m (k + 11)))
     in (a, b, c))"

text \<open>The loop over all blocks but the last: the pointer and the length it ends with.\<close>

fun hash_loop :: "(mem \<Rightarrow> nat \<Rightarrow> hst \<Rightarrow> hst) \<Rightarrow> mem \<Rightarrow> nat \<Rightarrow> nat \<Rightarrow> hst \<Rightarrow> nat \<times> nat \<times> hst" where
  "hash_loop add m k len s =
    (if len > 12 then hash_loop add m (k + 12) (len - 12) (mix (add m k s)) else (k, len, s))"

declare hash_loop.simps [simp del]

text \<open>The switch over the length of the last block, in its three forms; \<^const>\<open>None\<close> is the early
  return for an empty one.\<close>

definition tail32 :: "mem \<Rightarrow> nat \<Rightarrow> nat \<Rightarrow> hst \<Rightarrow> hst option" where
  "tail32 m k len = (\<lambda>(a, b, c).
     if len = 12 then Some (a + rd32 m k, b + rd32 m (k + 4), c + rd32 m (k + 8))
     else if len = 11 then Some (a + rd32 m k, b + rd32 m (k + 4), c + (rd32 m (k + 8) AND 0xffffff))
     else if len = 10 then Some (a + rd32 m k, b + rd32 m (k + 4), c + (rd32 m (k + 8) AND 0xffff))
     else if len = 9 then Some (a + rd32 m k, b + rd32 m (k + 4), c + (rd32 m (k + 8) AND 0xff))
     else if len = 8 then Some (a + rd32 m k, b + rd32 m (k + 4), c)
     else if len = 7 then Some (a + rd32 m k, b + (rd32 m (k + 4) AND 0xffffff), c)
     else if len = 6 then Some (a + rd32 m k, b + (rd32 m (k + 4) AND 0xffff), c)
     else if len = 5 then Some (a + rd32 m k, b + (rd32 m (k + 4) AND 0xff), c)
     else if len = 4 then Some (a + rd32 m k, b, c)
     else if len = 3 then Some (a + (rd32 m k AND 0xffffff), b, c)
     else if len = 2 then Some (a + (rd32 m k AND 0xffff), b, c)
     else if len = 1 then Some (a + (rd32 m k AND 0xff), b, c)
     else if len = 0 then None
     else Some (a, b, c))"

definition tail32_sanitized :: "mem \<Rightarrow> nat \<Rightarrow> nat \<Rightarrow> hst \<Rightarrow> hst option" where
  "tail32_sanitized m k len = (\<lambda>(a, b, c).
     if len = 12 then Some (a + rd32 m k, b + rd32 m (k + 4), c + rd32 m (k + 8))
     else if 8 \<le> len \<and> len \<le> 11 then
       (let c = (if len \<ge> 11 then c + push_bit 16 (ucast (m (k + 10))) else c);
            c = (if len \<ge> 10 then c + push_bit 8 (ucast (m (k + 9))) else c);
            c = (if len \<ge> 9 then c + ucast (m (k + 8)) else c)
        in Some (a + rd32 m k, b + rd32 m (k + 4), c))
     else if 4 \<le> len \<and> len \<le> 7 then
       (let b = (if len \<ge> 7 then b + push_bit 16 (ucast (m (k + 6))) else b);
            b = (if len \<ge> 6 then b + push_bit 8 (ucast (m (k + 5))) else b);
            b = (if len \<ge> 5 then b + ucast (m (k + 4)) else b)
        in Some (a + rd32 m k, b, c))
     else if 1 \<le> len \<and> len \<le> 3 then
       (let a = (if len \<ge> 3 then a + push_bit 16 (ucast (m (k + 2))) else a);
            a = (if len \<ge> 2 then a + push_bit 8 (ucast (m (k + 1))) else a);
            a = a + ucast (m k)
        in Some (a, b, c))
     else if len = 0 then None
     else Some (a, b, c))"

definition tail16 :: "mem \<Rightarrow> nat \<Rightarrow> nat \<Rightarrow> hst \<Rightarrow> hst option" where
  "tail16 m k len = (\<lambda>(a, b, c).
     if len = 12 then Some (a + pair16 m k, b + pair16 m (k + 4), c + pair16 m (k + 8))
     else if len = 11 \<or> len = 10 then
       (let c = (if len = 11 then c + push_bit 16 (ucast (m (k + 10))) else c);
            c = c + ucast (rd16 m (k + 8))
        in Some (a + pair16 m k, b + pair16 m (k + 4), c))
     else if len = 9 \<or> len = 8 then
       (let c = (if len = 9 then c + ucast (m (k + 8)) else c)
        in Some (a + pair16 m k, b + pair16 m (k + 4), c))
     else if len = 7 \<or> len = 6 then
       (let b = (if len = 7 then b + push_bit 16 (ucast (m (k + 6))) else b);
            b = b + ucast (rd16 m (k + 4))
        in Some (a + pair16 m k, b, c))
     else if len = 5 \<or> len = 4 then
       (let b = (if len = 5 then b + ucast (m (k + 4)) else b)
        in Some (a + pair16 m k, b, c))
     else if len = 3 \<or> len = 2 then
       (let a = (if len = 3 then a + push_bit 16 (ucast (m (k + 2))) else a)
        in Some (a + ucast (rd16 m k), b, c))
     else if len = 1 then Some (a + ucast (m k), b, c)
     else if len = 0 then None
     else Some (a, b, c))"

definition tail8 :: "mem \<Rightarrow> nat \<Rightarrow> nat \<Rightarrow> hst \<Rightarrow> hst option" where
  "tail8 m k len = (\<lambda>(a, b, c).
     if len = 0 then None
     else if len > 12 then Some (a, b, c)
     else
       let c = (if len \<ge> 12 then c + push_bit 24 (ucast (m (k + 11))) else c);
           c = (if len \<ge> 11 then c + push_bit 16 (ucast (m (k + 10))) else c);
           c = (if len \<ge> 10 then c + push_bit 8 (ucast (m (k + 9))) else c);
           c = (if len \<ge> 9 then c + ucast (m (k + 8)) else c);
           b = (if len \<ge> 8 then b + push_bit 24 (ucast (m (k + 7))) else b);
           b = (if len \<ge> 7 then b + push_bit 16 (ucast (m (k + 6))) else b);
           b = (if len \<ge> 6 then b + push_bit 8 (ucast (m (k + 5))) else b);
           b = (if len \<ge> 5 then b + ucast (m (k + 4)) else b);
           a = (if len \<ge> 4 then a + push_bit 24 (ucast (m (k + 3))) else a);
           a = (if len \<ge> 3 then a + push_bit 16 (ucast (m (k + 2))) else a);
           a = (if len \<ge> 2 then a + push_bit 8 (ucast (m (k + 1))) else a);
           a = a + ucast (m k)
       in Some (a, b, c))"

text \<open>The configuration the preprocessor fixes.\<close>

record hash_config =
  HASH_LITTLE_ENDIAN :: bool
  HASH_BIG_ENDIAN :: bool
  SANITIZE :: bool

definition run_path ::
  "(mem \<Rightarrow> nat \<Rightarrow> hst \<Rightarrow> hst) \<Rightarrow> (mem \<Rightarrow> nat \<Rightarrow> nat \<Rightarrow> hst \<Rightarrow> hst option)
    \<Rightarrow> mem \<Rightarrow> nat \<Rightarrow> nat \<Rightarrow> hst \<Rightarrow> hst" where
  "run_path add switch m key len s =
    (let (k, n, s') = hash_loop add m key len s in
     case switch m k n s' of None \<Rightarrow> s' | Some s'' \<Rightarrow> final s'')"

definition hashlittle :: "hash_config \<Rightarrow> mem \<Rightarrow> nat \<Rightarrow> nat \<Rightarrow> u32 \<Rightarrow> u32" where
  "hashlittle cfg m key len initval =
    (let i = 0xdeadbeef + of_nat len + initval;
         (a, b, c) =
           (if HASH_LITTLE_ENDIAN cfg \<and> key mod 4 = 0 then
              run_path add32 (if SANITIZE cfg then tail32_sanitized else tail32) m key len (i, i, i)
            else if HASH_LITTLE_ENDIAN cfg \<and> key mod 2 = 0 then
              run_path add16 tail16 m key len (i, i, i)
            else run_path add8 tail8 m key len (i, i, i))
     in c)"

definition hashlittle2 :: "hash_config \<Rightarrow> mem \<Rightarrow> nat \<Rightarrow> nat \<Rightarrow> u32 \<Rightarrow> u32 \<Rightarrow> u32 \<times> u32" where
  "hashlittle2 cfg m key len pc pb =
    (let i = 0xdeadbeef + of_nat len + pc;
         (a, b, c) =
           (if HASH_LITTLE_ENDIAN cfg \<and> key mod 4 = 0 then run_path add32 tail32 m key len (i, i, i + pb)
            else if HASH_LITTLE_ENDIAN cfg \<and> key mod 2 = 0 then run_path add16 tail16 m key len (i, i, i + pb)
            else run_path add8 tail8 m key len (i, i, i + pb))
     in (c, b))"

section \<open>Hashing bytes in big-endian order\<close>

definition rd32_be :: "mem \<Rightarrow> nat \<Rightarrow> u32" where
  "rd32_be m p = push_bit 24 (ucast (m p)) OR push_bit 16 (ucast (m (p + 1)))
     OR push_bit 8 (ucast (m (p + 2))) OR ucast (m (p + 3))"

definition big32 :: "mem \<Rightarrow> nat \<Rightarrow> hst \<Rightarrow> hst" where
  "big32 m k = (\<lambda>(a, b, c). (a + rd32_be m k, b + rd32_be m (k + 4), c + rd32_be m (k + 8)))"

definition big8 :: "mem \<Rightarrow> nat \<Rightarrow> hst \<Rightarrow> hst" where
  "big8 m k = (\<lambda>(a, b, c).
     let a = a + push_bit 24 (ucast (m k)); a = a + push_bit 16 (ucast (m (k + 1)));
         a = a + push_bit 8 (ucast (m (k + 2))); a = a + ucast (m (k + 3));
         b = b + push_bit 24 (ucast (m (k + 4))); b = b + push_bit 16 (ucast (m (k + 5)));
         b = b + push_bit 8 (ucast (m (k + 6))); b = b + ucast (m (k + 7));
         c = c + push_bit 24 (ucast (m (k + 8))); c = c + push_bit 16 (ucast (m (k + 9)));
         c = c + push_bit 8 (ucast (m (k + 10))); c = c + ucast (m (k + 11))
     in (a, b, c))"

definition big_tail32 :: "mem \<Rightarrow> nat \<Rightarrow> nat \<Rightarrow> hst \<Rightarrow> hst option" where
  "big_tail32 m k len = (\<lambda>(a, b, c).
     if len = 12 then Some (a + rd32_be m k, b + rd32_be m (k + 4), c + rd32_be m (k + 8))
     else if len = 11 then Some (a + rd32_be m k, b + rd32_be m (k + 4), c + (rd32_be m (k + 8) AND 0xffffff00))
     else if len = 10 then Some (a + rd32_be m k, b + rd32_be m (k + 4), c + (rd32_be m (k + 8) AND 0xffff0000))
     else if len = 9 then Some (a + rd32_be m k, b + rd32_be m (k + 4), c + (rd32_be m (k + 8) AND 0xff000000))
     else if len = 8 then Some (a + rd32_be m k, b + rd32_be m (k + 4), c)
     else if len = 7 then Some (a + rd32_be m k, b + (rd32_be m (k + 4) AND 0xffffff00), c)
     else if len = 6 then Some (a + rd32_be m k, b + (rd32_be m (k + 4) AND 0xffff0000), c)
     else if len = 5 then Some (a + rd32_be m k, b + (rd32_be m (k + 4) AND 0xff000000), c)
     else if len = 4 then Some (a + rd32_be m k, b, c)
     else if len = 3 then Some (a + (rd32_be m k AND 0xffffff00), b, c)
     else if len = 2 then Some (a + (rd32_be m k AND 0xffff0000), b, c)
     else if len = 1 then Some (a + (rd32_be m k AND 0xff000000), b, c)
     else if len = 0 then None
     else Some (a, b, c))"

definition big_tail8 :: "mem \<Rightarrow> nat \<Rightarrow> nat \<Rightarrow> hst \<Rightarrow> hst option" where
  "big_tail8 m k len = (\<lambda>(a, b, c).
     if len = 0 then None
     else if len > 12 then Some (a, b, c)
     else
       let c = (if len \<ge> 12 then c + ucast (m (k + 11)) else c);
           c = (if len \<ge> 11 then c + push_bit 8 (ucast (m (k + 10))) else c);
           c = (if len \<ge> 10 then c + push_bit 16 (ucast (m (k + 9))) else c);
           c = (if len \<ge> 9 then c + push_bit 24 (ucast (m (k + 8))) else c);
           b = (if len \<ge> 8 then b + ucast (m (k + 7)) else b);
           b = (if len \<ge> 7 then b + push_bit 8 (ucast (m (k + 6))) else b);
           b = (if len \<ge> 6 then b + push_bit 16 (ucast (m (k + 5))) else b);
           b = (if len \<ge> 5 then b + push_bit 24 (ucast (m (k + 4))) else b);
           a = (if len \<ge> 4 then a + ucast (m (k + 3)) else a);
           a = (if len \<ge> 3 then a + push_bit 8 (ucast (m (k + 2))) else a);
           a = (if len \<ge> 2 then a + push_bit 16 (ucast (m (k + 1))) else a);
           a = a + push_bit 24 (ucast (m k))
       in Some (a, b, c))"

definition hashbig :: "hash_config \<Rightarrow> mem \<Rightarrow> nat \<Rightarrow> nat \<Rightarrow> u32 \<Rightarrow> u32" where
  "hashbig cfg m key len initval =
    (let i = 0xdeadbeef + of_nat len + initval;
         (a, b, c) =
           (if HASH_BIG_ENDIAN cfg \<and> key mod 4 = 0 then run_path big32 big_tail32 m key len (i, i, i)
            else run_path big8 big_tail8 m key len (i, i, i))
     in c)"

section \<open>One function of the bytes\<close>

text \<open>The reference: a key is consumed twelve bytes at a time as three words, the last block padded
  with zero bytes; \<open>word_at\<close> reads a word in the byte order \<open>pos\<close>, which gives the place of each of
  its four bytes.\<close>

definition byte_or_0 :: "bytes \<Rightarrow> nat \<Rightarrow> u8" where
  "byte_or_0 bs i = (if i < length bs then bs ! i else 0)"

definition word_at :: "(nat \<Rightarrow> nat) \<Rightarrow> bytes \<Rightarrow> nat \<Rightarrow> u32" where
  "word_at pos bs i = push_bit (pos 0) (ucast (byte_or_0 bs i)) + push_bit (pos 1) (ucast (byte_or_0 bs (i + 1)))
     + push_bit (pos 2) (ucast (byte_or_0 bs (i + 2))) + push_bit (pos 3) (ucast (byte_or_0 bs (i + 3)))"

definition add_block :: "(nat \<Rightarrow> nat) \<Rightarrow> bytes \<Rightarrow> hst \<Rightarrow> hst" where
  "add_block pos bs = (\<lambda>(a, b, c). (a + word_at pos bs 0, b + word_at pos bs 4, c + word_at pos bs 8))"

fun hash_bytes :: "(nat \<Rightarrow> nat) \<Rightarrow> bytes \<Rightarrow> hst \<Rightarrow> hst" where
  "hash_bytes pos bs s =
    (if length bs > 12 then hash_bytes pos (drop 12 bs) (mix (add_block pos bs s))
     else if bs = [] then s else final (add_block pos bs s))"

declare hash_bytes.simps [simp del]

definition le_pos :: "nat \<Rightarrow> nat" where
  "le_pos j = 8 * j"

definition be_pos :: "nat \<Rightarrow> nat" where
  "be_pos j = 24 - 8 * j"

definition key_bytes :: "mem \<Rightarrow> nat \<Rightarrow> nat \<Rightarrow> bytes" where
  "key_bytes m p n = map m [p..<p + n]"

lemma length_key_bytes [simp]: "length (key_bytes m p n) = n"
  by (simp add: key_bytes_def)

lemma key_bytes_nil [simp]: "key_bytes m p n = [] \<longleftrightarrow> n = 0"
  by (auto simp: key_bytes_def)

lemma drop_key_bytes: "j \<le> n \<Longrightarrow> drop j (key_bytes m p n) = key_bytes m (p + j) (n - j)"
  by (simp add: key_bytes_def drop_map)

lemma byte_or_0_key: "byte_or_0 (key_bytes m p n) i = (if i < n then m (p + i) else 0)"
  by (simp add: byte_or_0_def key_bytes_def)

text \<open>A path through the loop and a switch is right if the additions of a full block and of the
  last block are those of the reference.\<close>

lemma run_path_correct:
  assumes add: "\<And>k n s. 12 < n \<Longrightarrow> add m k s = add_block pos (key_bytes m k n) s"
    and sw: "\<And>k n s. n \<le> 12 \<Longrightarrow>
      switch m k n s = (if n = 0 then None else Some (add_block pos (key_bytes m k n) s))"
  shows "run_path add switch m key len s = hash_bytes pos (key_bytes m key len) s"
proof (induction len arbitrary: key s rule: less_induct)
  case (less len)
  show ?case
  proof (cases "len > 12")
    case True
    then have "run_path add switch m key len s
        = run_path add switch m (key + 12) (len - 12) (mix (add m key s))"
      by (simp add: run_path_def hash_loop.simps [of add m key])
    also have "\<dots> = hash_bytes pos (key_bytes m (key + 12) (len - 12)) (mix (add m key s))"
      using True by (intro less.IH) simp
    also have "\<dots> = hash_bytes pos (key_bytes m key len) s"
      using True by (subst (2) hash_bytes.simps) (simp add: drop_key_bytes add [OF True])
    finally show ?thesis .
  next
    case False
    then have "hash_loop add m key len s = (key, len, s)"
      by (simp add: hash_loop.simps)
    then show ?thesis
      using False sw [of len key s] by (simp add: run_path_def hash_bytes.simps)
  qed
qed

section \<open>The reads as sums of bytes\<close>

lemma bytes_disjunctive:
  fixes b0 b1 b2 b3 :: u8
  shows "(ucast b0 :: u32) + push_bit 8 (ucast b1) = ucast b0 OR push_bit 8 (ucast b1)"
    and "(ucast b0 OR push_bit 8 (ucast b1) :: u32) + push_bit 16 (ucast b2)
      = (ucast b0 OR push_bit 8 (ucast b1)) OR push_bit 16 (ucast b2)"
    and "((ucast b0 OR push_bit 8 (ucast b1)) OR push_bit 16 (ucast b2) :: u32) + push_bit 24 (ucast b3)
      = ((ucast b0 OR push_bit 8 (ucast b1)) OR push_bit 16 (ucast b2)) OR push_bit 24 (ucast b3)"
  by (rule disjunctive_add; auto simp: bit_simps dest: bit_imp_le_length)+

lemma rd32_sum:
  "rd32 m p = ucast (m p) + push_bit 8 (ucast (m (p + 1))) + push_bit 16 (ucast (m (p + 2)))
     + push_bit 24 (ucast (m (p + 3)))"
  unfolding rd32_def by (simp only: bytes_disjunctive or.assoc [symmetric])

lemma rd16_sum: "(ucast (rd16 m p) :: u32) = ucast (m p) + push_bit 8 (ucast (m (p + 1)))"
  unfolding bytes_disjunctive
  by (rule bit_word_eqI) (auto simp: rd16_def bit_simps dest: bit_imp_le_length)

lemma pair16_sum: "pair16 m p = rd32 m p"
  unfolding rd32_sum pair16_def rd16_sum by (simp add: push_bit_add add.assoc numeral_3_eq_3)

lemma mask_numerals:
  "(0xff :: u32) = mask 8" "(0xffff :: u32) = mask 16" "(0xffffff :: u32) = mask 24"
  by (simp_all add: mask_eq_exp_minus_1)

lemma rd32_masks:
  "rd32 m p AND 0xff = ucast (m p)"
  "rd32 m p AND 0xffff = ucast (m p) + push_bit 8 (ucast (m (p + 1)))"
  "rd32 m p AND 0xffffff = ucast (m p) + push_bit 8 (ucast (m (p + 1))) + push_bit 16 (ucast (m (p + 2)))"
  unfolding bytes_disjunctive mask_numerals
  by (rule bit_word_eqI; auto simp: rd32_def bit_simps dest: bit_imp_le_length)+

lemma rd32_be_rd32: "rd32_be m p = rd32 (\<lambda>i. m (p + 3 - i)) 0"
  unfolding rd32_be_def rd32_def by (simp add: or.assoc or.commute or.left_commute)

lemma rd32_be_sum:
  "rd32_be m p = push_bit 24 (ucast (m p)) + push_bit 16 (ucast (m (p + 1)))
     + push_bit 8 (ucast (m (p + 2))) + ucast (m (p + 3))"
  unfolding rd32_be_rd32 rd32_sum by (simp add: ac_simps)

lemma mask_numerals_be:
  "(0xff000000 :: u32) = push_bit 24 (mask 8)" "(0xffff0000 :: u32) = push_bit 16 (mask 16)"
  "(0xffffff00 :: u32) = push_bit 8 (mask 24)"
  by (simp_all add: mask_eq_exp_minus_1 push_bit_eq_mult)

lemma be_disjunctive:
  fixes b0 b1 b2 :: u8
  shows "(push_bit 24 (ucast b0) :: u32) + push_bit 16 (ucast b1) = push_bit 24 (ucast b0) OR push_bit 16 (ucast b1)"
    and "(push_bit 24 (ucast b0) OR push_bit 16 (ucast b1) :: u32) + push_bit 8 (ucast b2)
      = (push_bit 24 (ucast b0) OR push_bit 16 (ucast b1)) OR push_bit 8 (ucast b2)"
  by (rule disjunctive_add; auto simp: bit_simps dest: bit_imp_le_length)+

lemma rd32_be_masks:
  "rd32_be m p AND 0xff000000 = push_bit 24 (ucast (m p))"
  "rd32_be m p AND 0xffff0000 = push_bit 24 (ucast (m p)) + push_bit 16 (ucast (m (p + 1)))"
  "rd32_be m p AND 0xffffff00 = push_bit 24 (ucast (m p)) + push_bit 16 (ucast (m (p + 1)))
     + push_bit 8 (ucast (m (p + 2)))"
  unfolding be_disjunctive mask_numerals_be
  by (rule bit_word_eqI; auto simp: rd32_be_def bit_simps dest: bit_imp_le_length)+

section \<open>Every path computes the reference\<close>

lemma le_word_at:
  "word_at le_pos bs i = ucast (byte_or_0 bs i) + push_bit 8 (ucast (byte_or_0 bs (i + 1)))
     + push_bit 16 (ucast (byte_or_0 bs (i + 2))) + push_bit 24 (ucast (byte_or_0 bs (i + 3)))"
  by (simp add: word_at_def le_pos_def)

lemma be_word_at:
  "word_at be_pos bs i = push_bit 24 (ucast (byte_or_0 bs i)) + push_bit 16 (ucast (byte_or_0 bs (i + 1)))
     + push_bit 8 (ucast (byte_or_0 bs (i + 2))) + ucast (byte_or_0 bs (i + 3))"
  by (simp add: word_at_def be_pos_def)

lemma add32_block: "12 < n \<Longrightarrow> add32 m k s = add_block le_pos (key_bytes m k n) s"
  by (simp add: add32_def add_block_def le_word_at byte_or_0_key rd32_sum add.commute split_def)

lemma add16_block: "12 < n \<Longrightarrow> add16 m k s = add_block le_pos (key_bytes m k n) s"
  using add32_block [of n m k s] by (simp add: add16_def add32_def pair16_sum)

lemma add8_block: "12 < n \<Longrightarrow> add8 m k s = add_block le_pos (key_bytes m k n) s"
  using add32_block [of n m k s] by (simp add: add8_def add32_def rd32_sum split_def Let_def ac_simps)

lemma big32_block: "12 < n \<Longrightarrow> big32 m k s = add_block be_pos (key_bytes m k n) s"
  by (simp add: big32_def add_block_def be_word_at byte_or_0_key rd32_be_sum add.commute split_def)

lemma big8_block: "12 < n \<Longrightarrow> big8 m k s = add_block be_pos (key_bytes m k n) s"
  using big32_block [of n m k s] by (simp add: big8_def big32_def rd32_be_sum split_def Let_def ac_simps)

lemma le_12_cases:
  "n \<le> (12 :: nat) \<Longrightarrow> (12 = n \<or> 11 = n \<or> 10 = n \<or> 9 = n) \<or> (8 = n \<or> 7 = n \<or> 6 = n \<or> 5 = n)
    \<or> (4 = n \<or> 3 = n \<or> 2 = n \<or> 1 = n) \<or> 0 = n"
  by arith

lemma tail_block:
  assumes "n \<le> 12"
  shows "(if n = 0 then None else Some (add_block le_pos (key_bytes m k n) (a, b, c))) = tail8 m k n (a, b, c)"
  using le_12_cases [OF assms]
  by (elim disjE) (simp_all add: tail8_def add_block_def le_word_at byte_or_0_key Let_def ac_simps)

lemma tail32_tail8: "n \<le> 12 \<Longrightarrow> tail32 m k n (a, b, c) = tail8 m k n (a, b, c)"
  unfolding tail32_def tail8_def rd32_masks
  unfolding rd32_sum
  by (drule le_12_cases, elim disjE) (simp_all add: Let_def ac_simps)

lemma tail32_sanitized_tail8: "n \<le> 12 \<Longrightarrow> tail32_sanitized m k n (a, b, c) = tail8 m k n (a, b, c)"
  unfolding tail32_sanitized_def tail8_def rd32_sum
  by (drule le_12_cases, elim disjE) (simp_all add: Let_def ac_simps)

lemma tail16_tail8: "n \<le> 12 \<Longrightarrow> tail16 m k n (a, b, c) = tail8 m k n (a, b, c)"
  unfolding tail16_def tail8_def pair16_sum rd16_sum
  unfolding rd32_sum
  by (drule le_12_cases, elim disjE) (simp_all add: Let_def ac_simps)

lemma big_tail_block:
  "n \<le> 12 \<Longrightarrow> big_tail8 m k n (a, b, c)
    = (if n = 0 then None else Some (add_block be_pos (key_bytes m k n) (a, b, c)))"
  by (drule le_12_cases, elim disjE)
    (simp_all add: big_tail8_def add_block_def be_word_at byte_or_0_key Let_def ac_simps)

lemma big_tail32_tail8: "n \<le> 12 \<Longrightarrow> big_tail32 m k n (a, b, c) = big_tail8 m k n (a, b, c)"
  unfolding big_tail32_def big_tail8_def rd32_be_masks
  unfolding rd32_be_sum
  by (drule le_12_cases, elim disjE) (simp_all add: Let_def ac_simps)

lemma run_paths:
  "run_path add8 tail8 m key len s = hash_bytes le_pos (key_bytes m key len) s"
  "run_path add16 tail16 m key len s = hash_bytes le_pos (key_bytes m key len) s"
  "run_path add32 tail32 m key len s = hash_bytes le_pos (key_bytes m key len) s"
  "run_path add32 tail32_sanitized m key len s = hash_bytes le_pos (key_bytes m key len) s"
proof -
  have t: "tail8 m k n s = (if n = 0 then None else Some (add_block le_pos (key_bytes m k n) s))"
    if "n \<le> 12" for k n s
    by (cases s) (simp only: tail_block [OF that])
  show "run_path add8 tail8 m key len s = hash_bytes le_pos (key_bytes m key len) s"
    by (rule run_path_correct, erule add8_block, erule t)
  show "run_path add16 tail16 m key len s = hash_bytes le_pos (key_bytes m key len) s"
    by (rule run_path_correct, erule add16_block, rename_tac k n s, case_tac s, simp only: tail16_tail8 t)
  show "run_path add32 tail32 m key len s = hash_bytes le_pos (key_bytes m key len) s"
    by (rule run_path_correct, erule add32_block, rename_tac k n s, case_tac s, simp only: tail32_tail8 t)
  show "run_path add32 tail32_sanitized m key len s = hash_bytes le_pos (key_bytes m key len) s"
    by (rule run_path_correct, erule add32_block, rename_tac k n s, case_tac s, simp only: tail32_sanitized_tail8 t)
qed

lemma run_paths_big:
  "run_path big8 big_tail8 m key len s = hash_bytes be_pos (key_bytes m key len) s"
  "run_path big32 big_tail32 m key len s = hash_bytes be_pos (key_bytes m key len) s"
proof -
  have t: "big_tail8 m k n s = (if n = 0 then None else Some (add_block be_pos (key_bytes m k n) s))"
    if "n \<le> 12" for k n s
    by (cases s) (simp only: big_tail_block [OF that])
  show "run_path big8 big_tail8 m key len s = hash_bytes be_pos (key_bytes m key len) s"
    by (rule run_path_correct, erule big8_block, erule t)
  show "run_path big32 big_tail32 m key len s = hash_bytes be_pos (key_bytes m key len) s"
    by (rule run_path_correct, erule big32_block, rename_tac k n s, case_tac s, simp only: big_tail32_tail8 t)
qed

lemma hashlittle_bytes:
  "hashlittle cfg m key len iv =
    (let i = 0xdeadbeef + of_nat len + iv in
     snd (snd (hash_bytes le_pos (key_bytes m key len) (i, i, i))))"
  by (simp add: hashlittle_def run_paths Let_def split_def)

lemma hashlittle2_bytes:
  "hashlittle2 cfg m key len pc pb =
    (let i = 0xdeadbeef + of_nat len + pc;
         (a, b, c) = hash_bytes le_pos (key_bytes m key len) (i, i, i + pb) in (c, b))"
  by (simp add: hashlittle2_def run_paths Let_def split_def)

lemma hashbig_bytes:
  "hashbig cfg m key len iv =
    (let i = 0xdeadbeef + of_nat len + iv in
     snd (snd (hash_bytes be_pos (key_bytes m key len) (i, i, i))))"
  by (simp add: hashbig_def run_paths_big Let_def split_def)

section \<open>Words and bytes\<close>

definition key_words :: "mem \<Rightarrow> nat \<Rightarrow> nat \<Rightarrow> u32 list" where
  "key_words m p n = map (\<lambda>i. rd32 m (p + 4 * i)) [0..<n]"

lemma length_key_words [simp]: "length (key_words m p n) = n"
  by (simp add: key_words_def)

lemma key_words_nth: "i < n \<Longrightarrow> key_words m p n ! i = rd32 m (p + 4 * i)"
  by (simp add: key_words_def)

lemma drop_key_words: "drop 3 (key_words m p n) = key_words m (p + 12) (n - 3)"
  by (rule nth_equalityI) (simp_all add: key_words_nth algebra_simps)

lemma hash_words_bytes:
  "hashword_loop (key_words m p n) s = hash_bytes le_pos (key_bytes m p (4 * n)) s"
proof (induction n arbitrary: p s rule: less_induct)
  case (less n)
  obtain a b c where s: "s = (a, b, c)" by (cases s)
  have w: "word_at le_pos (key_bytes m p (4 * n)) (4 * i) = (if i < n then rd32 m (p + 4 * i) else 0)" for i
    by (simp add: le_word_at byte_or_0_key rd32_sum add.assoc)
  note w0 = w [of 0, simplified] and w1 = w [of 1, simplified] and w2 = w [of 2, simplified]
  show ?case
  proof (cases "n > 3")
    case True
    have "hashword_loop (key_words m p n) s
        = hashword_loop (key_words m (p + 12) (n - 3)) (mix (a + rd32 m p, b + rd32 m (p + 4), c + rd32 m (p + 8)))"
      using True by (subst hashword_loop.simps [of _ a b c, folded s]) (simp add: drop_key_words key_words_nth)
    also have "\<dots> = hash_bytes le_pos (key_bytes m (p + 12) (4 * (n - 3)))
        (mix (a + rd32 m p, b + rd32 m (p + 4), c + rd32 m (p + 8)))"
      using True by (intro less.IH) simp
    also have "\<dots> = hash_bytes le_pos (key_bytes m p (4 * n)) s"
      using True by (subst (2) hash_bytes.simps)
        (simp add: s drop_key_bytes add_block_def w0 w1 w2 diff_mult_distrib2)
    finally show ?thesis .
  next
    case False
    then consider "n = 0" | "n = 1" | "n = 2" | "n = 3" by linarith
    then show ?thesis
      by cases (use w0 w1 w2 in \<open>simp_all add: s hashword_loop.simps hash_bytes.simps add_block_def key_words_nth\<close>)
  qed
qed

section \<open>Mixing loses nothing\<close>

text \<open>One third of a half of \<^const>\<open>mix\<close>, with the three words rotated.\<close>

definition rnd :: "nat \<Rightarrow> hst \<Rightarrow> hst" where
  "rnd k = (\<lambda>(x, y, z). (y, z + y, (x - z) XOR rot z k))"

lemma mix_rounds: "mix s = rnd 4 (rnd 19 (rnd 16 (rnd 8 (rnd 6 (rnd 4 s)))))"
  by (cases s) (simp add: mix_def rnd_def Let_def)

lemma bij_rnd: "bij (rnd k)"
proof (rule bij_betw_byWitness [where f' = "\<lambda>(y, z', x'). ((x' XOR rot (z' - y) k) + (z' - y), y, z' - y)"])
  show "\<forall>a\<in>UNIV. (\<lambda>(y, z', x'). ((x' XOR rot (z' - y) k) + (z' - y), y, z' - y)) (rnd k a) = a"
    by (simp add: rnd_def split_def xor.assoc)
  show "\<forall>a'\<in>UNIV. rnd k ((\<lambda>(y, z', x'). ((x' XOR rot (z' - y) k) + (z' - y), y, z' - y)) a') = a'"
    by (simp add: rnd_def split_def xor.assoc)
qed simp_all

lemma bij_mix: "bij mix"
proof -
  have *: "mix = rnd 4 \<circ> rnd 19 \<circ> rnd 16 \<circ> rnd 8 \<circ> rnd 6 \<circ> rnd 4"
    by (simp add: fun_eq_iff mix_rounds)
  show ?thesis unfolding * by (intro bij_comp bij_rnd)
qed

section \<open>Properties\<close>

text \<open>C19: The hash of a key is a function of its bytes alone: two keys with the same bytes have the
  same \<^const>\<open>hashlittle\<close> value, at whatever addresses they are stored, whatever bytes follow them
  in memory, and whichever of the four ways to read them the alignment and the build select.\<close>

theorem hashlittle_depends_on_bytes:
  assumes "key_bytes m k n = key_bytes m' k' n"
  shows "hashlittle cfg m k n iv = hashlittle cfg' m' k' n iv"
  by (simp add: hashlittle_bytes assms)

theorem hashlittle_depends_on_bytes_witness:
  "key_bytes (\<lambda>i. of_nat i) 8 3 = key_bytes (\<lambda>i. if i < 12 then of_nat (i - 1) else 0xff) 9 3
    \<and> hashlittle \<lparr> HASH_LITTLE_ENDIAN = True, HASH_BIG_ENDIAN = False, SANITIZE = False \<rparr> (\<lambda>i. of_nat i) 8 3 1
      = hashlittle \<lparr> HASH_LITTLE_ENDIAN = False, HASH_BIG_ENDIAN = False, SANITIZE = True \<rparr>
          (\<lambda>i. if i < 12 then of_nat (i - 1) else 0xff) 9 3 1"
proof -
  have "key_bytes (\<lambda>i. of_nat i) 8 3 = key_bytes (\<lambda>i. if i < 12 then of_nat (i - 1) else 0xff) 9 3"
    by (simp add: key_bytes_def upt_rec numeral_3_eq_3)
  then show ?thesis using hashlittle_depends_on_bytes by blast
qed

text \<open>\<^const>\<open>hashlittle2\<close> with a zero second seed gives \<^const>\<open>hashlittle\<close> as its first value, and
  \<^const>\<open>hashword\<close> and \<^const>\<open>hashword2\<close> of the words of a key are \<^const>\<open>hashlittle\<close> and
  \<^const>\<open>hashlittle2\<close> of its bytes, as the comments of the source promise.\<close>

theorem hash_variants_agree:
  "fst (hashlittle2 cfg m k n iv 0) = hashlittle cfg' m k n iv
    \<and> hashword (key_words m k l) iv = hashlittle cfg m k (4 * l) iv
    \<and> hashword2 (key_words m k l) pc pb = hashlittle2 cfg m k (4 * l) pc pb"
proof -
  have "(push_bit 2 (of_nat l) :: u32) = of_nat (4 * l)"
    by (simp add: push_bit_eq_mult)
  moreover have "(ucast (push_bit 2 (of_nat l :: u64)) :: u32) = of_nat (4 * l)"
  proof -
    have "push_bit 2 (of_nat l :: u64) = of_nat (4 * l)" by (simp add: push_bit_eq_mult)
    then show ?thesis
      by (simp only:) (rule bit_word_eqI, auto simp: bit_simps simp del: of_nat_mult)
  qed
  ultimately show ?thesis
    by (simp add: hashlittle2_bytes hashlittle_bytes hashword_def hashword2_def hash_words_bytes
      Let_def split_def del: of_nat_mult)
qed

text \<open>\<^const>\<open>mix\<close> is reversible: no two different states of three words are mixed to the same.\<close>

theorem mix_reversible: "bij mix"
  by (rule bij_mix)

text \<open>\<^const>\<open>hashbig\<close>, like \<^const>\<open>hashlittle\<close>, is a function of the bytes of the key alone, for every
  alignment and every byte order of the machine.\<close>

theorem hashbig_depends_on_bytes:
  assumes "key_bytes m k n = key_bytes m' k' n"
  shows "hashbig cfg m k n iv = hashbig cfg' m' k' n iv"
  by (simp add: hashbig_bytes assms)

theorem hashbig_depends_on_bytes_witness:
  "key_bytes (\<lambda>i. 7) 8 3 = key_bytes (\<lambda>i. 7) 9 3
    \<and> hashbig \<lparr> HASH_LITTLE_ENDIAN = False, HASH_BIG_ENDIAN = True, SANITIZE = False \<rparr> (\<lambda>i. 7) 8 3 1
      = hashbig \<lparr> HASH_LITTLE_ENDIAN = True, HASH_BIG_ENDIAN = False, SANITIZE = True \<rparr> (\<lambda>i. 7) 9 3 1"
proof -
  have "key_bytes (\<lambda>i. 7) 8 3 = key_bytes (\<lambda>i. 7) 9 3"
    by (simp add: key_bytes_def map_replicate_const)
  then show ?thesis using hashbig_depends_on_bytes by blast
qed

end
