(* ===== verification/Murmur.thy ===== *)
theory Murmur
  imports Lookup3
begin

text \<open>
  The Murmur hash functions of \<open>src/io/jbpf_io_hash.h\<close>, over the byte memory of \<^theory_text>\<open>Lookup3\<close>;
  \<open>MurmurHash64A\<close> is the hash of the tables of codelet sets, maps and I/O channels.  The machine is
  little-endian, and lengths are not negative.
\<close>

section \<open>The functions\<close>

definition rd64 :: "mem \<Rightarrow> nat \<Rightarrow> u64" where
  "rd64 m p = ucast (m p) OR push_bit 8 (ucast (m (p + 1))) OR push_bit 16 (ucast (m (p + 2)))
     OR push_bit 24 (ucast (m (p + 3))) OR push_bit 32 (ucast (m (p + 4)))
     OR push_bit 40 (ucast (m (p + 5))) OR push_bit 48 (ucast (m (p + 6)))
     OR push_bit 56 (ucast (m (p + 7)))"

definition rotl32 :: "u32 \<Rightarrow> nat \<Rightarrow> u32" where
  "rotl32 x r = push_bit r x OR drop_bit (32 - r) x"

definition getblock :: "mem \<Rightarrow> nat \<Rightarrow> int \<Rightarrow> u32" where
  "getblock m p i = rd32 m (nat (int p + 4 * i))"

definition fmix :: "u32 \<Rightarrow> u32" where
  "fmix h = (let h = h XOR drop_bit 16 h; h = h * 0x85ebca6b;
                 h = h XOR drop_bit 13 h; h = h * 0xc2b2ae35;
                 h = h XOR drop_bit 16 h in h)"

text \<open>One block of \<open>MurmurHash3_x86_32\<close>, and its loop from block \<open>i\<close> up to 0.\<close>

definition mm3_scramble :: "u32 \<Rightarrow> u32" where
  "mm3_scramble k1 = rotl32 (k1 * 0xcc9e2d51) 15 * 0x1b873593"

primrec mm3_body :: "mem \<Rightarrow> nat \<Rightarrow> nat \<Rightarrow> u32 \<Rightarrow> u32" where
  "mm3_body m blocks 0 h1 = h1"
| "mm3_body m blocks (Suc n) h1 =
    (let k1 = mm3_scramble (getblock m blocks (- int (Suc n)));
         h1 = h1 XOR k1; h1 = rotl32 h1 13; h1 = h1 * 5 + 0xe6546b64
     in mm3_body m blocks n h1)"

definition MurmurHash3_x86_32 :: "mem \<Rightarrow> nat \<Rightarrow> nat \<Rightarrow> u32 \<Rightarrow> u32" where
  "MurmurHash3_x86_32 m key len seed =
    (let nblocks = len div 4;
         h1 = mm3_body m (key + nblocks * 4) nblocks seed;
         t = key + nblocks * 4;
         k1 = 0;
         k1 = (if len mod 4 \<ge> 3 then k1 XOR push_bit 16 (ucast (m (t + 2))) else k1);
         k1 = (if len mod 4 \<ge> 2 then k1 XOR push_bit 8 (ucast (m (t + 1))) else k1);
         h1 = (if len mod 4 \<ge> 1 then h1 XOR mm3_scramble (k1 XOR ucast (m t)) else h1);
         h1 = h1 XOR of_nat len
     in fmix h1)"

definition MURMUR_M :: u64 where
  "MURMUR_M = 0xc6a4a7935bd1e995"

definition mm64_scramble :: "u64 \<Rightarrow> u64" where
  "mm64_scramble k = (let k = k * MURMUR_M; k = k XOR drop_bit 47 k in k * MURMUR_M)"

text \<open>The loop over the blocks of eight bytes; an aligned block is read at once and another by a
  \<open>memcpy\<close>, with the same value.\<close>

primrec mm64a_body :: "mem \<Rightarrow> nat \<Rightarrow> nat \<Rightarrow> u64 \<Rightarrow> u64" where
  "mm64a_body m data 0 h = h"
| "mm64a_body m data (Suc n) h =
    mm64a_body m (data + 8) n ((h XOR mm64_scramble (rd64 m data)) * MURMUR_M)"

definition mm64a_finish :: "u64 \<Rightarrow> u64" where
  "mm64a_finish h = (let h = h XOR drop_bit 47 h; h = h * MURMUR_M in h XOR drop_bit 47 h)"

definition MurmurHash64A :: "mem \<Rightarrow> nat \<Rightarrow> nat \<Rightarrow> u64 \<Rightarrow> u64" where
  "MurmurHash64A m key len seed =
    (let h = mm64a_body m key (len div 8) (seed XOR (of_nat len * MURMUR_M));
         d = key + 8 * (len div 8); r = len mod 8;
         h = (if r \<ge> 7 then h XOR push_bit 48 (ucast (m (d + 6))) else h);
         h = (if r \<ge> 6 then h XOR push_bit 40 (ucast (m (d + 5))) else h);
         h = (if r \<ge> 5 then h XOR push_bit 32 (ucast (m (d + 4))) else h);
         h = (if r \<ge> 4 then h XOR push_bit 24 (ucast (m (d + 3))) else h);
         h = (if r \<ge> 3 then h XOR push_bit 16 (ucast (m (d + 2))) else h);
         h = (if r \<ge> 2 then h XOR push_bit 8 (ucast (m (d + 1))) else h);
         h = (if r \<ge> 1 then (h XOR ucast (m d)) * MURMUR_M else h)
     in mm64a_finish h)"

definition mm64b_scramble :: "u32 \<Rightarrow> u32" where
  "mm64b_scramble k = (let k = k * 0x5bd1e995; k = k XOR drop_bit 24 k in k * 0x5bd1e995)"

fun mm64b_body :: "mem \<Rightarrow> nat \<Rightarrow> nat \<Rightarrow> u32 \<times> u32 \<Rightarrow> nat \<times> nat \<times> u32 \<times> u32" where
  "mm64b_body m data len (h1, h2) =
    (if len \<ge> 8 then
       mm64b_body m (data + 8) (len - 8)
         ((h1 * 0x5bd1e995) XOR mm64b_scramble (rd32 m data),
          (h2 * 0x5bd1e995) XOR mm64b_scramble (rd32 m (data + 4)))
     else (data, len, h1, h2))"

declare mm64b_body.simps [simp del]

definition MurmurHash64B :: "mem \<Rightarrow> nat \<Rightarrow> nat \<Rightarrow> u64 \<Rightarrow> u64" where
  "MurmurHash64B m key len seed =
    (let h1 = ucast seed XOR of_nat len; h2 = ucast (drop_bit 32 seed);
         (d, l, h1, h2) = mm64b_body m key len (h1, h2);
         (d, l, h1) = (if l \<ge> 4 then (d + 4, l - 4, (h1 * 0x5bd1e995) XOR mm64b_scramble (rd32 m d))
                       else (d, l, h1));
         h2 = (if l \<ge> 3 then h2 XOR push_bit 16 (ucast (m (d + 2))) else h2);
         h2 = (if l \<ge> 2 then h2 XOR push_bit 8 (ucast (m (d + 1))) else h2);
         h2 = (if l \<ge> 1 then (h2 XOR ucast (m d)) * 0x5bd1e995 else h2);
         h1 = (h1 XOR drop_bit 18 h2) * 0x5bd1e995;
         h2 = (h2 XOR drop_bit 22 h1) * 0x5bd1e995;
         h1 = (h1 XOR drop_bit 17 h2) * 0x5bd1e995;
         h2 = (h2 XOR drop_bit 19 h1) * 0x5bd1e995
     in push_bit 32 (ucast h1) OR ucast h2)"

section \<open>Functions of the bytes\<close>

lemma key_bytes_eq_iff:
  "key_bytes m k n = key_bytes m' k' n \<longleftrightarrow> (\<forall>i<n. m (k + i) = m' (k' + i))"
  by (auto simp: list_eq_iff_nth_eq key_bytes_def)

lemma rd64_cong:
  assumes "\<And>i. i < 8 \<Longrightarrow> m (p + i) = m' (p' + i)"
  shows "rd64 m p = rd64 m' p'"
  using assms [of 0] assms [of 1] assms [of 2] assms [of 3] assms [of 4] assms [of 5] assms [of 6] assms [of 7]
  by (simp add: rd64_def)

lemma rd32_cong:
  assumes "\<And>i. i < 4 \<Longrightarrow> m (p + i) = m' (p' + i)"
  shows "rd32 m p = rd32 m' p'"
  using assms [of 0] assms [of 1] assms [of 2] assms [of 3]
  by (simp add: rd32_def)

lemma mm64a_body_cong:
  assumes "\<And>i. i < 8 * n \<Longrightarrow> m (p + i) = m' (p' + i)"
  shows "mm64a_body m p n h = mm64a_body m' p' n h"
  using assms
proof (induction n arbitrary: p p' h)
  case (Suc n)
  have "rd64 m p = rd64 m' p'"
    using Suc.prems by (intro rd64_cong) simp
  moreover have "mm64a_body m (p + 8) n g = mm64a_body m' (p' + 8) n g" for g
    using Suc.prems [of "8 + _"] by (intro Suc.IH) (simp add: add.assoc)
  ultimately show ?case by simp
qed simp

lemma mm3_body_cong:
  assumes "\<And>i. i < 4 * n \<Longrightarrow> m (p + i) = m' (p' + i)"
  shows "mm3_body m (p + 4 * n) n h = mm3_body m' (p' + 4 * n) n h"
  using assms
proof (induction n arbitrary: p p' h)
  case (Suc n)
  have "getblock m (p + 4 * Suc n) (- int (Suc n)) = getblock m' (p' + 4 * Suc n) (- int (Suc n))"
    using Suc.prems by (simp add: getblock_def) (rule rd32_cong, simp)
  moreover have "mm3_body m (p + 4 * Suc n) n g = mm3_body m' (p' + 4 * Suc n) n g" for g
    using Suc.prems [of "4 + _"] Suc.IH [of "p + 4" "p' + 4" g] by (simp add: add.assoc)
  ultimately show ?case by (simp del: mult_Suc_right)
qed simp

lemma mm64b_body_cong:
  assumes "\<And>i. i < len \<Longrightarrow> m (p + i) = m' (p' + i)"
  shows "\<exists>j r h1' h2'. mm64b_body m p len (h1, h2) = (p + j, r, h1', h2') \<and>
    mm64b_body m' p' len (h1, h2) = (p' + j, r, h1', h2') \<and> j + r = len"
  using assms
proof (induction len arbitrary: p p' h1 h2 rule: less_induct)
  case (less len)
  show ?case
  proof (cases "len \<ge> 8")
    case True
    have a: "rd32 m p = rd32 m' p'" "rd32 m (p + 4) = rd32 m' (p' + 4)"
      using less.prems [of "4 + _"] less.prems True by (auto intro!: rd32_cong simp: add.assoc)
    obtain j r g1 g2 where
      "mm64b_body m (p + 8) (len - 8) ((h1 * 0x5bd1e995) XOR mm64b_scramble (rd32 m p),
          (h2 * 0x5bd1e995) XOR mm64b_scramble (rd32 m (p + 4))) = (p + 8 + j, r, g1, g2)"
      "mm64b_body m' (p' + 8) (len - 8) ((h1 * 0x5bd1e995) XOR mm64b_scramble (rd32 m p),
          (h2 * 0x5bd1e995) XOR mm64b_scramble (rd32 m (p + 4))) = (p' + 8 + j, r, g1, g2)"
      "j + r = len - 8"
      using less.IH [of "len - 8" "p + 8" "p' + 8"] less.prems [of "8 + _"] True
      by (force simp: add.assoc)
    then show ?thesis
      using True a by (intro exI [of _ "8 + j"] exI [of _ r] exI [of _ g1] exI [of _ g2])
        (simp add: mm64b_body.simps [of _ _ len] add.assoc)
  next
    case False
    then show ?thesis by (simp add: mm64b_body.simps)
  qed
qed

lemma murmur64a_cong:
  assumes eq: "\<And>i. i < len \<Longrightarrow> m (p + i) = m' (p' + i)"
  shows "MurmurHash64A m p len seed = MurmurHash64A m' p' len seed"
proof -
  have body: "mm64a_body m p (len div 8) h = mm64a_body m' p' (len div 8) h" for h
    by (rule mm64a_body_cong, rule eq) (erule less_le_trans, simp)
  have tail: "m (p + 8 * (len div 8) + i) = m' (p' + 8 * (len div 8) + i)" if "i < len mod 8" for i
    using eq [of "8 * (len div 8) + i"] that by (simp add: add.assoc) (metis add.commute mod_mult_div_eq nat_add_left_cancel_less)
  show ?thesis
    using tail [of 0] tail [of 1] tail [of 2] tail [of 3] tail [of 4] tail [of 5] tail [of 6]
    unfolding MurmurHash64A_def Let_def body by (auto split: if_splits)
qed

lemma murmur3_cong:
  assumes eq: "\<And>i. i < len \<Longrightarrow> m (p + i) = m' (p' + i)"
  shows "MurmurHash3_x86_32 m p len seed = MurmurHash3_x86_32 m' p' len seed"
proof -
  have body: "mm3_body m (p + len div 4 * 4) (len div 4) h = mm3_body m' (p' + len div 4 * 4) (len div 4) h" for h
    unfolding mult.commute [of _ 4]
    by (rule mm3_body_cong, rule eq) (erule less_le_trans, simp)
  have tail: "m (p + len div 4 * 4 + i) = m' (p' + len div 4 * 4 + i)" if "i < len mod 4" for i
    using eq [of "len div 4 * 4 + i"] that by (simp add: add.assoc) (metis div_mod_decomp nat_add_left_cancel_less)
  show ?thesis
    using tail [of 0] tail [of 1] tail [of 2]
    unfolding MurmurHash3_x86_32_def Let_def body by (auto split: if_splits)
qed

lemma murmur64b_cong:
  assumes eq: "\<And>i. i < len \<Longrightarrow> m (p + i) = m' (p' + i)"
  shows "MurmurHash64B m p len seed = MurmurHash64B m' p' len seed"
proof -
  obtain j r h1 h2 where b:
    "mm64b_body m p len (ucast seed XOR of_nat len, ucast (drop_bit 32 seed)) = (p + j, r, h1, h2)"
    "mm64b_body m' p' len (ucast seed XOR of_nat len, ucast (drop_bit 32 seed)) = (p' + j, r, h1, h2)"
    "j + r = len"
    using mm64b_body_cong [of len m p m' p'] eq by metis
  have tail: "m (p + j + i) = m' (p' + j + i)" if "i < r" for i
    using eq [of "j + i"] that b(3) by (simp add: add.assoc)
  show ?thesis
  proof (cases "4 \<le> r")
    case True
    have w: "rd32 m (p + j) = rd32 m' (p' + j)"
      using tail True by (intro rd32_cong) simp
    have t: "m (p + j + 4 + i) = m' (p' + j + 4 + i)" if "i < r - 4" for i
      using tail [of "4 + i"] that by (simp add: add.assoc)
    show ?thesis
      using w t [of 0] t [of 1] t [of 2] unfolding MurmurHash64B_def Let_def b
      by (cases "3 \<le> r - 4"; cases "2 \<le> r - 4"; cases "1 \<le> r - 4") (simp_all add: True)
  next
    case False
    then show ?thesis
      using tail [of 0] tail [of 1] tail [of 2] unfolding MurmurHash64B_def Let_def b
      by (cases "3 \<le> r"; cases "2 \<le> r"; cases "1 \<le> r") simp_all
  qed
qed



section \<open>Collisions\<close>

lemma xorshift_inj:
  fixes x y :: "'a::len word"
  assumes "0 < n" and "x XOR drop_bit n x = y XOR drop_bit n y"
  shows "x = y"
proof (rule bit_word_eqI)
  have step: "bit x i \<noteq> bit x (i + n) \<longleftrightarrow> bit y i \<noteq> bit y (i + n)" for i
    using arg_cong [OF assms(2), of "\<lambda>w. bit w i"] by (simp add: bit_xor_iff bit_drop_bit_eq add.commute)
  have "bit x i = bit y i" if "LENGTH('a) - i \<le> d" for i d
    using that
  proof (induction d arbitrary: i)
    case 0
    then show ?case by (auto dest: bit_imp_le_length)
  next
    case (Suc d)
    show ?case
    proof (cases "LENGTH('a) \<le> i")
      case True
      then show ?thesis by (auto dest: bit_imp_le_length)
    next
      case False
      then have "bit x (i + n) = bit y (i + n)"
        using Suc assms(1) by simp
      then show ?thesis using step [of i] by blast
    qed
  qed
  then show "bit x i = bit y i" for i by blast
qed

lemma xor_left_cancel:
  fixes a x y :: "'a::len word"
  assumes "a XOR x = a XOR y"
  shows "x = y"
proof -
  have "a XOR (a XOR x) = a XOR (a XOR y)" using assms by simp
  then show ?thesis by (simp add: xor.assoc [symmetric])
qed

lemma mult_unit_inj:
  fixes x y c d :: "'a::len word"
  assumes "c * d = 1" and "x * c = y * c"
  shows "x = y"
  by (metis assms mult.assoc mult.right_neutral)

lemma MURMUR_M_inj: "x * MURMUR_M = y * MURMUR_M \<Longrightarrow> x = y"
  by (rule mult_unit_inj [of _ "0x5f7a0ea7e59b19bd"]) (simp_all add: MURMUR_M_def)

lemma fmix_inj: "fmix x = fmix y \<Longrightarrow> x = y"
  unfolding fmix_def Let_def
  by (drule xorshift_inj [rotated], simp, drule mult_unit_inj [rotated, of _ "0xc2b2ae35" _ "0x7ed1b41d"], simp,
      drule xorshift_inj [rotated], simp, drule mult_unit_inj [rotated, of _ "0x85ebca6b" _ "0xa5cb9243"], simp,
      drule xorshift_inj [rotated], simp, assumption)

lemma mm64_scramble_inj: "mm64_scramble x = mm64_scramble y \<Longrightarrow> x = y"
  unfolding mm64_scramble_def Let_def
  by (drule MURMUR_M_inj, drule xorshift_inj [rotated], simp, drule MURMUR_M_inj, assumption)

lemma mm64a_finish_inj: "mm64a_finish x = mm64a_finish y \<Longrightarrow> x = y"
  unfolding mm64a_finish_def Let_def
  by (drule xorshift_inj [rotated], simp, drule MURMUR_M_inj, drule xorshift_inj [rotated], simp, assumption)

lemma u8_bit_high: "8 \<le> j \<Longrightarrow> \<not> bit (w :: u8) j"
  by (auto dest: bit_imp_le_length)

lemma rd64_bits:
  assumes "i < 8" and "j < 8"
  shows "bit (rd64 m p) (8 * i + j) = bit (m (p + i)) j"
proof -
  have "i = 0 \<or> i = 1 \<or> i = 2 \<or> i = 3 \<or> i = 4 \<or> i = 5 \<or> i = 6 \<or> i = 7"
    using assms(1) by linarith
  then show ?thesis
    using assms(2)
    by (elim disjE) (simp_all add: rd64_def bit_or_iff bit_push_bit_iff bit_ucast_iff u8_bit_high)
qed

lemma rd64_inj:
  assumes "rd64 m p = rd64 m' p'" and "i < 8"
  shows "m (p + i) = m' (p' + i)"
proof (rule bit_word_eqI)
  fix j assume "j < LENGTH(8)"
  then show "bit (m (p + i)) j = bit (m' (p' + i)) j"
    using rd64_bits [of i j m p] rd64_bits [of i j m' p'] assms by simp
qed

text \<open>\<open>MurmurHash64A\<close> has no collision among keys of eight bytes, for any seed: the multiplier is
  odd and the shifted exclusive-or is invertible, so the hash is a bijection of the 64-bit block.\<close>

theorem murmur64a_no_collision_8:
  assumes "MurmurHash64A m k 8 seed = MurmurHash64A m' k' 8 seed"
  shows "key_bytes m k 8 = key_bytes m' k' 8"
proof -
  have "MurmurHash64A m k 8 seed
      = mm64a_finish (((seed XOR (8 * MURMUR_M)) XOR mm64_scramble (rd64 m k)) * MURMUR_M)" for m k
    by (simp add: MurmurHash64A_def Let_def)
  with assms have "(seed XOR (8 * MURMUR_M)) XOR mm64_scramble (rd64 m k)
      = (seed XOR (8 * MURMUR_M)) XOR mm64_scramble (rd64 m' k')"
    by (metis mm64a_finish_inj MURMUR_M_inj)
  then have "mm64_scramble (rd64 m k) = mm64_scramble (rd64 m' k')"
    by (rule xor_left_cancel)
  then have "rd64 m k = rd64 m' k'" by (rule mm64_scramble_inj)
  then show ?thesis
    unfolding key_bytes_eq_iff using rd64_inj by blast
qed

text \<open>The hypothesis at a concrete input: a key and its copy at another address.\<close>

theorem murmur64a_no_collision_8_witness:
  "key_bytes of_nat 3 8 = key_bytes (\<lambda>a. of_nat (a - 16)) 19 8"
proof -
  have "rd64 of_nat 3 = rd64 (\<lambda>a. of_nat (a - 16)) 19"
    by (simp add: rd64_def)
  then have "MurmurHash64A of_nat 3 8 0 = MurmurHash64A (\<lambda>a. of_nat (a - 16)) 19 8 0"
    by (simp add: MurmurHash64A_def Let_def)
  then show ?thesis by (rule murmur64a_no_collision_8)
qed

end
