(* ===== verification/Bpf_Map.thy ===== *)
theory Bpf_Map
  imports Lookup3
begin

text \<open>
  The contract of the maps codelets keep their state in, and what a sequence of map operations does
  under it.  A map is created from a definition, holds byte strings under byte string keys, and
  answers with the codes of \<open>src/core/jbpf_helper_api_defs.h\<close>.  The array map and the hash
  map for one thread of \<open>src/core\<close> provide the contract; the calls of codelets are its client.
\<close>

definition JBPF_MAP_SUCCESS :: int where
  "JBPF_MAP_SUCCESS = 0"

definition JBPF_MAP_ERROR :: int where
  "JBPF_MAP_ERROR = - 1"

definition JBPF_MAP_BUSY :: int where
  "JBPF_MAP_BUSY = - 2"

definition JBPF_MAP_FULL :: int where
  "JBPF_MAP_FULL = - 4"

lemmas map_codes = JBPF_MAP_SUCCESS_def JBPF_MAP_ERROR_def JBPF_MAP_BUSY_def JBPF_MAP_FULL_def

text \<open>The definition of a map as it stands in an object file.\<close>

record jbpf_load_map_def =
  md_type :: nat
  md_key_size :: u32
  md_value_size :: u32
  md_max_entries :: u32

text \<open>A history of operations on a map, and what it means for the contents.\<close>

datatype map_op = Map_Update bytes bytes | Map_Reset bytes | Map_Clear

type_synonym contents = "bytes \<Rightarrow> bytes option"

fun abs_op :: "(contents \<Rightarrow> bytes \<Rightarrow> bool) \<Rightarrow> bytes \<Rightarrow> contents \<Rightarrow> map_op \<Rightarrow> contents \<Rightarrow> contents" where
  "abs_op accepts zero initial (Map_Update k v) m = (if accepts m k then m(k \<mapsto> v) else m)"
| "abs_op accepts zero initial (Map_Reset k) m = (if m k = None then m else m(k \<mapsto> zero))"
| "abs_op accepts zero initial Map_Clear m = initial"

primrec op_ok :: "(bytes \<Rightarrow> bool) \<Rightarrow> (bytes \<Rightarrow> bool) \<Rightarrow> map_op \<Rightarrow> bool" where
  "op_ok keyok valok (Map_Update k v) = (keyok k \<and> valok v)"
| "op_ok keyok valok (Map_Reset k) = keyok k"
| "op_ok keyok valok Map_Clear = True"

text \<open>\<open>lookup\<close> gives the value at the pointer the map returns, \<open>reset\<close> whether there was one; an
  outer \<^const>\<open>None\<close> is a memory fault.\<close>

locale bpf_map =
  fixes invar :: "'s \<Rightarrow> bool"
    and contents :: "'s \<Rightarrow> bytes \<Rightarrow> bytes option"
    and lookup :: "'s \<Rightarrow> bytes \<Rightarrow> bytes option option"
    and update :: "'s \<Rightarrow> bytes \<Rightarrow> bytes \<Rightarrow> (int \<times> 's) option"
    and reset :: "'s \<Rightarrow> bytes \<Rightarrow> (bool \<times> 's) option"
    and clear :: "'s \<Rightarrow> (int \<times> 's) option"
    and keyok :: "bytes \<Rightarrow> bool"
    and valok :: "bytes \<Rightarrow> bool"
    and accepts :: "(bytes \<Rightarrow> bytes option) \<Rightarrow> bytes \<Rightarrow> bool"
    and refused :: int
    and zero :: bytes
    and initial :: "bytes \<Rightarrow> bytes option"
  assumes lookup_law: "invar s \<Longrightarrow> keyok k \<Longrightarrow> lookup s k = Some (contents s k)"
    and update_law: "invar s \<Longrightarrow> keyok k \<Longrightarrow> valok v \<Longrightarrow>
      \<exists>s'. update s k v = Some (if accepts (contents s) k then 0 else refused, s') \<and> invar s'
        \<and> contents s' = (if accepts (contents s) k then (contents s)(k \<mapsto> v) else contents s)"
    and reset_law: "invar s \<Longrightarrow> keyok k \<Longrightarrow>
      \<exists>s'. reset s k = Some (contents s k \<noteq> None, s') \<and> invar s'
        \<and> contents s' = (if contents s k = None then contents s else (contents s)(k \<mapsto> zero))"
    and clear_law: "invar s \<Longrightarrow> \<exists>s'. clear s = Some (0, s') \<and> invar s' \<and> contents s' = initial"
begin

fun exec_op :: "map_op \<Rightarrow> 's \<Rightarrow> 's option" where
  "exec_op (Map_Update k v) s = map_option snd (update s k v)"
| "exec_op (Map_Reset k) s = map_option snd (reset s k)"
| "exec_op Map_Clear s = map_option snd (clear s)"

primrec exec_ops :: "map_op list \<Rightarrow> 's \<Rightarrow> 's option" where
  "exec_ops [] s = Some s"
| "exec_ops (p # ps) s = do { s' \<leftarrow> exec_op p s; exec_ops ps s' }"

lemma exec_op_sound:
  assumes "invar s" "op_ok keyok valok p"
  shows "\<exists>s'. exec_op p s = Some s' \<and> invar s' \<and> contents s' = abs_op accepts zero initial p (contents s)"
proof (cases p)
  case (Map_Update k v)
  then show ?thesis using update_law [OF assms(1), of k v] assms(2) by auto
next
  case (Map_Reset k)
  then show ?thesis using reset_law [OF assms(1), of k] assms(2) by auto
next
  case Map_Clear
  then show ?thesis using clear_law [OF assms(1)] by auto
qed

lemma exec_ops_sound:
  assumes "invar s" "list_all (op_ok keyok valok) ps"
  shows "\<exists>s'. exec_ops ps s = Some s' \<and> invar s'
    \<and> contents s' = fold (abs_op accepts zero initial) ps (contents s)"
  using assms
proof (induction ps arbitrary: s)
  case (Cons p ps)
  obtain s1 where "exec_op p s = Some s1" "invar s1" "contents s1 = abs_op accepts zero initial p (contents s)"
    using exec_op_sound [of s p] Cons.prems by auto
  then show ?case using Cons.IH [of s1] Cons.prems by auto
qed simp

text \<open>A lookup after a history gives what the history left under the key.\<close>

lemma lookup_after:
  assumes "invar s" "list_all (op_ok keyok valok) ps" "keyok k"
  shows "\<exists>s'. exec_ops ps s = Some s'
    \<and> lookup s' k = Some (fold (abs_op accepts zero initial) ps (contents s) k)"
  using exec_ops_sound [OF assms(1,2)] lookup_law [OF _ assms(3)] by fastforce

end

end
