(* ===== verification/Array_Map.thy ===== *)
theory Array_Map
  imports Bpf_Map
begin

text \<open>
  The array maps of \<open>src/core/jbpf_bpf_array.h\<close>: entries of a fixed size, one after the other in one
  block of memory, under 32 bit indices.  The offset of an entry is computed in 32 bits, which is what
  the bound of the invariant is about.
\<close>

record array_map =
  am_value_size :: u32
  am_max_entries :: u32
  am_data :: bytes

text \<open>\<open>*(uint32_t* )key\<close>: the first four bytes of the key.\<close>

definition read_u32 :: "bytes \<Rightarrow> u32 option" where
  "read_u32 key = (if 4 \<le> length key then Some (rd32 (\<lambda>i. key ! i) 0) else None)"

definition jbpf_bpf_array_create :: "(nat \<Rightarrow> bool) \<Rightarrow> jbpf_load_map_def \<Rightarrow> array_map option" where
  "jbpf_bpf_array_create alloc_ok map_def =
    (let n = unat (md_max_entries map_def) * unat (md_value_size map_def) in
     if alloc_ok n then Some \<lparr> am_value_size = md_value_size map_def,
       am_max_entries = md_max_entries map_def, am_data = replicate n 0 \<rparr> else None)"

text \<open>The result of a lookup is the offset of the entry in the data of the map.\<close>

definition jbpf_bpf_array_lookup_elem :: "array_map \<Rightarrow> bytes \<Rightarrow> nat option option" where
  "jbpf_bpf_array_lookup_elem am key = do {
     index \<leftarrow> read_u32 key;
     if index \<ge> am_max_entries am then Some None
     else Some (Some (unat (index * am_value_size am)))
   }"

definition jbpf_bpf_array_clear :: "array_map \<Rightarrow> (int \<times> array_map) option" where
  "jbpf_bpf_array_clear am =
    (let n = unat (am_max_entries am * am_value_size am) in do {
     d \<leftarrow> arr_copy (am_data am) 0 (replicate n 0) 0 n;
     Some (JBPF_MAP_SUCCESS, am\<lparr>am_data := d\<rparr>)
   })"

definition jbpf_bpf_array_reset_elem :: "array_map \<Rightarrow> bytes \<Rightarrow> (nat option \<times> array_map) option" where
  "jbpf_bpf_array_reset_elem am key = do {
     index \<leftarrow> read_u32 key;
     if index \<ge> am_max_entries am then Some (None, am)
     else
       let off = unat (index * am_value_size am); n = unat (am_value_size am) in do {
         d \<leftarrow> arr_copy (am_data am) off (replicate n 0) 0 n;
         Some (Some off, am\<lparr>am_data := d\<rparr>)
       }
   }"

definition jbpf_bpf_array_update_elem :: "array_map \<Rightarrow> bytes \<Rightarrow> bytes \<Rightarrow> u64 \<Rightarrow> (int \<times> array_map) option" where
  "jbpf_bpf_array_update_elem am key val flags = do {
     index \<leftarrow> read_u32 key;
     if index \<ge> am_max_entries am then Some (JBPF_MAP_ERROR, am)
     else
       let off = unat (am_value_size am * index); n = unat (am_value_size am) in do {
         d \<leftarrow> arr_copy (am_data am) off val 0 n;
         Some (JBPF_MAP_SUCCESS, am\<lparr>am_data := d\<rparr>)
       }
   }"

section \<open>Entries\<close>

definition am_inv :: "u32 \<Rightarrow> u32 \<Rightarrow> array_map \<Rightarrow> bool" where
  "am_inv n vs am \<longleftrightarrow> am_max_entries am = n \<and> am_value_size am = vs
     \<and> length (am_data am) = unat n * unat vs \<and> unat n * unat vs < 2 ^ 32"

definition am_value :: "array_map \<Rightarrow> nat \<Rightarrow> bytes" where
  "am_value am off = take (unat (am_value_size am)) (drop off (am_data am))"

definition am_contents :: "array_map \<Rightarrow> bytes \<Rightarrow> bytes option" where
  "am_contents am key =
    (let i = rd32 (\<lambda>i. key ! i) 0 in
     if length key = 4 \<and> i < am_max_entries am
     then Some (am_value am (unat i * unat (am_value_size am))) else None)"

text \<open>The index of a key of four bytes determines it.\<close>

lemma rd32_bits:
  assumes "i < 4" and "j < 8"
  shows "bit (rd32 m p) (8 * i + j) = bit (m (p + i)) j"
proof -
  have high: "\<not> bit (w :: u8) k" if "8 \<le> k" for w k
    using that by (auto dest: bit_imp_le_length)
  have "i = 0 \<or> i = 1 \<or> i = 2 \<or> i = 3"
    using assms(1) by linarith
  then show ?thesis
    using assms(2)
    by (elim disjE) (simp_all add: rd32_def bit_or_iff bit_push_bit_iff bit_ucast_iff high)
qed

lemma key_index_inj:
  assumes "length k = 4" "length k' = 4" "rd32 (\<lambda>i. k ! i) 0 = rd32 (\<lambda>i. k' ! i) 0"
  shows "k = k'"
proof (rule nth_equalityI)
  fix i assume "i < length k"
  then have i: "i < 4" using assms(1) by simp
  show "k ! i = k' ! i"
  proof (rule bit_word_eqI)
    fix j assume "j < LENGTH(8)"
    then show "bit (k ! i) j = bit (k' ! i) j"
      using rd32_bits [OF i, of j "(!) k" 0] rd32_bits [OF i, of j "(!) k'" 0] assms(3) by simp
  qed
qed (use assms in simp)

lemma entry_offset:
  assumes "am_inv n vs am" "i < n"
  shows "unat (i * vs) = unat i * unat vs" "unat i * unat vs + unat vs \<le> length (am_data am)"
proof -
  have "unat i + 1 \<le> unat n" using assms(2) by (simp add: word_less_nat_alt)
  then have le: "(unat i + 1) * unat vs \<le> unat n * unat vs" by (rule mult_le_mono1)
  then have "unat i * unat vs < 2 ^ 32" using assms(1) by (auto simp: am_inv_def)
  then show "unat (i * vs) = unat i * unat vs" by (simp add: unat_word_ariths)
  show "unat i * unat vs + unat vs \<le> length (am_data am)"
    using le assms(1) by (simp add: am_inv_def add.commute)
qed

text \<open>Writing one entry leaves the others alone.\<close>

lemma entries_disjoint:
  assumes "(i :: nat) \<noteq> j"
  shows "i * s + s \<le> j * s \<or> j * s + s \<le> i * s"
proof (cases "i < j")
  case True
  then have "(i + 1) * s \<le> j * s" by (intro mult_le_mono1) simp
  then show ?thesis by (simp add: add.commute)
next
  case False
  then have "(j + 1) * s \<le> i * s" using assms by (intro mult_le_mono1) simp
  then show ?thesis by (simp add: add.commute)
qed

lemma write_other:
  assumes "o1 + n \<le> o2 \<or> o2 + n \<le> o1" "o1 + n \<le> length d" "o2 + n \<le> length d" "length v = n"
  shows "take n (drop o2 (take o1 d @ v @ drop (o1 + n) d)) = take n (drop o2 d)"
proof (rule nth_equalityI)
  fix i assume "i < length (take n (drop o2 (take o1 d @ v @ drop (o1 + n) d)))"
  then show "take n (drop o2 (take o1 d @ v @ drop (o1 + n) d)) ! i = take n (drop o2 d) ! i"
    using assms by (auto simp: nth_append)
qed (use assms in auto)

lemma write_same:
  assumes "o1 + n \<le> length d" "length v = n"
  shows "take n (drop o1 (take o1 d @ v @ drop (o1 + n) d)) = v"
  using assms by simp

lemma am_write:
  assumes inv: "am_inv n vs am" and k: "length k = 4" "rd32 (\<lambda>i. k ! i) 0 < n"
    and v: "unat vs \<le> length v"
  defines "off \<equiv> unat (rd32 (\<lambda>i. k ! i) 0) * unat vs"
  shows "\<exists>d. arr_copy (am_data am) off v 0 (unat vs) = Some d \<and> am_inv n vs (am\<lparr>am_data := d\<rparr>)
    \<and> am_contents (am\<lparr>am_data := d\<rparr>) = (am_contents am)(k \<mapsto> take (unat vs) v)"
proof -
  let ?d = "take off (am_data am) @ take (unat vs) v @ drop (off + unat vs) (am_data am)"
  have rng: "off + unat vs \<le> length (am_data am)"
    using entry_offset(2) [OF inv k(2)] by (simp add: off_def)
  then have cp: "arr_copy (am_data am) off v 0 (unat vs) = Some ?d"
    using v by (simp add: arr_copy_def)
  have inv': "am_inv n vs (am\<lparr>am_data := ?d\<rparr>)"
    using inv rng v by (auto simp: am_inv_def)
  have "am_contents (am\<lparr>am_data := ?d\<rparr>) k' = ((am_contents am)(k \<mapsto> take (unat vs) v)) k'" for k'
  proof (cases "length k' = 4 \<and> rd32 (\<lambda>i. k' ! i) 0 < n")
    case False
    then show ?thesis using inv k by (auto simp: am_contents_def am_inv_def Let_def)
  next
    case True
    let ?i = "rd32 (\<lambda>i. k' ! i) 0"
    show ?thesis
    proof (cases "k' = k")
      case same: True
      then show ?thesis
        using inv k rng v write_same [of off "unat vs" "am_data am" "take (unat vs) v"]
        by (simp add: am_contents_def am_value_def am_inv_def Let_def off_def)
    next
      case other: False
      then have "unat ?i \<noteq> unat (rd32 (\<lambda>i. k ! i) 0)"
        using key_index_inj [of k' k] k(1) True by (auto dest: word_unat_eq_iff [THEN iffD2])
      then have dis: "off + unat vs \<le> unat ?i * unat vs \<or> unat ?i * unat vs + unat vs \<le> off"
        using entries_disjoint unfolding off_def by blast
      show ?thesis
        using write_other [OF dis rng _ , of "take (unat vs) v"] entry_offset(2) [OF inv] True v inv other
        by (simp add: am_contents_def am_value_def am_inv_def Let_def)
    qed
  qed
  then show ?thesis using cp inv' by blast
qed

section \<open>The contract\<close>

definition am_lookup :: "array_map \<Rightarrow> bytes \<Rightarrow> bytes option option" where
  "am_lookup am k = map_option (map_option (am_value am)) (jbpf_bpf_array_lookup_elem am k)"

definition am_update :: "array_map \<Rightarrow> bytes \<Rightarrow> bytes \<Rightarrow> (int \<times> array_map) option" where
  "am_update am k v = jbpf_bpf_array_update_elem am k v 0"

definition am_reset :: "array_map \<Rightarrow> bytes \<Rightarrow> (bool \<times> array_map) option" where
  "am_reset am k = map_option (\<lambda>(r, am'). (r \<noteq> None, am')) (jbpf_bpf_array_reset_elem am k)"

definition am_initial :: "u32 \<Rightarrow> u32 \<Rightarrow> bytes \<Rightarrow> bytes option" where
  "am_initial n vs k =
    (if length k = 4 \<and> rd32 (\<lambda>i. k ! i) 0 < n then Some (replicate (unat vs) 0) else None)"

lemma am_contents_zero:
  assumes "unat n * unat vs < 2 ^ 32"
  shows "am_contents \<lparr> am_value_size = vs, am_max_entries = n, am_data = replicate (unat n * unat vs) 0 \<rparr>
    = am_initial n vs"
proof
  fix k
  let ?am = "\<lparr> am_value_size = vs, am_max_entries = n, am_data = replicate (unat n * unat vs) (0 :: u8) \<rparr>"
  have inv: "am_inv n vs ?am" using assms by (simp add: am_inv_def)
  show "am_contents ?am k = am_initial n vs k"
    using entry_offset(2) [OF inv, of "rd32 (\<lambda>i. k ! i) 0"]
    by (auto simp: am_contents_def am_initial_def am_value_def Let_def)
qed

interpretation amap: bpf_map "am_inv n vs" am_contents am_lookup am_update am_reset
  jbpf_bpf_array_clear "\<lambda>k. length k = 4" "\<lambda>v. length v = unat vs" "\<lambda>m k. m k \<noteq> None" "- 1"
  "replicate (unat vs) 0" "am_initial n vs" for n vs
proof (unfold_locales, goal_cases)
  case (1 s k)
  then have "rd32 (\<lambda>i. k ! i) 0 < n \<Longrightarrow> unat (rd32 (\<lambda>i. k ! i) 0 * vs) = unat (rd32 (\<lambda>i. k ! i) 0) * unat vs"
    using entry_offset(1) by blast
  with 1 show ?case
    by (auto simp: am_lookup_def jbpf_bpf_array_lookup_elem_def read_u32_def am_contents_def am_inv_def
        Let_def not_le)
next
  case (2 s k v)
  show ?case
  proof (cases "rd32 (\<lambda>i. k ! i) 0 < n")
    case True
    then show ?thesis
      using am_write [OF 2(1,2) True, of v] 2 entry_offset(1) [OF 2(1) True]
      by (auto simp: am_update_def jbpf_bpf_array_update_elem_def read_u32_def am_contents_def am_inv_def
          Let_def map_codes mult.commute)
  next
    case False
    then show ?thesis
      using 2 by (auto simp: am_update_def jbpf_bpf_array_update_elem_def read_u32_def am_contents_def
          am_inv_def Let_def map_codes)
  qed
next
  case (3 s k)
  show ?case
  proof (cases "rd32 (\<lambda>i. k ! i) 0 < n")
    case True
    then show ?thesis
      using am_write [OF 3(1,2) True, of "replicate (unat vs) 0"] 3 entry_offset(1) [OF 3(1) True]
      by (auto simp: am_reset_def jbpf_bpf_array_reset_elem_def read_u32_def am_contents_def am_inv_def
          Let_def)
  next
    case False
    then show ?thesis
      using 3 by (auto simp: am_reset_def jbpf_bpf_array_reset_elem_def read_u32_def am_contents_def
          am_inv_def Let_def)
  qed
next
  case (4 s)
  then have n: "unat (n * vs) = unat n * unat vs" "length (am_data s) = unat n * unat vs"
    "am_max_entries s = n" "am_value_size s = vs" "unat n * unat vs < 2 ^ 32"
    by (simp_all add: am_inv_def unat_word_ariths)
  then have "jbpf_bpf_array_clear s = Some (0, s\<lparr>am_data := replicate (unat n * unat vs) 0\<rparr>)"
    by (simp add: jbpf_bpf_array_clear_def arr_copy_def map_codes)
  moreover have "am_contents (s\<lparr>am_data := replicate (unat n * unat vs) 0\<rparr>)
      = am_contents \<lparr> am_value_size = vs, am_max_entries = n, am_data = replicate (unat n * unat vs) 0 \<rparr>"
    using n by (intro ext) (simp add: am_contents_def am_value_def Let_def)
  ultimately show ?case
    using n am_contents_zero [of n vs] by (simp add: am_inv_def)
qed

lemma array_create_spec:
  assumes "jbpf_bpf_array_create alloc_ok md = Some am"
    and "unat (md_max_entries md) * unat (md_value_size md) < 2 ^ 32"
  shows "am_inv (md_max_entries md) (md_value_size md) am
    \<and> am_contents am = am_initial (md_max_entries md) (md_value_size md)"
  using assms am_contents_zero [OF assms(2)]
  by (auto simp: jbpf_bpf_array_create_def am_inv_def Let_def split: if_splits)





end
