(* ===== verification/Mem_Utils.thy ===== *)
theory Mem_Utils
  imports Prelude
begin

text \<open>
  The size computations of \<open>src/mem_mgmt/jbpf_mem_mgmt_utils.h\<close>: rounding up to a power of two, by
  smearing the bits of a 32 bit word, and rounding up to a multiple.  Memory pools, rings and hash
  tables take their sizes from them.
\<close>

definition round_up_pow_of_two :: "u32 \<Rightarrow> u32" where
  "round_up_pow_of_two x =
    (let v = x; v = v - 1;
         v = v OR drop_bit 1 v; v = v OR drop_bit 2 v; v = v OR drop_bit 4 v;
         v = v OR drop_bit 8 v; v = v OR drop_bit 16 v
     in v + 1)"

definition jbpf_round_up_mem :: "u64 \<Rightarrow> u64 \<Rightarrow> u64" where
  "jbpf_round_up_mem orig_size multiple_size =
    (if multiple_size = 0 then orig_size
     else let remainder = orig_size mod multiple_size in
       if remainder = 0 then orig_size else orig_size + multiple_size - remainder)"

section \<open>Powers of two\<close>

lemma unat_exp: "k < LENGTH('a) \<Longrightarrow> unat (2 ^ k :: 'a::len word) = 2 ^ k"
  by (metis of_nat_numeral of_nat_power power_strict_increasing_iff one_less_numeral_iff
      semiring_norm(76) take_bit_nat_eq_self unsigned_of_nat)

lemma smear_step:
  fixes v w :: u32
  assumes "\<And>i. bit w i \<longleftrightarrow> (\<exists>j. i \<le> j \<and> j < i + n \<and> bit v j)"
  shows "bit (w OR drop_bit n w) i \<longleftrightarrow> (\<exists>j. i \<le> j \<and> j < i + 2 * n \<and> bit v j)"
proof -
  have "bit (w OR drop_bit n w) i \<longleftrightarrow>
      (\<exists>j. i \<le> j \<and> j < i + n \<and> bit v j) \<or> (\<exists>j. i + n \<le> j \<and> j < i + n + n \<and> bit v j)"
    by (simp add: bit_or_iff bit_drop_bit_eq assms add.commute add.left_commute)
  also have "\<dots> \<longleftrightarrow> (\<exists>j. i \<le> j \<and> j < i + 2 * n \<and> bit v j)"
  proof -
    have "(i \<le> j \<and> j < i + n \<and> b) \<or> (i + n \<le> j \<and> j < i + n + n \<and> b) \<longleftrightarrow>
        i \<le> j \<and> j < i + 2 * n \<and> b" for j b
      by auto
    then show ?thesis by (simp only: ex_disj_distrib [symmetric])
  qed
  finally show ?thesis .
qed

lemma round_up_smear:
  "\<exists>w. round_up_pow_of_two x = w + 1 \<and> (\<forall>i. bit w i \<longleftrightarrow> (\<exists>j\<ge>i. bit (x - 1) j))"
proof -
  define v where "v = x - 1"
  define v1 where "v1 = v OR drop_bit 1 v"
  define v2 where "v2 = v1 OR drop_bit 2 v1"
  define v4 where "v4 = v2 OR drop_bit 4 v2"
  define v8 where "v8 = v4 OR drop_bit 8 v4"
  define w where "w = v8 OR drop_bit 16 v8"
  have b0: "bit v i \<longleftrightarrow> (\<exists>j. i \<le> j \<and> j < i + 1 \<and> bit v j)" for i
    by (metis Suc_eq_plus1 le_antisym less_Suc_eq_le order_refl)
  have b1: "bit v1 i \<longleftrightarrow> (\<exists>j. i \<le> j \<and> j < i + 2 \<and> bit v j)" for i
    using smear_step [OF b0] by (simp add: v1_def)
  have b2: "bit v2 i \<longleftrightarrow> (\<exists>j. i \<le> j \<and> j < i + 4 \<and> bit v j)" for i
    using smear_step [OF b1] by (simp add: v2_def)
  have b4: "bit v4 i \<longleftrightarrow> (\<exists>j. i \<le> j \<and> j < i + 8 \<and> bit v j)" for i
    using smear_step [OF b2] by (simp add: v4_def)
  have b8: "bit v8 i \<longleftrightarrow> (\<exists>j. i \<le> j \<and> j < i + 16 \<and> bit v j)" for i
    using smear_step [OF b4] by (simp add: v8_def)
  have "bit w i \<longleftrightarrow> (\<exists>j. i \<le> j \<and> j < i + 32 \<and> bit v j)" for i
    using smear_step [OF b8] by (simp add: w_def)
  moreover have "(\<exists>j. i \<le> j \<and> j < i + 32 \<and> bit v j) \<longleftrightarrow> (\<exists>j\<ge>i. bit v j)" for i
    using bit_imp_le_length [of v] by (fastforce intro: less_le_trans)
  ultimately have "\<forall>i. bit w i \<longleftrightarrow> (\<exists>j\<ge>i. bit v j)" by simp
  moreover have "round_up_pow_of_two x = w + 1"
    by (simp add: round_up_pow_of_two_def Let_def w_def v8_def v4_def v2_def v1_def v_def)
  ultimately show ?thesis unfolding v_def by blast
qed

text \<open>The number of bits of a word: the least power of two above it.\<close>

lemma word_bit_length:
  fixes v :: u32
  obtains k where "k \<le> 32" "\<And>i. (\<exists>j\<ge>i. bit v j) \<longleftrightarrow> i < k" "unat v < 2 ^ k" "0 < k \<Longrightarrow> 2 ^ (k - 1) \<le> unat v"
proof -
  define k where "k = (LEAST k. \<forall>j\<ge>k. \<not> bit v j)"
  have top: "\<forall>j\<ge>32. \<not> bit v j" by (auto dest: bit_imp_le_length)
  then have k: "\<forall>j\<ge>k. \<not> bit v j" unfolding k_def by (rule LeastI)
  have "k \<le> 32" unfolding k_def using top by (rule Least_le)
  have iff: "(\<exists>j\<ge>i. bit v j) \<longleftrightarrow> i < k" for i
    using k not_less_Least [of i "\<lambda>k. \<forall>j\<ge>k. \<not> bit v j"] unfolding k_def
    by (meson not_le le_trans)
  have "take_bit k (unat v) = unat v"
  proof (rule bit_eqI)
    fix n
    show "bit (take_bit k (unat v)) n \<longleftrightarrow> bit (unat v) n"
      using iff [of n] by (auto simp: bit_take_bit_iff bit_unsigned_iff)
  qed
  then have "unat v < 2 ^ k" by (metis take_bit_nat_less_exp)
  moreover have "2 ^ (k - 1) \<le> unat v" if "0 < k"
  proof -
    have "\<exists>j\<ge>k - 1. bit v j" using iff [of "k - 1"] that by simp
    then obtain j where j: "j \<ge> k - 1" "bit v j" by blast
    then have "bit (unat v) j" by (simp add: bit_unsigned_iff bit_imp_le_length)
    then have "2 ^ j \<le> unat v"
      by (metis bit_iff_odd div_less even_zero not_le)
    moreover have "2 ^ (k - 1) \<le> (2 :: nat) ^ j" using j by simp
    ultimately show ?thesis by linarith
  qed
  ultimately show thesis using that \<open>k \<le> 32\<close> iff by blast
qed

lemma round_up_exp:
  obtains k where "k \<le> 32" "round_up_pow_of_two x = 2 ^ k" "unat (x - 1) < 2 ^ k"
    "0 < k \<Longrightarrow> 2 ^ (k - 1) \<le> unat (x - 1)"
proof -
  obtain w where w: "round_up_pow_of_two x = w + 1" "\<forall>i. bit w i \<longleftrightarrow> (\<exists>j\<ge>i. bit (x - 1) j)"
    using round_up_smear by blast
  obtain k where k: "k \<le> 32" "\<And>i. (\<exists>j\<ge>i. bit (x - 1) j) \<longleftrightarrow> i < k" "unat (x - 1) < 2 ^ k"
      "0 < k \<Longrightarrow> 2 ^ (k - 1) \<le> unat (x - 1)"
    using word_bit_length by blast
  have "w = mask k"
    using w(2) k(1,2) by (intro bit_word_eqI) (simp add: bit_mask_iff)
  then have "round_up_pow_of_two x = 2 ^ k"
    using w(1) by (simp add: mask_eq_exp_minus_1)
  then show thesis using that k by blast
qed

text \<open>C35: \<^const>\<open>round_up_pow_of_two\<close> of a size from 1 to \<open>2 ^ 31\<close> is the least power of two that is not
  below it; of 0 and of every larger size it is 0, as the 32 bit word wraps around.\<close>

theorem round_up_pow_of_two_least:
  "if 0 < x \<and> x \<le> 2 ^ 31
   then \<exists>k \<le> 31. unat (round_up_pow_of_two x) = 2 ^ k \<and> unat x \<le> 2 ^ k \<and> 2 ^ k < 2 * unat x
   else round_up_pow_of_two x = 0"
proof -
  obtain k where k: "k \<le> 32" "round_up_pow_of_two x = 2 ^ k" "unat (x - 1) < 2 ^ k"
    "0 < k \<Longrightarrow> 2 ^ (k - 1) \<le> unat (x - 1)"
    using round_up_exp [of x] by blast
  show ?thesis
  proof (cases "x = 0")
    case True
    then have "unat (x - 1) = 2 ^ 32 - 1" by (simp add: unsigned_minus_1_eq_mask mask_eq_exp_minus_1)
    then have "\<not> k < 32"
      using k(3) power_increasing [of k 31 "2 :: nat"] by auto
    then have "k = 32" using k(1) by simp
    then show ?thesis using k(2) True by simp
  next
    case False
    then have x1: "unat (x - 1) = unat x - 1" "0 < unat x"
      by (simp_all add: unat_minus_one unat_gt_0)
    have le: "x \<le> 2 ^ 31 \<longleftrightarrow> unat x \<le> 2 ^ 31"
      by (simp add: word_le_nat_alt)
    show ?thesis
    proof (cases "unat x \<le> 2 ^ 31")
      case True
      have "k \<noteq> 32"
        using k(4) x1 True by auto
      then have k31: "k \<le> 31" using k(1) by simp
      then have "unat (2 ^ k :: u32) = 2 ^ k" by (simp add: unat_exp)
      moreover have "2 ^ k < 2 * unat x"
      proof (cases k)
        case (Suc j)
        then show ?thesis using k(4) x1 by simp
      qed (use x1 in simp)
      ultimately show ?thesis
        using k k31 x1 False le True by (auto simp: word_gt_0)
    next
      case False
      then have "\<not> k \<le> 31"
        using k(3) x1 power_increasing [of k 31 "2 :: nat"] by auto
      then have "k = 32" using k(1) by simp
      then show ?thesis using k(2) False le by simp
    qed
  qed
qed

section \<open>Multiples\<close>

text \<open>\<^const>\<open>jbpf_round_up_mem\<close> gives the least multiple that is not below the size, when that
  multiple fits in a \<open>size_t\<close>.\<close>

theorem round_up_mem_least:
  assumes "multiple \<noteq> 0" and "unat orig + unat multiple \<le> 2 ^ 64"
  shows "unat multiple dvd unat (jbpf_round_up_mem orig multiple) \<and>
         unat orig \<le> unat (jbpf_round_up_mem orig multiple) \<and>
         unat (jbpf_round_up_mem orig multiple) < unat orig + unat multiple"
proof -
  let ?s = "unat orig" and ?m = "unat multiple"
  have m: "0 < ?m" using assms(1) by (simp add: unat_gt_0)
  have r: "unat (orig mod multiple) = ?s mod ?m" by (simp add: unat_mod_distrib)
  show ?thesis
  proof (cases "?s mod ?m = 0")
    case True
    then have "orig mod multiple = 0" using r by (simp add: unat_eq_zero)
    then show ?thesis using assms(1) True m by (auto simp: jbpf_round_up_mem_def Let_def)
  next
    case False
    have lt: "?s mod ?m < ?m" using m by simp
    have "unat (orig + multiple - orig mod multiple) = ?s + ?m - ?s mod ?m"
    proof -
      have "orig + multiple - orig mod multiple = word_of_nat (?s + ?m - ?s mod ?m)"
        using lt by (simp add: of_nat_diff r [symmetric])
      moreover have "?s + ?m - ?s mod ?m < 2 ^ 64"
        using less_le_trans [OF diff_less assms(2)] False m by simp
      ultimately show ?thesis by (simp add: unat_of_nat)
    qed
    moreover have "?m dvd ?s + ?m - ?s mod ?m"
      by (metis add.commute diff_add_assoc dvd_add_triv_left_iff dvd_minus_mod mod_less_eq_dividend)
    moreover have "orig mod multiple \<noteq> 0" using False r by (metis unat_0)
    ultimately show ?thesis
      using assms(1) False lt by (auto simp: jbpf_round_up_mem_def Let_def)
  qed
qed

theorem round_up_mem_least_witness:
  "unat (16 :: u64) dvd unat (jbpf_round_up_mem 37 16)"
  using round_up_mem_least [of 16 37] by simp

end
