(* ===== verification/Spsc_Hashmap.thy ===== *)
theory Spsc_Hashmap
  imports Bpf_Map Mem_Utils
begin

text \<open>
  The hash maps for one thread of \<open>src/core/jbpf_bpf_spsc_hashmap.h\<close>: open addressing with linear
  probing in a table whose size is a power of two.  An entry of the table is a used byte, a key and a
  value, so the table is a list of such entries; an access outside the table is \<^const>\<open>None\<close>.  The
  operations probe with \<open>hashlittle\<close> of \<^theory_text>\<open>Lookup3\<close>.
\<close>

section \<open>The operations\<close>

record spsc_entry =
  e_used :: u8
  e_key :: bytes
  e_value :: bytes

record spsc_hashmap =
  sh_key_size :: u32
  sh_value_size :: u32
  sh_max_entries :: u32
  sh_ht_size :: u32
  sh_ht :: "spsc_entry list"
  sh_count :: int

text \<open>The build configuration; the hash of a key does not depend on it, nor on the address.\<close>

definition lib_config :: hash_config where
  "lib_config = \<lparr> HASH_LITTLE_ENDIAN = True, HASH_BIG_ENDIAN = False, SANITIZE = False \<rparr>"

definition jbpf_bpf_spsc_hashmap_hash :: "bytes \<Rightarrow> u32" where
  "jbpf_bpf_spsc_hashmap_hash key = hashlittle lib_config (\<lambda>i. key ! i) 0 (length key) 6602834"

definition entry_zero :: "u32 \<Rightarrow> u32 \<Rightarrow> spsc_entry" where
  "entry_zero ks vs = \<lparr> e_used = 0, e_key = replicate (unat ks) 0, e_value = replicate (unat vs) 0 \<rparr>"

definition jbpf_bpf_spsc_hashmap_create ::
  "(nat \<Rightarrow> bool) \<Rightarrow> (nat \<Rightarrow> bool) \<Rightarrow> jbpf_load_map_def \<Rightarrow> spsc_hashmap option" where
  "jbpf_bpf_spsc_hashmap_create hmap_ok ht_ok map_def =
    (if \<not> hmap_ok 1 then None
     else
       let ks = md_key_size map_def; vs = md_value_size map_def; me = md_max_entries map_def;
           n = round_up_pow_of_two me in
       if \<not> ht_ok (unat n * unat (ks + vs + 1)) then None
       else Some \<lparr> sh_key_size = ks, sh_value_size = vs, sh_max_entries = me, sh_ht_size = n,
         sh_ht = replicate (unat n) (entry_zero ks vs), sh_count = 0 \<rparr>)"

definition jbpf_bpf_spsc_hashmap_size :: "spsc_hashmap option \<Rightarrow> nat" where
  "jbpf_bpf_spsc_hashmap_size m = (case m of None \<Rightarrow> 0 | Some hm \<Rightarrow> c_u32 (sh_count hm))"

definition jbpf_bpf_spsc_hashmap_clear :: "spsc_hashmap \<Rightarrow> (int \<times> spsc_hashmap) option" where
  "jbpf_bpf_spsc_hashmap_clear hm =
    Some (JBPF_MAP_SUCCESS, hm\<lparr>sh_count := 0,
      sh_ht := map (\<lambda>_. entry_zero (sh_key_size hm) (sh_value_size hm)) (sh_ht hm)\<rparr>)"

text \<open>The probing loops: \<open>do body while (orig != idx)\<close>.  The body gives a fault, a result, or neither;
  \<open>Some None\<close> is the exit of the loop after a whole round.  The fuel is the number of slots the
  loop can visit.\<close>

definition next_idx :: "spsc_hashmap \<Rightarrow> u32 \<Rightarrow> u32" where
  "next_idx hm i = (i + 1) AND (sh_ht_size hm - 1)"

fun probe :: "nat \<Rightarrow> (u32 \<Rightarrow> u32) \<Rightarrow> (u32 \<Rightarrow> 'r option option) \<Rightarrow> u32 \<Rightarrow> u32 \<Rightarrow> 'r option option" where
  "probe 0 nxt body orig idx = None"
| "probe (Suc fuel) nxt body orig idx =
    (case body idx of
       None \<Rightarrow> None
     | Some (Some r) \<Rightarrow> Some (Some r)
     | Some None \<Rightarrow> if orig \<noteq> nxt idx then probe fuel nxt body orig (nxt idx) else Some None)"

definition home_idx :: "spsc_hashmap \<Rightarrow> bytes \<Rightarrow> u32" where
  "home_idx hm key = jbpf_bpf_spsc_hashmap_hash key AND (sh_ht_size hm - 1)"

text \<open>A read of \<open>n\<close> bytes at a pointer.\<close>

definition read_bytes :: "nat \<Rightarrow> bytes \<Rightarrow> bytes option" where
  "read_bytes n bs = (if n \<le> length bs then Some (take n bs) else None)"

definition lookup_body :: "spsc_hashmap \<Rightarrow> bytes \<Rightarrow> u32 \<Rightarrow> nat option option option" where
  "lookup_body hm key idx = do {
     e \<leftarrow> arr_get (sh_ht hm) (unat idx);
     if e_used e = 0 then Some (Some None)
     else if e_key e = key then Some (Some (Some (unat idx)))
     else Some None
   }"

definition jbpf_bpf_spsc_hashmap_lookup_elem :: "spsc_hashmap \<Rightarrow> bytes \<Rightarrow> nat option option" where
  "jbpf_bpf_spsc_hashmap_lookup_elem hm key = do {
     k \<leftarrow> read_bytes (unat (sh_key_size hm)) key;
     let orig = home_idx hm k;
     r \<leftarrow> probe (unat (sh_ht_size hm)) (next_idx hm) (lookup_body hm k) orig orig;
     (case r of None \<Rightarrow> Some None | Some p \<Rightarrow> Some p)
   }"

definition jbpf_bpf_spsc_hashmap_reset_elem :: "spsc_hashmap \<Rightarrow> bytes \<Rightarrow> (nat option \<times> spsc_hashmap) option" where
  "jbpf_bpf_spsc_hashmap_reset_elem hm key = do {
     elem \<leftarrow> jbpf_bpf_spsc_hashmap_lookup_elem hm key;
     (case elem of
        None \<Rightarrow> Some (None, hm)
      | Some i \<Rightarrow> do {
          e \<leftarrow> arr_get (sh_ht hm) i;
          Some (Some i, hm\<lparr>sh_ht := (sh_ht hm)[i := e\<lparr>e_value := replicate (unat (sh_value_size hm)) 0\<rparr>]\<rparr>)
        })
   }"

definition update_body :: "spsc_hashmap \<Rightarrow> bytes \<Rightarrow> bytes \<Rightarrow> u32 \<Rightarrow> (int \<times> spsc_hashmap) option option" where
  "update_body hm key val idx = do {
     e \<leftarrow> arr_get (sh_ht hm) (unat idx);
     if e_used e = 0 then
       (if c_u32 (sh_count hm) = unat (sh_max_entries hm) then Some (Some (JBPF_MAP_FULL, hm))
        else Some (Some (JBPF_MAP_SUCCESS,
          hm\<lparr>sh_ht := (sh_ht hm)[unat idx := \<lparr> e_used = 1, e_key = key, e_value = val \<rparr>],
             sh_count := c_int (sh_count hm + 1)\<rparr>)))
     else if e_key e = key then
       Some (Some (JBPF_MAP_SUCCESS, hm\<lparr>sh_ht := (sh_ht hm)[unat idx := e\<lparr>e_key := key, e_value := val\<rparr>]\<rparr>))
     else Some None
   }"

definition jbpf_bpf_spsc_hashmap_update_elem ::
  "spsc_hashmap \<Rightarrow> bytes \<Rightarrow> bytes \<Rightarrow> u64 \<Rightarrow> (int \<times> spsc_hashmap) option" where
  "jbpf_bpf_spsc_hashmap_update_elem hm key val flags = do {
     k \<leftarrow> read_bytes (unat (sh_key_size hm)) key;
     v \<leftarrow> read_bytes (unat (sh_value_size hm)) val;
     let orig = home_idx hm k;
     r \<leftarrow> probe (unat (sh_ht_size hm)) (next_idx hm) (update_body hm k v) orig orig;
     (case r of None \<Rightarrow> Some (JBPF_MAP_FULL, hm) | Some x \<Rightarrow> Some x)
   }"

text \<open>\<open>restructure\<close>: the loop from the entry after the root; the result is the value of \<open>new_idx\<close> in the
  caller, all ones for \<open>-1\<close>.\<close>

definition restructure_body :: "spsc_hashmap \<Rightarrow> u32 \<Rightarrow> u32 \<Rightarrow> (u32 \<times> spsc_hashmap) option option" where
  "restructure_body hm root idx = do {
     e \<leftarrow> arr_get (sh_ht hm) (unat idx);
     if e_used e = 0 then Some (Some (- 1, hm))
     else
       let new_idx = jbpf_bpf_spsc_hashmap_hash (e_key e) in
       if new_idx \<le> root then do {
         ht \<leftarrow> arr_set (sh_ht hm) (unat root) e;
         Some (Some (new_idx, hm\<lparr>sh_ht := ht[unat idx := entry_zero (sh_key_size hm) (sh_value_size hm)]\<rparr>))
       } else Some None
   }"

definition jbpf_bpf_spsc_hashmap_restructure :: "spsc_hashmap \<Rightarrow> u32 \<Rightarrow> (u32 \<times> spsc_hashmap) option" where
  "jbpf_bpf_spsc_hashmap_restructure hm root =
    (let idx = next_idx hm root in
     if idx = root then Some (- 1, hm)
     else do {
       r \<leftarrow> probe (unat (sh_ht_size hm) - 1) (next_idx hm) (restructure_body hm root) root idx;
       (case r of None \<Rightarrow> Some (- 1, hm) | Some x \<Rightarrow> Some x)
     })"

fun restructure_all :: "nat \<Rightarrow> spsc_hashmap \<Rightarrow> u32 \<Rightarrow> spsc_hashmap option" where
  "restructure_all 0 hm root = None"
| "restructure_all (Suc fuel) hm root = do {
     (new_idx, hm') \<leftarrow> jbpf_bpf_spsc_hashmap_restructure hm root;
     if new_idx \<noteq> - 1 then restructure_all fuel hm' root else Some hm'
   }"

definition delete_body :: "spsc_hashmap \<Rightarrow> bytes \<Rightarrow> u32 \<Rightarrow> (u32 \<times> spsc_hashmap) option option" where
  "delete_body hm key idx = do {
     e \<leftarrow> arr_get (sh_ht hm) (unat idx);
     if e_key e = key then
       Some (Some (idx, hm\<lparr>sh_count := c_int (sh_count hm - 1),
         sh_ht := (sh_ht hm)[unat idx := entry_zero (sh_key_size hm) (sh_value_size hm)]\<rparr>))
     else Some None
   }"

definition jbpf_bpf_spsc_hashmap_delete_elem :: "spsc_hashmap \<Rightarrow> bytes \<Rightarrow> (int \<times> spsc_hashmap) option" where
  "jbpf_bpf_spsc_hashmap_delete_elem hm key = do {
     k \<leftarrow> read_bytes (unat (sh_key_size hm)) key;
     let orig = home_idx hm k;
     e \<leftarrow> arr_get (sh_ht hm) (unat orig);
     if e_used e = 0 then Some (JBPF_MAP_ERROR, hm)
     else do {
       r \<leftarrow> probe (unat (sh_ht_size hm)) (next_idx hm) (delete_body hm k) orig orig;
       (case r of
          None \<Rightarrow> Some (JBPF_MAP_ERROR, hm)
        | Some (idx, hm1) \<Rightarrow> do {
            hm2 \<leftarrow> restructure_all (unat (sh_ht_size hm1) + 1) hm1 idx;
            Some (JBPF_MAP_SUCCESS, hm2)
          })
     }
   }"

text \<open>\<open>dump\<close>: the pointer to the entry is set to the first one and not advanced, and the buffer's size
  is not looked at.  The result is the number returned and the bytes written.\<close>

function dump_loop :: "spsc_hashmap \<Rightarrow> nat \<Rightarrow> nat \<Rightarrow> bytes \<Rightarrow> bytes option" where
  "dump_loop hm cnt hash_idx out =
    (if cnt < c_u32 (sh_count hm) \<and> hash_idx < unat (sh_ht_size hm) then do {
       e \<leftarrow> arr_get (sh_ht hm) 0;
       if e_used e = 1 then dump_loop hm (cnt + 1) (Suc hash_idx) (out @ e_key e @ e_value e)
       else dump_loop hm cnt (Suc hash_idx) out
     } else Some out)"
  by pat_completeness auto
termination
  by (relation "measure (\<lambda>(hm, cnt, hash_idx, out). unat (sh_ht_size hm) - hash_idx)") auto

declare dump_loop.simps [simp del]

definition jbpf_bpf_spsc_hashmap_dump :: "spsc_hashmap \<Rightarrow> u32 \<Rightarrow> u64 \<Rightarrow> (nat \<times> bytes) option" where
  "jbpf_bpf_spsc_hashmap_dump hm max_size flags = do {
     out \<leftarrow> dump_loop hm 0 0 [];
     Some (c_u32 (sh_count hm), out)
   }"

section \<open>Probing\<close>

lemma mask_index:
  fixes w :: u32
  assumes "k < 32"
  shows "unat (w AND (2 ^ k - 1)) = unat w mod 2 ^ k"
proof -
  have "w AND (2 ^ k - 1) = take_bit k w"
    by (simp add: take_bit_eq_mask mask_eq_exp_minus_1)
  then show ?thesis by (simp add: unsigned_take_bit_eq flip: take_bit_eq_mod)
qed

lemma next_idx_mod:
  assumes "sh_ht_size hm = 2 ^ k" "k < 32"
  shows "unat (next_idx hm i) = (unat i + 1) mod 2 ^ k"
proof -
  have "(2 :: nat) ^ k dvd 2 ^ 32" using assms(2) by (intro le_imp_power_dvd) simp
  moreover have "unat (i + 1) = (unat i + 1) mod 2 ^ 32" by (simp add: unat_word_ariths)
  ultimately show ?thesis
    using assms by (simp add: next_idx_def mask_index mod_mod_cancel del: One_nat_def)
qed

lemma wrap_iff:
  assumes "h < N" "j < (N :: nat)"
  shows "(h + j + 1) mod N = h \<longleftrightarrow> j + 1 = N"
proof
  assume a: "(h + j + 1) mod N = h"
  show "j + 1 = N"
  proof (cases "h + j + 1 < N")
    case False
    then have "(h + j + 1) mod N = h + j + 1 - N"
      using assms by (simp add: mod_if)
    with a assms False show ?thesis by linarith
  qed (use a in simp)
next
  assume "j + 1 = N"
  then have "h + j + 1 = h + N" by simp
  then show "(h + j + 1) mod N = h" using assms by (simp only: mod_add_self2 mod_less)
qed

text \<open>A loop over the slots gives the answer of the first slot at which its body has one.\<close>

lemma probe_find:
  assumes nxt: "\<And>i. unat (nxt i) = (unat i + 1) mod N" and N: "N \<le> 2 ^ 32" and h: "unat h < N"
    and j: "j < N" "unat idx = (unat h + j) mod N"
  shows "probe (N - j) nxt body h idx =
    (case find (\<lambda>j. body (of_nat ((unat h + j) mod N)) \<noteq> Some None) [j..<N] of
       None \<Rightarrow> Some None | Some j \<Rightarrow> body (of_nat ((unat h + j) mod N)))"
  using j
proof (induction "N - j" arbitrary: j idx)
  case (Suc d)
  have idx: "of_nat ((unat h + j) mod N) = idx"
    unfolding Suc.prems(2) [symmetric] by simp
  have up: "[j..<N] = j # [Suc j..<N]" using Suc.prems(1) by (simp add: upt_conv_Cons)
  have fuel: "N - j = Suc d" "N - Suc j = d" using Suc.hyps(2) by simp_all
  show ?case
  proof (cases "body idx = Some None")
    case True
    have nx: "unat (nxt idx) = (unat h + Suc j) mod N"
      using nxt [of idx] Suc.prems(2) by (simp add: mod_Suc_eq)
    have stop: "h \<noteq> nxt idx \<longleftrightarrow> Suc j < N"
    proof -
      have "h = nxt idx \<longleftrightarrow> (unat h + j + 1) mod N = unat h"
        using nx by (simp add: word_unat_eq_iff [of h] eq_commute)
      then show ?thesis using wrap_iff [OF h Suc.prems(1)] Suc.prems(1) by auto
    qed
    show ?thesis
    proof (cases "Suc j < N")
      case lt: True
      have "probe d nxt body h (nxt idx) =
        (case find (\<lambda>j. body (of_nat ((unat h + j) mod N)) \<noteq> Some None) [Suc j..<N] of
           None \<Rightarrow> Some None | Some j \<Rightarrow> body (of_nat ((unat h + j) mod N)))"
        using Suc.hyps(1) [of "Suc j" "nxt idx"] fuel lt nx by simp
      then show ?thesis using True stop lt idx by (simp add: fuel up)
    next
      case False
      then show ?thesis using True stop idx by (simp add: fuel up)
    qed
  next
    case False
    then show ?thesis using idx by (auto simp: fuel up split: option.splits)
  qed
qed simp

lemma find_upt_cases:
  obtains (none) "find P [0..<N] = None" "\<And>j. j < N \<Longrightarrow> \<not> P j"
  | (some) j where "find P [0..<N] = Some j" "j < N" "P j" "\<And>i. i < j \<Longrightarrow> \<not> P i"
proof (cases "find P [0..<N]")
  case None
  then show thesis using none by (auto simp: find_None_iff)
next
  case (Some j)
  then show thesis using some [of j] by (auto simp: find_Some_iff)
qed

section \<open>Well-formed tables\<close>

definition taken :: "spsc_hashmap \<Rightarrow> nat \<Rightarrow> bool" where
  "taken hm i \<longleftrightarrow> e_used (sh_ht hm ! i) \<noteq> 0"

definition key_at :: "spsc_hashmap \<Rightarrow> nat \<Rightarrow> bytes" where
  "key_at hm i = e_key (sh_ht hm ! i)"

definition slot :: "spsc_hashmap \<Rightarrow> bytes \<Rightarrow> nat \<Rightarrow> nat" where
  "slot hm k j = (unat (home_idx hm k) + j) mod unat (sh_ht_size hm)"

definition taken_slots :: "spsc_hashmap \<Rightarrow> nat set" where
  "taken_slots hm = {i. i < unat (sh_ht_size hm) \<and> taken hm i}"

definition sh_shape :: "u32 \<Rightarrow> u32 \<Rightarrow> u32 \<Rightarrow> spsc_hashmap \<Rightarrow> bool" where
  "sh_shape ks vs me hm \<longleftrightarrow> sh_key_size hm = ks \<and> sh_value_size hm = vs \<and> sh_max_entries hm = me
     \<and> 0 < unat me \<and> unat me < 2 ^ 31 \<and> sh_ht_size hm = round_up_pow_of_two me
     \<and> length (sh_ht hm) = unat (round_up_pow_of_two me)"

text \<open>The number of taken slots is the count and at most the number of entries, no key occurs twice,
  and a key is reached from its home slot over taken slots only.\<close>

definition sh_inv :: "u32 \<Rightarrow> u32 \<Rightarrow> u32 \<Rightarrow> spsc_hashmap \<Rightarrow> bool" where
  "sh_inv ks vs me hm \<longleftrightarrow> sh_shape ks vs me hm
     \<and> sh_count hm = int (card (taken_slots hm)) \<and> card (taken_slots hm) \<le> unat me
     \<and> (\<forall>i \<in> taken_slots hm. length (key_at hm i) = unat ks)
     \<and> inj_on (key_at hm) (taken_slots hm)
     \<and> (\<forall>i \<in> taken_slots hm. \<exists>j. i = slot hm (key_at hm i) j \<and> (\<forall>j' < j. taken hm (slot hm (key_at hm i) j')))"

definition sh_contents :: "spsc_hashmap \<Rightarrow> bytes \<Rightarrow> bytes option" where
  "sh_contents hm k = map_option e_value (find (\<lambda>e. e_used e \<noteq> 0 \<and> e_key e = k) (sh_ht hm))"

lemma table_size:
  assumes "sh_shape ks vs me hm"
  obtains n where "n < 32" "sh_ht_size hm = 2 ^ n" "unat (sh_ht_size hm) = 2 ^ n" "unat me \<le> 2 ^ n"
    "length (sh_ht hm) = 2 ^ n"
proof -
  have me: "0 < unat me" "unat me < 2 ^ 31" using assms by (auto simp: sh_shape_def)
  obtain n where n: "n \<le> 32" "round_up_pow_of_two me = 2 ^ n" "unat (me - 1) < 2 ^ n"
    "0 < n \<Longrightarrow> 2 ^ (n - 1) \<le> unat (me - 1)"
    using round_up_exp [of me] by blast
  have m1: "unat (me - 1) = unat me - 1" using me(1) by (metis less_irrefl unat_0 unat_minus_one)
  have "n < 32"
  proof (rule ccontr)
    assume "\<not> n < 32"
    then have "n = 32" using n(1) by simp
    then show False using n(4) m1 me(2) by simp
  qed
  moreover from this have "unat (2 ^ n :: u32) = 2 ^ n" by (simp add: unat_exp)
  moreover have "unat me \<le> 2 ^ n" using n(3) m1 by linarith
  ultimately show thesis
    using that [of n] n(2) assms by (simp add: sh_shape_def)
qed

lemma slot_lt:
  assumes "sh_shape ks vs me hm"
  shows "slot hm k j < unat (sh_ht_size hm)"
proof -
  obtain n where "unat (sh_ht_size hm) = 2 ^ n" using table_size [OF assms] by metis
  then show ?thesis unfolding slot_def by simp
qed

lemma home_lt:
  assumes "sh_shape ks vs me hm"
  shows "unat (home_idx hm k) < unat (sh_ht_size hm)"
proof -
  obtain n where "n < 32" "sh_ht_size hm = 2 ^ n" "unat (sh_ht_size hm) = 2 ^ n"
    using table_size [OF assms] by metis
  then show ?thesis unfolding home_idx_def by (simp add: mask_index)
qed

text \<open>Every slot is on the way from the home slot of a key.\<close>

lemma slot_surj:
  assumes "sh_shape ks vs me hm" "i < unat (sh_ht_size hm)"
  obtains j where "j < unat (sh_ht_size hm)" "i = slot hm k j"
proof -
  let ?N = "unat (sh_ht_size hm)" and ?h = "unat (home_idx hm k)"
  have h: "?h < ?N" using home_lt [OF assms(1)] .
  show thesis
  proof (cases "?h \<le> i")
    case True
    then show thesis using that [of "i - ?h"] assms(2) by (simp add: slot_def)
  next
    case False
    then have "?h + (?N - ?h + i) = i + ?N" using h by simp
    then have "i = slot hm k (?N - ?h + i)"
      using assms(2) unfolding slot_def by (simp only: mod_add_self2 mod_less)
    then show thesis using that [of "?N - ?h + i"] False h by linarith
  qed
qed

lemma sh_contents_iff:
  assumes inv: "sh_inv ks vs me hm"
  shows "sh_contents hm k = Some v \<longleftrightarrow>
    (\<exists>i \<in> taken_slots hm. key_at hm i = k \<and> e_value (sh_ht hm ! i) = v)"
proof -
  have len: "length (sh_ht hm) = unat (sh_ht_size hm)" using inv by (simp add: sh_inv_def sh_shape_def)
  have inj: "inj_on (key_at hm) (taken_slots hm)" using inv by (simp add: sh_inv_def)
  show ?thesis
  proof (cases "find (\<lambda>e. e_used e \<noteq> 0 \<and> e_key e = k) (sh_ht hm)")
    case None
    then have "e_used (sh_ht hm ! i) = 0 \<or> e_key (sh_ht hm ! i) \<noteq> k" if "i < unat (sh_ht_size hm)" for i
      using that len nth_mem [of i "sh_ht hm"] by (auto simp: find_None_iff)
    then show ?thesis
      using None by (auto simp: sh_contents_def taken_slots_def taken_def key_at_def)
  next
    case (Some e)
    then obtain i where i: "i < length (sh_ht hm)" "e = sh_ht hm ! i" "e_used e \<noteq> 0" "e_key e = k"
      by (auto simp: find_Some_iff)
    then have "i \<in> taken_slots hm" "key_at hm i = k"
      using len by (auto simp: taken_slots_def taken_def key_at_def)
    then show ?thesis
      using Some i inj by (auto simp: sh_contents_def inj_on_def)
  qed
qed

lemma sh_contents_None:
  assumes "sh_inv ks vs me hm"
  shows "sh_contents hm k = None \<longleftrightarrow> (\<forall>i \<in> taken_slots hm. key_at hm i \<noteq> k)"
  using sh_contents_iff [OF assms, of k] by (metis not_None_eq)

lemma sh_dom_card:
  assumes inv: "sh_inv ks vs me hm"
  shows "card (dom (sh_contents hm)) = card (taken_slots hm)"
proof -
  have "dom (sh_contents hm) = key_at hm ` taken_slots hm"
    using sh_contents_iff [OF inv] by (auto simp: dom_def)
  then show ?thesis using inv by (simp add: sh_inv_def card_image)
qed

lemma finite_taken [simp]: "finite (taken_slots hm)"
  by (simp add: taken_slots_def)

lemma taken_full:
  assumes "card (taken_slots hm) = unat (sh_ht_size hm)" "i < unat (sh_ht_size hm)"
  shows "taken hm i"
proof -
  have "taken_slots hm = {..<unat (sh_ht_size hm)}"
    using assms(1) by (intro card_subset_eq) (auto simp: taken_slots_def)
  then show ?thesis using assms(2) by (auto simp: taken_slots_def)
qed

text \<open>The three ways a search for a key ends: at its slot, at a free slot, or after a whole round.\<close>

lemma search_cases:
  fixes k :: bytes
  assumes inv: "sh_inv ks vs me hm"
  defines "N \<equiv> unat (sh_ht_size hm)"
  defines "stop \<equiv> \<lambda>j. \<not> taken hm (slot hm k j) \<or> key_at hm (slot hm k j) = k"
  obtains (round) "find stop [0..<N] = None" "sh_contents hm k = None" "card (taken_slots hm) = N"
  | (free) j where "find stop [0..<N] = Some j" "j < N" "\<not> taken hm (slot hm k j)" "sh_contents hm k = None"
      "\<And>j'. j' < j \<Longrightarrow> taken hm (slot hm k j')"
  | (hit) j where "find stop [0..<N] = Some j" "j < N" "taken hm (slot hm k j)" "key_at hm (slot hm k j) = k"
      "sh_contents hm k = Some (e_value (sh_ht hm ! slot hm k j))"
proof (rule find_upt_cases [of stop N])
  have shape: "sh_shape ks vs me hm" using inv by (simp add: sh_inv_def)
  {
    assume n: "find stop [0..<N] = None" "\<And>j. j < N \<Longrightarrow> \<not> stop j"
    have all: "taken hm i \<and> key_at hm i \<noteq> k" if "i < N" for i
      using slot_surj [OF shape, of i k] that n(2) unfolding N_def stop_def by metis
    then have "taken_slots hm = {..<N}" by (auto simp: taken_slots_def N_def)
    then have "card (taken_slots hm) = N" by simp
    moreover have "sh_contents hm k = None"
      using sh_contents_None [OF inv] all by (auto simp: taken_slots_def N_def)
    ultimately show thesis using round n(1) by blast
  }
  fix j assume j: "find stop [0..<N] = Some j" "j < N" "stop j" "\<And>i. i < j \<Longrightarrow> \<not> stop i"
  have lt: "slot hm k j < N" using slot_lt [OF shape] by (simp add: N_def)
  show thesis
  proof (cases "taken hm (slot hm k j)")
    case True
    then have key: "key_at hm (slot hm k j) = k" using j(3) by (simp add: stop_def)
    then have "sh_contents hm k = Some (e_value (sh_ht hm ! slot hm k j))"
      using True lt sh_contents_iff [OF inv] by (auto simp: taken_slots_def N_def)
    then show thesis using hit j True key by blast
  next
    case False
    have "key_at hm i \<noteq> k" if i: "i \<in> taken_slots hm" for i
    proof
      assume k: "key_at hm i = k"
      then obtain j0 where j0: "i = slot hm k j0" "\<forall>j' < j0. taken hm (slot hm k j')"
        using inv i by (auto simp: sh_inv_def)
      have "stop j0" using j0(1) k by (simp add: stop_def)
      then have "j \<le> j0" using j(4) by (meson not_le)
      then show False
        using False j0 i by (cases "j = j0") (auto simp: taken_slots_def)
    qed
    then have "sh_contents hm k = None" using sh_contents_None [OF inv] by blast
    moreover have "taken hm (slot hm k j')" if "j' < j" for j'
      using j(4) [OF that] by (simp add: stop_def)
    ultimately show thesis using free j False by blast
  qed
qed

section \<open>Lookups and updates\<close>

lemma slot_word:
  assumes "sh_shape ks vs me hm"
  shows "unat (of_nat (slot hm k j) :: u32) = slot hm k j" "slot hm k j < length (sh_ht hm)"
proof -
  obtain n where n: "n < 32" "unat (sh_ht_size hm) = 2 ^ n" "length (sh_ht hm) = 2 ^ n"
    using table_size [OF assms] by metis
  have lt: "slot hm k j < 2 ^ n" using slot_lt [OF assms, of k j] n(2) by simp
  then show "slot hm k j < length (sh_ht hm)" using n(3) by simp
  have "(2 :: nat) ^ n < 2 ^ 32" using n(1) by (intro power_strict_increasing) simp_all
  with lt show "unat (of_nat (slot hm k j) :: u32) = slot hm k j"
    by (simp add: unat_of_nat take_bit_nat_eq_self)
qed

lemma table_probe:
  assumes "sh_shape ks vs me hm"
  shows "probe (unat (sh_ht_size hm)) (next_idx hm) body (home_idx hm k) (home_idx hm k) =
    (case find (\<lambda>j. body (of_nat (slot hm k j)) \<noteq> Some None) [0..<unat (sh_ht_size hm)] of
       None \<Rightarrow> Some None | Some j \<Rightarrow> body (of_nat (slot hm k j)))"
proof -
  obtain n where n: "n < 32" "sh_ht_size hm = 2 ^ n" "unat (sh_ht_size hm) = 2 ^ n"
    using table_size [OF assms] by metis
  have "(2 :: nat) ^ n \<le> 2 ^ 32" using n(1) by (intro power_increasing) simp_all
  moreover have "unat (home_idx hm k) < 2 ^ n" using home_lt [OF assms, of k] n(3) by simp
  ultimately have "probe (2 ^ n - 0) (next_idx hm) body (home_idx hm k) (home_idx hm k) =
    (case find (\<lambda>j. body (of_nat ((unat (home_idx hm k) + j) mod 2 ^ n)) \<noteq> Some None) [0..<2 ^ n] of
       None \<Rightarrow> Some None | Some j \<Rightarrow> body (of_nat ((unat (home_idx hm k) + j) mod 2 ^ n)))"
    by (intro probe_find next_idx_mod [OF n(2,1)]) simp_all
  then show ?thesis unfolding slot_def n(3) by simp
qed

lemma lookup_body_slot:
  assumes "sh_shape ks vs me hm"
  shows "lookup_body hm k (of_nat (slot hm k j)) =
    (if \<not> taken hm (slot hm k j) then Some (Some None)
     else if key_at hm (slot hm k j) = k then Some (Some (Some (slot hm k j))) else Some None)"
  using slot_word [OF assms, of k j] by (simp add: lookup_body_def taken_def key_at_def)

lemma lookup_elem_spec:
  assumes inv: "sh_inv ks vs me hm" and k: "length k = unat ks"
  shows "\<exists>p. jbpf_bpf_spsc_hashmap_lookup_elem hm k = Some p
    \<and> sh_contents hm k = map_option (\<lambda>i. e_value (sh_ht hm ! i)) p
    \<and> (\<forall>i. p = Some i \<longrightarrow> i \<in> taken_slots hm \<and> key_at hm i = k)"
proof -
  have shape: "sh_shape ks vs me hm" using inv by (simp add: sh_inv_def)
  have rd: "read_bytes (unat (sh_key_size hm)) k = Some k"
    using shape k by (simp add: read_bytes_def sh_shape_def)
  have stop: "lookup_body hm k (of_nat (slot hm k j)) \<noteq> Some None \<longleftrightarrow>
      \<not> taken hm (slot hm k j) \<or> key_at hm (slot hm k j) = k" for j
    by (simp add: lookup_body_slot [OF shape])
  show ?thesis
  proof (cases rule: search_cases [OF inv, of k])
    case 1
    then show ?thesis
      by (simp add: jbpf_bpf_spsc_hashmap_lookup_elem_def rd table_probe [OF shape] stop)
  next
    case (2 j)
    then show ?thesis
      using lookup_body_slot [OF shape, of k j]
      by (simp add: jbpf_bpf_spsc_hashmap_lookup_elem_def rd table_probe [OF shape] stop)
  next
    case (3 j)
    then show ?thesis
      using slot_lt [OF shape, of k j] lookup_body_slot [OF shape, of k j]
      by (simp add: jbpf_bpf_spsc_hashmap_lookup_elem_def rd table_probe [OF shape] stop taken_slots_def)
  qed
qed

text \<open>Writing the value of a taken slot, and taking a free one.\<close>

lemma home_idx_ht [simp]: "home_idx (hm\<lparr>sh_ht := h, sh_count := c\<rparr>) = home_idx hm"
  "home_idx (hm\<lparr>sh_ht := h\<rparr>) = home_idx hm"
  by (simp_all add: home_idx_def fun_eq_iff)

lemma slot_ht [simp]: "slot (hm\<lparr>sh_ht := h, sh_count := c\<rparr>) = slot hm" "slot (hm\<lparr>sh_ht := h\<rparr>) = slot hm"
  by (simp_all add: slot_def fun_eq_iff)

lemma sh_write_value:
  fixes v :: bytes
  assumes inv: "sh_inv ks vs me hm" and i: "i \<in> taken_slots hm"
  defines "hm' \<equiv> hm\<lparr>sh_ht := (sh_ht hm)[i := (sh_ht hm ! i)\<lparr>e_key := key_at hm i, e_value := v\<rparr>]\<rparr>"
  shows "sh_inv ks vs me hm' \<and> sh_contents hm' = (sh_contents hm)(key_at hm i \<mapsto> v)"
proof -
  have len: "length (sh_ht hm) = unat (sh_ht_size hm)" "i < length (sh_ht hm)"
    using inv i by (simp_all add: sh_inv_def sh_shape_def taken_slots_def)
  have at: "taken hm' = taken hm" "key_at hm' = key_at hm"
    using len by (auto simp: taken_def key_at_def hm'_def fun_eq_iff nth_list_update)
  have ts: "taken_slots hm' = taken_slots hm"
    by (simp add: taken_slots_def at) (simp add: hm'_def)
  have slot': "slot hm' = slot hm" by (simp add: hm'_def)
  have val: "e_value (sh_ht hm' ! i') = (if i' = i then v else e_value (sh_ht hm ! i'))" for i'
    using len by (simp add: hm'_def nth_list_update)
  have inv': "sh_inv ks vs me hm'"
    using inv by (simp add: sh_inv_def at ts slot') (simp add: hm'_def sh_shape_def)
  have inj: "inj_on (key_at hm) (taken_slots hm)" using inv by (simp add: sh_inv_def)
  have "sh_contents hm' k = ((sh_contents hm)(key_at hm i \<mapsto> v)) k" for k
  proof (cases "k = key_at hm i")
    case True
    then show ?thesis using sh_contents_iff [OF inv', of k v] i by (auto simp: at ts val)
  next
    case False
    then have "sh_contents hm' k = Some w \<longleftrightarrow> sh_contents hm k = Some w" for w
      by (auto simp: sh_contents_iff [OF inv'] sh_contents_iff [OF inv] at ts val)
    then show ?thesis using False by (metis fun_upd_other not_None_eq)
  qed
  then show ?thesis using inv' by blast
qed

lemma sh_insert:
  fixes v :: bytes
  assumes inv: "sh_inv ks vs me hm" and k: "length k = unat ks" "sh_contents hm k = None"
    and j: "\<not> taken hm (slot hm k j)" "\<And>j'. j' < j \<Longrightarrow> taken hm (slot hm k j')"
    and room: "card (taken_slots hm) < unat me"
  defines "hm' \<equiv> hm\<lparr>sh_ht := (sh_ht hm)[slot hm k j := \<lparr> e_used = 1, e_key = k, e_value = v \<rparr>],
    sh_count := c_int (sh_count hm + 1)\<rparr>"
  shows "sh_inv ks vs me hm' \<and> sh_contents hm' = (sh_contents hm)(k \<mapsto> v)"
proof -
  let ?i = "slot hm k j"
  have shape: "sh_shape ks vs me hm" using inv by (simp add: sh_inv_def)
  have i: "?i < length (sh_ht hm)" "?i < unat (sh_ht_size hm)"
    using slot_word [OF shape] slot_lt [OF shape] by simp_all
  have at: "taken hm' i' \<longleftrightarrow> i' = ?i \<or> taken hm i'" "key_at hm' i' = (if i' = ?i then k else key_at hm i')" for i'
    using i by (simp_all add: taken_def key_at_def hm'_def nth_list_update)
  have sz: "sh_ht_size hm' = sh_ht_size hm" by (simp add: hm'_def)
  have ts: "taken_slots hm' = insert ?i (taken_slots hm)" "?i \<notin> taken_slots hm"
    using i j(1) by (auto simp: taken_slots_def at sz)
  have slot': "slot hm' = slot hm" by (simp add: hm'_def)
  have val: "e_value (sh_ht hm' ! i') = (if i' = ?i then v else e_value (sh_ht hm ! i'))" for i'
    using i by (simp add: hm'_def nth_list_update)
  have keys: "\<forall>i' \<in> taken_slots hm. key_at hm i' \<noteq> k"
    using k(2) sh_contents_None [OF inv] by blast
  have card: "card (taken_slots hm') = card (taken_slots hm) + 1" using ts by simp
  have cnt: "sh_count hm' = int (card (taken_slots hm'))"
    using inv room card shape by (simp add: hm'_def sh_inv_def sh_shape_def c_int_id)
  have "inj_on (key_at hm) (taken_slots hm)" using inv by (simp add: sh_inv_def)
  then have inj: "inj_on (key_at hm') (taken_slots hm')"
    using keys ts by (auto simp: inj_on_def at)
  have chain: "\<exists>j. i' = slot hm (key_at hm' i') j \<and> (\<forall>j' < j. taken hm' (slot hm (key_at hm' i') j'))"
    if "i' \<in> taken_slots hm'" for i'
  proof (cases "i' = ?i")
    case True
    then show ?thesis using j(2) by (auto simp: at)
  next
    case False
    then have "i' \<in> taken_slots hm" using that ts(1) by simp
    then obtain j0 where "i' = slot hm (key_at hm i') j0" "\<forall>j' < j0. taken hm (slot hm (key_at hm i') j')"
      using inv unfolding sh_inv_def by blast
    then show ?thesis using False by (auto simp: at)
  qed
  have inv': "sh_inv ks vs me hm'"
    using inv cnt card room inj chain k(1) ts unfolding sh_inv_def slot'
    by (auto simp: at) (simp_all add: hm'_def sh_shape_def)
  have "sh_contents hm' k' = ((sh_contents hm)(k \<mapsto> v)) k'" for k'
  proof (cases "k' = k")
    case True
    then show ?thesis using sh_contents_iff [OF inv', of k v] ts by (auto simp: at val)
  next
    case False
    then have "sh_contents hm' k' = Some w \<longleftrightarrow> sh_contents hm k' = Some w" for w
      using ts by (auto simp: sh_contents_iff [OF inv'] sh_contents_iff [OF inv] at val) metis
    then show ?thesis using False by (metis fun_upd_other not_None_eq)
  qed
  then show ?thesis using inv' by blast
qed

lemma update_body_slot:
  assumes "sh_shape ks vs me hm"
  shows "update_body hm k v (of_nat (slot hm k j)) =
    (if \<not> taken hm (slot hm k j) then
       (if c_u32 (sh_count hm) = unat me then Some (Some (JBPF_MAP_FULL, hm))
        else Some (Some (JBPF_MAP_SUCCESS,
          hm\<lparr>sh_ht := (sh_ht hm)[slot hm k j := \<lparr> e_used = 1, e_key = k, e_value = v \<rparr>],
             sh_count := c_int (sh_count hm + 1)\<rparr>)))
     else if key_at hm (slot hm k j) = k then
       Some (Some (JBPF_MAP_SUCCESS, hm\<lparr>sh_ht := (sh_ht hm)[slot hm k j :=
         (sh_ht hm ! slot hm k j)\<lparr>e_key := k, e_value := v\<rparr>]\<rparr>))
     else Some None)"
  using slot_word [OF assms, of k j] assms by (simp add: update_body_def taken_def key_at_def sh_shape_def)

definition sh_accepts :: "u32 \<Rightarrow> (bytes \<Rightarrow> bytes option) \<Rightarrow> bytes \<Rightarrow> bool" where
  "sh_accepts me m k \<longleftrightarrow> m k \<noteq> None \<or> card (dom m) < unat me"

lemma update_elem_spec:
  assumes inv: "sh_inv ks vs me hm" and k: "length k = unat ks" and v: "length v = unat vs"
  shows "\<exists>hm'. jbpf_bpf_spsc_hashmap_update_elem hm k v fl
      = Some (if sh_accepts me (sh_contents hm) k then 0 else - 4, hm') \<and> sh_inv ks vs me hm'
    \<and> sh_contents hm' = (if sh_accepts me (sh_contents hm) k then (sh_contents hm)(k \<mapsto> v) else sh_contents hm)"
proof -
  have shape: "sh_shape ks vs me hm" using inv by (simp add: sh_inv_def)
  have rd: "read_bytes (unat (sh_key_size hm)) k = Some k" "read_bytes (unat (sh_value_size hm)) v = Some v"
    using shape k v by (simp_all add: read_bytes_def sh_shape_def)
  have stop: "update_body hm k v (of_nat (slot hm k j)) \<noteq> Some None \<longleftrightarrow>
      \<not> taken hm (slot hm k j) \<or> key_at hm (slot hm k j) = k" for j
    by (simp add: update_body_slot [OF shape])
  have cnt: "c_u32 (sh_count hm) = card (taken_slots hm)" "card (taken_slots hm) \<le> unat me"
    using inv by (simp_all add: sh_inv_def sh_shape_def)
  have acc: "sh_accepts me (sh_contents hm) k \<longleftrightarrow> sh_contents hm k \<noteq> None \<or> card (taken_slots hm) < unat me"
    by (simp add: sh_accepts_def sh_dom_card [OF inv])
  note eval = jbpf_bpf_spsc_hashmap_update_elem_def rd table_probe [OF shape] stop map_codes
  show ?thesis
  proof (cases rule: search_cases [OF inv, of k])
    case 1
    have "unat me \<le> unat (sh_ht_size hm)" using table_size [OF shape] by metis
    then have "\<not> sh_accepts me (sh_contents hm) k" using 1 cnt acc by simp
    then show ?thesis using 1 inv by (simp add: eval)
  next
    case (2 j)
    show ?thesis
    proof (cases "card (taken_slots hm) < unat me")
      case True
      then show ?thesis
        using 2 acc cnt update_body_slot [OF shape, of k v j] sh_insert [OF inv k 2(4,3,5) True, of v]
        by (simp add: eval)
    next
      case False
      then have "card (taken_slots hm) = unat me" using cnt(2) by simp
      then show ?thesis
        using 2 acc cnt update_body_slot [OF shape, of k v j] inv by (simp add: eval)
    qed
  next
    case (3 j)
    have "slot hm k j \<in> taken_slots hm"
      using 3 slot_lt [OF shape, of k j] by (simp add: taken_slots_def)
    from sh_write_value [OF inv this, of v] show ?thesis
      using 3 acc update_body_slot [OF shape, of k v j] by (simp add: eval)
  qed
qed

lemma reset_elem_spec:
  assumes inv: "sh_inv ks vs me hm" and k: "length k = unat ks"
  shows "\<exists>p hm'. jbpf_bpf_spsc_hashmap_reset_elem hm k = Some (p, hm')
    \<and> (p \<noteq> None \<longleftrightarrow> sh_contents hm k \<noteq> None) \<and> sh_inv ks vs me hm'
    \<and> sh_contents hm' = (if sh_contents hm k = None then sh_contents hm
        else (sh_contents hm)(k \<mapsto> replicate (unat vs) 0))"
proof -
  obtain p where p: "jbpf_bpf_spsc_hashmap_lookup_elem hm k = Some p"
      "sh_contents hm k = map_option (\<lambda>i. e_value (sh_ht hm ! i)) p"
      "\<And>i. p = Some i \<Longrightarrow> i \<in> taken_slots hm \<and> key_at hm i = k"
    using lookup_elem_spec [OF inv k] by blast
  show ?thesis
  proof (cases p)
    case None
    then show ?thesis using p inv by (simp add: jbpf_bpf_spsc_hashmap_reset_elem_def)
  next
    case (Some i)
    then have i: "i \<in> taken_slots hm" "key_at hm i = k" using p(3) by blast+
    then have "i < length (sh_ht hm)" using inv by (simp add: taken_slots_def sh_inv_def sh_shape_def)
    moreover have "sh_value_size hm = vs" using inv by (simp add: sh_inv_def sh_shape_def)
    moreover have "(sh_ht hm ! i)\<lparr>e_key := key_at hm i, e_value := w\<rparr> = (sh_ht hm ! i)\<lparr>e_value := w\<rparr>" for w
      by (simp add: key_at_def)
    ultimately show ?thesis
      using p Some sh_write_value [OF inv i(1), of "replicate (unat vs) 0"] i(2)
      by (simp add: jbpf_bpf_spsc_hashmap_reset_elem_def)
  qed
qed

lemma sh_empty_inv:
  assumes "sh_shape ks vs me hm" "sh_count hm = 0" "set (sh_ht hm) \<subseteq> {entry_zero ks vs}"
  shows "sh_inv ks vs me hm \<and> sh_contents hm = Map.empty"
proof -
  have len: "length (sh_ht hm) = unat (sh_ht_size hm)" using assms(1) by (simp add: sh_shape_def)
  have "taken_slots hm = {}"
  proof -
    have "e_used (sh_ht hm ! i) = 0" if "i < unat (sh_ht_size hm)" for i
    proof -
      have "sh_ht hm ! i \<in> set (sh_ht hm)" using that len by simp
      then have "sh_ht hm ! i = entry_zero ks vs" using assms(3) by blast
      then show ?thesis by (simp add: entry_zero_def)
    qed
    then show ?thesis by (auto simp: taken_slots_def taken_def)
  qed
  then have "sh_inv ks vs me hm" using assms by (simp add: sh_inv_def)
  moreover from this have "sh_contents hm k = None" for k
    using sh_contents_None \<open>taken_slots hm = {}\<close> by simp
  ultimately show ?thesis by blast
qed

section \<open>The contract\<close>

definition sh_lookup :: "spsc_hashmap \<Rightarrow> bytes \<Rightarrow> bytes option option" where
  "sh_lookup hm k = map_option (map_option (\<lambda>i. e_value (sh_ht hm ! i))) (jbpf_bpf_spsc_hashmap_lookup_elem hm k)"

definition sh_update :: "spsc_hashmap \<Rightarrow> bytes \<Rightarrow> bytes \<Rightarrow> (int \<times> spsc_hashmap) option" where
  "sh_update hm k v = jbpf_bpf_spsc_hashmap_update_elem hm k v 0"

definition sh_reset :: "spsc_hashmap \<Rightarrow> bytes \<Rightarrow> (bool \<times> spsc_hashmap) option" where
  "sh_reset hm k = map_option (\<lambda>(p, hm'). (p \<noteq> None, hm')) (jbpf_bpf_spsc_hashmap_reset_elem hm k)"

interpretation spsc: bpf_map "sh_inv ks vs me" sh_contents sh_lookup sh_update sh_reset
  jbpf_bpf_spsc_hashmap_clear "\<lambda>k. length k = unat ks" "\<lambda>v. length v = unat vs" "sh_accepts me" "- 4"
  "replicate (unat vs) 0" Map.empty for ks vs me
proof (unfold_locales, goal_cases)
  case (1 s k)
  then show ?case using lookup_elem_spec [of ks vs me s k] by (auto simp: sh_lookup_def)
next
  case (2 s k v)
  then show ?case using update_elem_spec [of ks vs me s k v 0] by (simp add: sh_update_def)
next
  case (3 s k)
  then show ?case using reset_elem_spec [of ks vs me s k] by (auto simp: sh_reset_def)
next
  case (4 s)
  let ?s = "s\<lparr>sh_count := 0, sh_ht := map (\<lambda>_. entry_zero (sh_key_size s) (sh_value_size s)) (sh_ht s)\<rparr>"
  have "sh_shape ks vs me ?s" using 4 by (simp add: sh_inv_def sh_shape_def)
  moreover have "set (sh_ht ?s) \<subseteq> {entry_zero ks vs}" using 4 by (auto simp: sh_inv_def sh_shape_def)
  ultimately have "sh_inv ks vs me ?s \<and> sh_contents ?s = Map.empty" by (intro sh_empty_inv) simp_all
  then show ?case by (simp add: jbpf_bpf_spsc_hashmap_clear_def map_codes)
qed

lemma spsc_create_spec:
  assumes "jbpf_bpf_spsc_hashmap_create ok1 ok2 md = Some hm"
    and "0 < unat (md_max_entries md)" "unat (md_max_entries md) < 2 ^ 31"
  shows "sh_inv (md_key_size md) (md_value_size md) (md_max_entries md) hm \<and> sh_contents hm = Map.empty"
  using assms
  by (intro sh_empty_inv) (auto simp: jbpf_bpf_spsc_hashmap_create_def Let_def sh_shape_def split: if_splits)

section \<open>Deletion returns\<close>

lemma probe_total:
  assumes shape: "sh_shape ks vs me hm" and h: "unat h < unat (sh_ht_size hm)"
    and j: "j < unat (sh_ht_size hm)" "unat idx = (unat h + j) mod unat (sh_ht_size hm)"
    and body: "\<And>i. unat i < unat (sh_ht_size hm) \<Longrightarrow> body i \<noteq> None"
  shows "\<exists>r. probe (unat (sh_ht_size hm) - j) (next_idx hm) body h idx = Some r
    \<and> (\<forall>x. r = Some x \<longrightarrow> (\<exists>i. unat i < unat (sh_ht_size hm) \<and> i \<noteq> h \<and> body i = Some (Some x)) \<or>
        (j = 0 \<and> (\<exists>i. unat i < unat (sh_ht_size hm) \<and> body i = Some (Some x))))"
proof -
  obtain n where n: "n < 32" "sh_ht_size hm = 2 ^ n" "unat (sh_ht_size hm) = 2 ^ n"
    using table_size [OF shape] by metis
  let ?N = "(2 :: nat) ^ n"
  let ?B = "\<lambda>j. body (of_nat ((unat h + j) mod ?N))"
  have N: "?N \<le> 2 ^ 32" using n(1) by (intro power_increasing) simp_all
  have eq: "probe (?N - j) (next_idx hm) body h idx =
      (case find (\<lambda>j. ?B j \<noteq> Some None) [j..<?N] of None \<Rightarrow> Some None | Some j \<Rightarrow> ?B j)"
    using h j N by (intro probe_find next_idx_mod [OF n(2,1)]) (simp_all only: n(3))
  have word: "unat (of_nat ((unat h + i) mod ?N) :: u32) = (unat h + i) mod ?N" for i
  proof -
    have "(unat h + i) mod ?N < ?N" by simp
    then have "(unat h + i) mod ?N < 2 ^ 32" using N by (rule less_le_trans)
    then show ?thesis by (simp add: unat_of_nat take_bit_nat_eq_self)
  qed
  show ?thesis
  proof (cases "find (\<lambda>j. ?B j \<noteq> Some None) [j..<?N]")
    case None
    then show ?thesis using eq by (simp add: n(3))
  next
    case (Some i)
    then have i: "i \<in> set [j..<?N]" by (metis find_Some_iff nth_mem)
    let ?w = "of_nat ((unat h + i) mod ?N) :: u32"
    have lt: "unat ?w < ?N" by (simp only: word) simp
    then obtain r where r: "body ?w = Some r" using body n(3) by fastforce
    have "?w \<noteq> h" if "0 < j"
    proof
      assume "?w = h"
      then have "(unat h + (i - 1) + 1) mod ?N = unat h" using word [of i] i that by simp
      then have "i - 1 + 1 = ?N" using wrap_iff [of "unat h" ?N "i - 1"] h n(3) i by auto
      then show False using i that by simp
    qed
    then have "?w \<noteq> h \<or> j = 0" by blast
    then show ?thesis
      using eq Some r lt by (auto simp: n(3) intro: exI [of _ ?w])
  qed
qed

lemma restructure_spec:
  assumes shape: "sh_shape ks vs me hm" and root: "unat root < unat (sh_ht_size hm)"
  shows "\<exists>x hm'. jbpf_bpf_spsc_hashmap_restructure hm root = Some (x, hm') \<and> sh_shape ks vs me hm'
    \<and> (x \<noteq> - 1 \<longrightarrow> card (taken_slots hm' - {unat root}) < card (taken_slots hm - {unat root}))"
proof (cases "next_idx hm root = root")
  case True
  then show ?thesis using shape by (simp add: jbpf_bpf_spsc_hashmap_restructure_def)
next
  case False
  obtain n where n: "n < 32" "sh_ht_size hm = 2 ^ n" "unat (sh_ht_size hm) = 2 ^ n" "length (sh_ht hm) = 2 ^ n"
    using table_size [OF shape] by metis
  have nx: "unat (next_idx hm root) = (unat root + 1) mod unat (sh_ht_size hm)"
    using next_idx_mod [OF n(2,1)] n(3) by simp
  have big: "1 < unat (sh_ht_size hm)"
  proof (rule ccontr)
    assume "\<not> 1 < unat (sh_ht_size hm)"
    then have "unat (sh_ht_size hm) = 1" using root by linarith
    then have "unat (next_idx hm root) = unat root" using nx root by simp
    then show False using False by (simp add: word_unat_eq_iff)
  qed
  have body: "restructure_body hm root i \<noteq> None" if "unat i < unat (sh_ht_size hm)" for i
    using that root n by (simp add: restructure_body_def Let_def)
  obtain r where r: "probe (unat (sh_ht_size hm) - 1) (next_idx hm) (restructure_body hm root) root (next_idx hm root) = Some r"
    "\<And>x. r = Some x \<Longrightarrow> \<exists>i. unat i < unat (sh_ht_size hm) \<and> i \<noteq> root \<and> restructure_body hm root i = Some (Some x)"
    using probe_total [OF shape root big nx, of "restructure_body hm root"] body by auto
  show ?thesis
  proof (cases r)
    case None
    then show ?thesis using r(1) False shape by (simp add: jbpf_bpf_spsc_hashmap_restructure_def Let_def)
  next
    case (Some x)
    then obtain i where i: "unat i < unat (sh_ht_size hm)" "i \<noteq> root" "restructure_body hm root i = Some (Some x)"
      using r(2) by blast
    obtain y hm' where x: "x = (y, hm')" by (cases x)
    have res: "jbpf_bpf_spsc_hashmap_restructure hm root = Some (y, hm')"
      using r(1) Some x False by (simp add: jbpf_bpf_spsc_hashmap_restructure_def Let_def)
    let ?e = "sh_ht hm ! unat i"
    have ne: "unat i \<noteq> unat root" using i(2) by (simp add: word_unat_eq_iff)
    consider "y = - 1" "hm' = hm"
      | "e_used ?e \<noteq> 0" "hm' = hm\<lparr>sh_ht := (sh_ht hm)[unat root := ?e, unat i := entry_zero (sh_key_size hm) (sh_value_size hm)]\<rparr>"
      using i(1,3) x n root by (auto simp: restructure_body_def Let_def split: if_splits)
    then show ?thesis
    proof cases
      case 1
      then show ?thesis using res shape by simp
    next
      case 2
      have "taken hm' k \<longleftrightarrow> k \<noteq> unat i \<and> (k = unat root \<or> taken hm k)" for k
        using 2 i(1) root n ne by (auto simp: taken_def nth_list_update entry_zero_def)
      then have "taken_slots hm' - {unat root} = (taken_slots hm - {unat root}) - {unat i}"
        using 2(2) by (auto simp: taken_slots_def)
      moreover have "unat i \<in> taken_slots hm - {unat root}"
        using i(1) 2(1) ne by (simp add: taken_slots_def taken_def)
      ultimately have "card (taken_slots hm' - {unat root}) < card (taken_slots hm - {unat root})"
        using card_Diff1_less [of "taken_slots hm - {unat root}" "unat i"] by simp
      moreover have "sh_shape ks vs me hm'" using 2(2) shape by (simp add: sh_shape_def)
      ultimately show ?thesis using res by blast
    qed
  qed
qed

lemma restructure_all_total:
  assumes "sh_shape ks vs me hm" "unat root < unat (sh_ht_size hm)"
    "card (taken_slots hm - {unat root}) < fuel"
  shows "\<exists>hm'. restructure_all fuel hm root = Some hm' \<and> sh_shape ks vs me hm'"
  using assms
proof (induction fuel arbitrary: hm)
  case (Suc fuel)
  obtain x hm' where r: "jbpf_bpf_spsc_hashmap_restructure hm root = Some (x, hm')" "sh_shape ks vs me hm'"
    "x \<noteq> - 1 \<Longrightarrow> card (taken_slots hm' - {unat root}) < card (taken_slots hm - {unat root})"
    using restructure_spec [OF Suc.prems(1,2)] by blast
  show ?case
  proof (cases "x = - 1")
    case True
    then show ?thesis using r by simp
  next
    case False
    then have "card (taken_slots hm' - {unat root}) < fuel" using r(3) Suc.prems(3) by simp
    moreover have "unat root < unat (sh_ht_size hm')"
      using Suc.prems(1,2) r(2) by (simp add: sh_shape_def)
    ultimately show ?thesis using Suc.IH [OF r(2)] r(1) False by simp
  qed
qed simp

lemma delete_total:
  assumes shape: "sh_shape ks vs me hm" and k: "length k = unat ks"
  shows "\<exists>r hm'. jbpf_bpf_spsc_hashmap_delete_elem hm k = Some (r, hm') \<and> sh_shape ks vs me hm'
    \<and> (r = JBPF_MAP_SUCCESS \<or> r = JBPF_MAP_ERROR \<and> hm' = hm)"
proof -
  let ?h = "home_idx hm k"
  obtain n where n: "unat (sh_ht_size hm) = 2 ^ n" "length (sh_ht hm) = 2 ^ n" using table_size [OF shape] by metis
  have h: "unat ?h < unat (sh_ht_size hm)" by (rule home_lt [OF shape])
  have ks: "sh_key_size hm = ks" using shape by (simp add: sh_shape_def)
  have body: "\<And>i. unat i < unat (sh_ht_size hm) \<Longrightarrow> delete_body hm k i \<noteq> None"
    using n by (simp add: delete_body_def)
  obtain r where r: "probe (unat (sh_ht_size hm)) (next_idx hm) (delete_body hm k) ?h ?h = Some r"
    "\<And>x. r = Some x \<Longrightarrow> \<exists>i. unat i < unat (sh_ht_size hm) \<and> delete_body hm k i = Some (Some x)"
    using probe_total [OF shape h, of 0 ?h "delete_body hm k"] h body by auto
  show ?thesis
  proof (cases "e_used (sh_ht hm ! unat ?h) = 0 \<or> r = None")
    case True
    then show ?thesis
      using r(1) h n shape k ks
      by (cases "e_used (sh_ht hm ! unat ?h) = 0")
        (auto simp: jbpf_bpf_spsc_hashmap_delete_elem_def read_bytes_def Let_def)
  next
    case False
    then obtain idx hm1 where x: "r = Some (idx, hm1)" by auto
    obtain i where i: "unat i < unat (sh_ht_size hm)" "delete_body hm k i = Some (Some (idx, hm1))"
      using r(2) x by blast
    then have hm1: "idx = i" "sh_shape ks vs me hm1" "sh_ht_size hm1 = sh_ht_size hm"
      using shape n by (auto simp: delete_body_def sh_shape_def split: if_splits)
    have "card (taken_slots hm1 - {unat idx}) \<le> card {..<unat (sh_ht_size hm1)}"
      by (intro card_mono) (auto simp: taken_slots_def)
    then have "card (taken_slots hm1 - {unat idx}) < unat (sh_ht_size hm1) + 1" by simp
    from restructure_all_total [OF hm1(2) _ this] obtain hm2 where
      "restructure_all (unat (sh_ht_size hm1) + 1) hm1 idx = Some hm2" "sh_shape ks vs me hm2"
      using i(1) hm1 by auto
    then show ?thesis
      using False r(1) x h n k ks by (auto simp: jbpf_bpf_spsc_hashmap_delete_elem_def read_bytes_def Let_def
          simp del: restructure_all.simps)
  qed
qed

section \<open>Hashes of three keys\<close>

lemma final_steps:
  assumes "(c XOR b) - rot b 14 = c1" "(a XOR c1) - rot c1 11 = a1" "(b XOR a1) - rot a1 25 = b1"
    "(c1 XOR b1) - rot b1 16 = c2" "(a1 XOR c2) - rot c2 4 = a2" "(b1 XOR a2) - rot a2 14 = b2"
    "(c2 XOR b2) - rot b2 24 = c3"
  shows "final (a, b, c) = (a2, b2, c3)"
  unfolding final_def Let_def using assms by simp

lemma hash_of_4:
  assumes "final (0xdf127f45 + rd32 (\<lambda>i. [b0, b1, b2, b3] ! i) 0, 0xdf127f45, 0xdf127f45) = (a, b, c)"
  shows "jbpf_bpf_spsc_hashmap_hash [b0, b1, b2, b3] = c"
  using assms
  by (simp add: jbpf_bpf_spsc_hashmap_hash_def hashlittle_def lib_config_def run_path_def hash_loop.simps
      tail32_def Let_def)

lemma hash_key_0: "jbpf_bpf_spsc_hashmap_hash [0, 0, 0, 0] = 0x16646d21"
  by (rule hash_of_4, rule final_steps [of _ _ "0x602e883c" _ "0x4afb1478" "0xa5537515" "0x506857d6" "0x140dc649" "0x3fcc6e59"])
    (simp_all add: rd32_def rot_def)

lemma hash_key_1: "jbpf_bpf_spsc_hashmap_hash [1, 0, 0, 0] = 0xf5e4a5b"
  by (rule hash_of_4, rule final_steps [of _ _ "0x602e883c" _ "0x4afb1479" "0xa3537514" "0x4e6959d5" "0x1dfcb058" "0x9299bdcd"])
    (simp_all add: rd32_def rot_def)

lemma hash_key_3: "jbpf_bpf_spsc_hashmap_hash [3, 0, 0, 0] = 0x6ac99b59"
  by (rule hash_of_4, rule final_steps [of _ _ "0x602e883c" _ "0x4afb1473" "0xaf53750e" "0x5a6f4ddf" "0x699f7bb7" "0xe7de3452"])
    (simp_all add: rd32_def rot_def)

section \<open>Properties\<close>


definition example_map_def :: jbpf_load_map_def where
  "example_map_def = \<lparr> md_type = 6, md_key_size = 4, md_value_size = 1, md_max_entries = 2 \<rparr>"


text \<open>C32: Deleting from any table of the right shape, whatever its entries, comes to an end without a
  fault: the repeated restructuring clears one more entry each time.\<close>

theorem spsc_delete_terminates:
  assumes "sh_shape ks vs me hm" and "length k = unat ks"
  shows "\<exists>r hm'. jbpf_bpf_spsc_hashmap_delete_elem hm k = Some (r, hm')
    \<and> sh_shape ks vs me hm' \<and> (r = JBPF_MAP_SUCCESS \<or> r = JBPF_MAP_ERROR \<and> hm' = hm)"
  using delete_total [OF assms] .

theorem spsc_delete_terminates_witness:
  "\<exists>r hm'. jbpf_bpf_spsc_hashmap_delete_elem \<lparr> sh_key_size = 1, sh_value_size = 1, sh_max_entries = 1,
     sh_ht_size = 1, sh_ht = [\<lparr> e_used = 1, e_key = [5], e_value = [6] \<rparr>], sh_count = 1 \<rparr> [5] = Some (r, hm')"
proof -
  have "round_up_pow_of_two 1 = 1" by (simp add: round_up_pow_of_two_def Let_def)
  then have "sh_shape 1 1 1 \<lparr> sh_key_size = 1, sh_value_size = 1, sh_max_entries = 1,
     sh_ht_size = 1, sh_ht = [\<lparr> e_used = 1, e_key = [5], e_value = [6] \<rparr>], sh_count = 1 \<rparr>"
    by (simp add: sh_shape_def)
  from spsc_delete_terminates [OF this, of "[5]"] show ?thesis by auto
qed

text \<open>The two entry table the next results run on.\<close>

definition table2 :: "spsc_entry list \<Rightarrow> int \<Rightarrow> spsc_hashmap" where
  "table2 ht n = \<lparr> sh_key_size = 4, sh_value_size = 1, sh_max_entries = 2, sh_ht_size = 2, sh_ht = ht, sh_count = n \<rparr>"

lemma table2_create:
  "jbpf_bpf_spsc_hashmap_create (\<lambda>_. True) (\<lambda>_. True) example_map_def
    = Some (table2 [entry_zero 4 1, entry_zero 4 1] 0)"
proof -
  have "round_up_pow_of_two 2 = 2" by (simp add: round_up_pow_of_two_def Let_def)
  moreover have "replicate 2 x = [x, x]" for x :: spsc_entry by (simp add: numeral_2_eq_2)
  ultimately show ?thesis
    by (simp add: jbpf_bpf_spsc_hashmap_create_def Let_def example_map_def_def table2_def)
qed

lemma probe_2: "probe 2 nxt body orig idx =
    (case body idx of
       None \<Rightarrow> None
     | Some (Some r) \<Rightarrow> Some (Some r)
     | Some None \<Rightarrow> if orig \<noteq> nxt idx then probe 1 nxt body orig (nxt idx) else Some None)"
  by (simp add: numeral_2_eq_2 split: option.splits)

lemmas table2_eval = table2_def home_idx_def next_idx_def hash_key_0 hash_key_1 hash_key_3 read_bytes_def
  probe_2 lookup_body_def update_body_def delete_body_def restructure_body_def entry_zero_def map_codes
  jbpf_bpf_spsc_hashmap_lookup_elem_def jbpf_bpf_spsc_hashmap_update_elem_def
  jbpf_bpf_spsc_hashmap_delete_elem_def jbpf_bpf_spsc_hashmap_restructure_def Let_def c_int_id c_u32_id word_le_nat_alt

text \<open>C27: Deleting an entry can lose another one: after inserting two keys with the same home slot and
  deleting the first, the second is no longer found, although the map still counts it.  The
  restructuring compares the whole hash of an entry, not its slot, with the slot that was cleared.\<close>

theorem spsc_delete_loses_entry:
  "\<exists>hm0 hm1 hm2 hm3.
     jbpf_bpf_spsc_hashmap_create (\<lambda>_. True) (\<lambda>_. True) example_map_def = Some hm0
     \<and> jbpf_bpf_spsc_hashmap_update_elem hm0 [1, 0, 0, 0] [7] 0 = Some (JBPF_MAP_SUCCESS, hm1)
     \<and> jbpf_bpf_spsc_hashmap_update_elem hm1 [3, 0, 0, 0] [8] 0 = Some (JBPF_MAP_SUCCESS, hm2)
     \<and> jbpf_bpf_spsc_hashmap_delete_elem hm2 [1, 0, 0, 0] = Some (JBPF_MAP_SUCCESS, hm3)
     \<and> jbpf_bpf_spsc_hashmap_lookup_elem hm3 [3, 0, 0, 0] = Some None
     \<and> jbpf_bpf_spsc_hashmap_size (Some hm3) = 1"
proof (intro exI conjI)
  let ?z = "entry_zero 4 1" and ?e1 = "\<lparr> e_used = 1, e_key = [1, 0, 0, 0], e_value = [7] \<rparr>"
    and ?e3 = "\<lparr> e_used = 1, e_key = [3, 0, 0, 0], e_value = [8] \<rparr>"
  show "jbpf_bpf_spsc_hashmap_create (\<lambda>_. True) (\<lambda>_. True) example_map_def = Some (table2 [?z, ?z] 0)"
    by (rule table2_create)
  show "jbpf_bpf_spsc_hashmap_update_elem (table2 [?z, ?z] 0) [1, 0, 0, 0] [7] 0
      = Some (JBPF_MAP_SUCCESS, table2 [?z, ?e1] 1)"
    by (simp add: table2_eval)
  show "jbpf_bpf_spsc_hashmap_update_elem (table2 [?z, ?e1] 1) [3, 0, 0, 0] [8] 0
      = Some (JBPF_MAP_SUCCESS, table2 [?e3, ?e1] 2)"
    by (simp add: table2_eval)
  show "jbpf_bpf_spsc_hashmap_delete_elem (table2 [?e3, ?e1] 2) [1, 0, 0, 0]
      = Some (JBPF_MAP_SUCCESS, table2 [?e3, ?z] 1)"
    by (simp add: table2_eval)
  show "jbpf_bpf_spsc_hashmap_lookup_elem (table2 [?e3, ?z] 1) [3, 0, 0, 0] = Some None"
    by (simp add: table2_eval)
  show "jbpf_bpf_spsc_hashmap_size (Some (table2 [?e3, ?z] 1)) = 1"
    by (simp add: jbpf_bpf_spsc_hashmap_size_def table2_def c_u32_id)
qed


lemma dump_loop_first:
  assumes "sh_ht hm \<noteq> []" "e_used (hd (sh_ht hm)) \<in> {0, 1}" "i \<le> unat (sh_ht_size hm)" "n \<le> i"
    "c_u32 (sh_count hm) \<le> unat (sh_ht_size hm)"
    "n = (if e_used (hd (sh_ht hm)) = 1 then i else 0)"
  shows "dump_loop hm n i out = Some (out @ concat (replicate
    (if e_used (hd (sh_ht hm)) = 1 then c_u32 (sh_count hm) - n else 0)
    (e_key (hd (sh_ht hm)) @ e_value (hd (sh_ht hm)))))"
  using assms
proof (induction hm n i out rule: dump_loop.induct)
  case (1 hm n i out)
  have get: "arr_get (sh_ht hm) 0 = Some (hd (sh_ht hm))"
    using 1(3) by (cases "sh_ht hm") (auto simp: arr_get_def)
  let ?c = "c_u32 (sh_count hm)"
  show ?case
  proof (cases "n < ?c \<and> i < unat (sh_ht_size hm)")
    case False
    then have "e_used (hd (sh_ht hm)) = 1 \<Longrightarrow> ?c - n = 0" using 1(7,8) by auto
    then show ?thesis using False by (subst dump_loop.simps) auto
  next
    case True
    show ?thesis
    proof (cases "e_used (hd (sh_ht hm)) = 1")
      case used: True
      have "replicate (?c - n) x = x # replicate (?c - Suc n) x" for x :: bytes
        using True by (metis Suc_diff_Suc replicate_Suc)
      then show ?thesis
        using 1(1) [OF True get] 1(3-8) True used get by (subst dump_loop.simps) auto
    next
      case unused: False
      then show ?thesis
        using 1(2) [OF True get] 1(3-8) True get by (subst dump_loop.simps) auto
    qed
  qed
qed

text \<open>C37: A dump of a map reports the number of its entries but writes only the entry of the first
  slot, once for every entry of the map, or nothing at all when that slot is free.\<close>

theorem spsc_dump_first_entry:
  assumes "sh_inv ks vs me hm" and "e_used (sh_ht hm ! 0) \<in> {0, 1}"
  shows "jbpf_bpf_spsc_hashmap_dump hm max_size flags = Some (card (dom (sh_contents hm)),
    if taken hm 0 then concat (replicate (card (dom (sh_contents hm))) (key_at hm 0 @ e_value (sh_ht hm ! 0)))
    else [])"
proof -
  have shape: "sh_shape ks vs me hm" using assms(1) by (simp add: sh_inv_def)
  have ne: "sh_ht hm \<noteq> []" using table_size [OF shape] by (metis list.size(3) power_not_zero zero_neq_numeral)
  then have hd: "hd (sh_ht hm) = sh_ht hm ! 0" by (simp add: hd_conv_nth)
  have cnt: "c_u32 (sh_count hm) = card (taken_slots hm)"
    using assms(1) by (simp add: sh_inv_def sh_shape_def)
  have le: "card (taken_slots hm) \<le> unat (sh_ht_size hm)"
    using card_mono [of "{..<unat (sh_ht_size hm)}" "taken_slots hm"] by (auto simp: taken_slots_def)
  have "dump_loop hm 0 0 [] = Some (concat (replicate
      (if e_used (hd (sh_ht hm)) = 1 then c_u32 (sh_count hm) - 0 else 0)
      (e_key (hd (sh_ht hm)) @ e_value (hd (sh_ht hm)))))"
    using dump_loop_first [OF ne, of 0 0 "[]"] assms(2) le by (simp add: hd cnt)
  then show ?thesis
    using assms(2) by (auto simp: jbpf_bpf_spsc_hashmap_dump_def hd cnt sh_dom_card [OF assms(1)] taken_def key_at_def)
qed

theorem spsc_dump_first_entry_witness:
  "jbpf_bpf_spsc_hashmap_dump (table2 [entry_zero 4 1, entry_zero 4 1] 0) 100 0 = Some (0, [])"
proof -
  have "sh_inv 4 1 2 (table2 [entry_zero 4 1, entry_zero 4 1] 0)
      \<and> sh_contents (table2 [entry_zero 4 1, entry_zero 4 1] 0) = Map.empty"
    using spsc_create_spec [OF table2_create] by (simp add: example_map_def_def)
  then show ?thesis
    using spsc_dump_first_entry [of 4 1 2 "table2 [entry_zero 4 1, entry_zero 4 1] 0" 100 0]
    by (simp add: table2_def taken_def entry_zero_def)
qed

end
