(* ===== verification/Ck_Ht.thy ===== *)
theory Ck_Ht
  imports Prelude "HOL-Library.Multiset" "HOL-Library.AList"
begin

text \<open>
  The hash tables of Concurrency Kit, which the program keeps its codelets, maps and channels in:
  the operations the code calls are a record of functions, and \<open>ck_ht_spec\<close> is what the documentation
  promises of them.
\<close>

text \<open>\<open>ck_ht_set\<close> returns the value that the entry holds after the call of \<open>ck_ht_set_spmc\<close>: the one that
  was replaced, none for a new key, and the new one itself when the table could not grow.
  \<open>ck_ht_put\<close> inserts only a new key, \<open>ck_ht_entries\<close> is the order of an iteration.\<close>

record ('k, 'v, 'h) ck_ht_ops =
  ck_ht_init :: "nat \<Rightarrow> 'h option"
  ck_ht_get :: "'h \<Rightarrow> 'k \<Rightarrow> 'v option"
  ck_ht_set :: "'h \<Rightarrow> 'k \<Rightarrow> 'v \<Rightarrow> 'v option \<times> 'h"
  ck_ht_put :: "'h \<Rightarrow> 'k \<Rightarrow> 'v \<Rightarrow> bool \<times> 'h"
  ck_ht_remove :: "'h \<Rightarrow> 'k \<Rightarrow> 'v option \<times> 'h"
  ck_ht_entries :: "'h \<Rightarrow> ('k \<times> 'v) list"

definition ck_ht_count :: "('k, 'v, 'h) ck_ht_ops \<Rightarrow> 'h \<Rightarrow> nat" where
  "ck_ht_count ck h = length (ck_ht_entries ck h)"

definition ck_ht_spec :: "('k, 'v, 'h) ck_ht_ops \<Rightarrow> bool" where
  "ck_ht_spec ck =
    ((\<forall>n h. ck_ht_init ck n = Some h \<longrightarrow> ck_ht_get ck h = Map.empty)
     \<and> (\<forall>h. distinct (map fst (ck_ht_entries ck h)) \<and> map_of (ck_ht_entries ck h) = ck_ht_get ck h)
     \<and> (\<forall>h k v. let (r, h') = ck_ht_set ck h k v in
          (r = ck_ht_get ck h k \<and> ck_ht_get ck h' = (ck_ht_get ck h)(k \<mapsto> v))
          \<or> (r = Some v \<and> ck_ht_get ck h' = ck_ht_get ck h))
     \<and> (\<forall>h k v. let (ok, h') = ck_ht_put ck h k v in
          (ok \<longrightarrow> ck_ht_get ck h k = None \<and> ck_ht_get ck h' = (ck_ht_get ck h)(k \<mapsto> v))
          \<and> (\<not> ok \<longrightarrow> ck_ht_get ck h' = ck_ht_get ck h))
     \<and> (\<forall>h k. let (r, h') = ck_ht_remove ck h k in
          r = ck_ht_get ck h k \<and> ck_ht_get ck h' = (ck_ht_get ck h)(k := None)))"

lemma ck_ht_specD:
  assumes "ck_ht_spec ck"
  shows ht_init: "ck_ht_init ck n = Some h \<Longrightarrow> ck_ht_get ck h = Map.empty"
    and ht_entries: "distinct (map fst (ck_ht_entries ck h))" "map_of (ck_ht_entries ck h) = ck_ht_get ck h"
    and ht_set: "ck_ht_set ck h k v = (r, h') \<Longrightarrow>
      r = ck_ht_get ck h k \<and> ck_ht_get ck h' = (ck_ht_get ck h)(k \<mapsto> v)
      \<or> r = Some v \<and> ck_ht_get ck h' = ck_ht_get ck h"
    and ht_put: "ck_ht_put ck h k v = (ok, h') \<Longrightarrow>
      (if ok then ck_ht_get ck h k = None \<and> ck_ht_get ck h' = (ck_ht_get ck h)(k \<mapsto> v)
       else ck_ht_get ck h' = ck_ht_get ck h)"
    and ht_remove: "ck_ht_remove ck h k = (r, h') \<Longrightarrow>
      r = ck_ht_get ck h k \<and> ck_ht_get ck h' = (ck_ht_get ck h)(k := None)"
proof -
  note s = assms [unfolded ck_ht_spec_def]
  show "ck_ht_init ck n = Some h \<Longrightarrow> ck_ht_get ck h = Map.empty" using s by blast
  show "distinct (map fst (ck_ht_entries ck h))" "map_of (ck_ht_entries ck h) = ck_ht_get ck h" using s by blast+
  have a: "\<forall>h k v. let (r, h') = ck_ht_set ck h k v in
          (r = ck_ht_get ck h k \<and> ck_ht_get ck h' = (ck_ht_get ck h)(k \<mapsto> v))
          \<or> (r = Some v \<and> ck_ht_get ck h' = ck_ht_get ck h)" using s by blast
  show "r = ck_ht_get ck h k \<and> ck_ht_get ck h' = (ck_ht_get ck h)(k \<mapsto> v)
      \<or> r = Some v \<and> ck_ht_get ck h' = ck_ht_get ck h" if "ck_ht_set ck h k v = (r, h')"
    using spec [OF spec [OF spec [OF a, of h], of k], of v] that by simp
  have b: "\<forall>h k v. let (ok, h') = ck_ht_put ck h k v in
          (ok \<longrightarrow> ck_ht_get ck h k = None \<and> ck_ht_get ck h' = (ck_ht_get ck h)(k \<mapsto> v))
          \<and> (\<not> ok \<longrightarrow> ck_ht_get ck h' = ck_ht_get ck h)" using s by blast
  show "if ok then ck_ht_get ck h k = None \<and> ck_ht_get ck h' = (ck_ht_get ck h)(k \<mapsto> v)
       else ck_ht_get ck h' = ck_ht_get ck h" if "ck_ht_put ck h k v = (ok, h')"
    using spec [OF spec [OF spec [OF b, of h], of k], of v] that by simp
  have c: "\<forall>h k. let (r, h') = ck_ht_remove ck h k in
          r = ck_ht_get ck h k \<and> ck_ht_get ck h' = (ck_ht_get ck h)(k := None)" using s by blast
  show "r = ck_ht_get ck h k \<and> ck_ht_get ck h' = (ck_ht_get ck h)(k := None)"
    if "ck_ht_remove ck h k = (r, h')"
    using spec [OF spec [OF c, of h], of k] that by simp
qed

lemma ht_finite: "ck_ht_spec ck \<Longrightarrow> finite (dom (ck_ht_get ck h))"
  using ht_entries(2) [of ck h] by (metis finite_dom_map_of)

lemma ht_count:
  assumes "ck_ht_spec ck"
  shows "ck_ht_count ck h = card (dom (ck_ht_get ck h))"
proof -
  have "dom (ck_ht_get ck h) = fst ` set (ck_ht_entries ck h)"
    using ht_entries(2) [OF assms, of h] by (metis dom_map_of_conv_image_fst)
  then show ?thesis
    using ht_entries(1) [OF assms, of h] by (simp add: ck_ht_count_def distinct_card [symmetric] del: distinct_card) (metis distinct_card length_map list.set_map)
qed

section \<open>The values of a table\<close>

definition map_vals :: "('k \<Rightarrow> 'v option) \<Rightarrow> 'v multiset" where
  "map_vals m = image_mset (\<lambda>k. the (m k)) (mset_set (dom m))"

lemma map_vals_empty [simp]: "map_vals Map.empty = {#}"
  by (simp add: map_vals_def)

lemma map_vals_remove:
  assumes "finite (dom m)" "m k = Some v"
  shows "map_vals m = add_mset v (map_vals (m(k := None)))"
proof -
  have "mset_set (dom m) = add_mset k (mset_set (dom m - {k}))"
    using assms by (metis domI mset_set.remove)
  moreover have "image_mset (\<lambda>x. the (m x)) (mset_set (dom m - {k}))
      = image_mset (\<lambda>x. the ((m(k := None)) x)) (mset_set (dom m - {k}))"
    using assms(1) by (intro image_mset_cong) auto
  ultimately show ?thesis using assms(2) by (simp add: map_vals_def)
qed

lemma map_vals_insert:
  assumes "finite (dom m)" "m k = None"
  shows "map_vals (m(k \<mapsto> v)) = add_mset v (map_vals m)"
proof -
  have "(m(k \<mapsto> v))(k := None) = m" using assms(2) by auto
  then show ?thesis using map_vals_remove [of "m(k \<mapsto> v)" k v] assms(1) by simp
qed

lemma map_vals_replace:
  assumes "finite (dom m)" "m k = Some old"
  shows "add_mset old (map_vals (m(k \<mapsto> v))) = add_mset v (map_vals m)"
proof -
  have "map_vals (m(k \<mapsto> v)) = add_mset v (map_vals (m(k := None)))"
    using map_vals_remove [of "m(k \<mapsto> v)" k v] assms(1) by simp
  then show ?thesis using map_vals_remove [OF assms] by simp
qed

lemma in_map_vals:
  assumes "finite (dom m)" "m k = Some v"
  shows "v \<in># map_vals m"
  using map_vals_remove [OF assms] by simp

lemma size_map_vals: "finite (dom m) \<Longrightarrow> size (map_vals m) = card (dom m)"
  by (simp add: map_vals_def)

section \<open>A concrete table\<close>

definition alist_ht :: "('k, 'v, ('k \<times> 'v) list) ck_ht_ops" where
  "alist_ht = \<lparr> ck_ht_init = (\<lambda>n. Some []),
     ck_ht_get = map_of,
     ck_ht_set = (\<lambda>h k v. (map_of h k, (k, v) # filter (\<lambda>p. fst p \<noteq> k) h)),
     ck_ht_put = (\<lambda>h k v. if map_of h k = None then (True, (k, v) # h) else (False, h)),
     ck_ht_remove = (\<lambda>h k. (map_of h k, filter (\<lambda>p. fst p \<noteq> k) h)),
     ck_ht_entries = (\<lambda>h. AList.clearjunk h) \<rparr>"

lemma map_of_filter_neq: "map_of (filter (\<lambda>p. fst p \<noteq> k) xs) = (map_of xs)(k := None)"
  by (induction xs) (auto simp: fun_eq_iff)

lemma alist_ht_spec: "ck_ht_spec alist_ht"
  by (auto simp: ck_ht_spec_def alist_ht_def map_of_filter_neq map_of_clearjunk distinct_clearjunk)

end
