(* ===== verification/Buffer_Pool.thy ===== *)
theory Buffer_Pool
  imports Prelude "HOL-Library.Multiset"
begin

text \<open>
  The contract of a pool of reference counted buffers, and what clients that each hold a list of
  references get from it.  The memory pools of \<open>src/mem_mgmt/jbpf_mempool.c\<close> provide it; the I/O
  queues and the hash maps of codelets are clients.
\<close>

locale buffer_pool =
  fixes invar :: "'s \<Rightarrow> bool"
    and cap :: "'s \<Rightarrow> nat"
    and refs :: "'s \<Rightarrow> nat \<Rightarrow> nat"
    and alloc :: "'s \<Rightarrow> (nat option \<times> 's) option"
    and share :: "'s \<Rightarrow> nat \<Rightarrow> 's option"
    and release :: "'s \<Rightarrow> nat \<Rightarrow> 's option"
  assumes refs_below_cap: "invar s \<Longrightarrow> 0 < refs s b \<Longrightarrow> b < cap s"
    and alloc_law: "invar s \<Longrightarrow> \<exists>x s'. alloc s = Some (x, s') \<and> invar s' \<and> cap s' = cap s
      \<and> (case x of None \<Rightarrow> refs s' = refs s \<and> (\<forall>b < cap s. 0 < refs s b)
         | Some b \<Rightarrow> b < cap s \<and> refs s b = 0 \<and> refs s' = (refs s)(b := 1))"
    and share_law: "invar s \<Longrightarrow> 0 < refs s b \<Longrightarrow> refs s b < 2 ^ 64 - 1 \<Longrightarrow>
      \<exists>s'. share s b = Some s' \<and> invar s' \<and> cap s' = cap s \<and> refs s' = (refs s)(b := refs s b + 1)"
    and release_law: "invar s \<Longrightarrow> 0 < refs s b \<Longrightarrow>
      \<exists>s'. release s b = Some s' \<and> invar s' \<and> cap s' = cap s \<and> refs s' = (refs s)(b := refs s b - 1)"
begin

text \<open>The references to the buffers of a pool are exactly those the clients hold, and a client that
  only allocates and releases holds each buffer once.\<close>

definition holds :: "'s \<Rightarrow> nat multiset \<Rightarrow> bool" where
  "holds s H \<longleftrightarrow> invar s \<and> (\<forall>b. refs s b = count H b)"

lemma holds_refs: "holds s H \<Longrightarrow> refs s b = count H b"
  by (simp add: holds_def)

lemma holds_below: "holds s H \<Longrightarrow> b \<in># H \<Longrightarrow> b < cap s"
  using refs_below_cap [of s b] unfolding holds_def by (simp add: count_greater_zero_iff)

lemma holds_card: "holds s H \<Longrightarrow> card (set_mset H) \<le> cap s"
  using card_mono [of "{..<cap s}" "set_mset H"] holds_below by auto

lemma alloc_holds:
  assumes "holds s H"
  obtains (got) b s' where "alloc s = Some (Some b, s')" "b < cap s" "b \<notin># H" "holds s' (add_mset b H)" "cap s' = cap s"
  | (exhausted) s' where "alloc s = Some (None, s')" "card (set_mset H) = cap s" "holds s' H" "cap s' = cap s"
proof -
  obtain x s' where a: "alloc s = Some (x, s')" "invar s'" "cap s' = cap s"
    "case x of None \<Rightarrow> refs s' = refs s \<and> (\<forall>b < cap s. 0 < refs s b)
         | Some b \<Rightarrow> b < cap s \<and> refs s b = 0 \<and> refs s' = (refs s)(b := 1)"
    using alloc_law [of s] assms by (auto simp only: holds_def)
  show thesis
  proof (cases x)
    case None
    then have "\<forall>b < cap s. 0 < refs s b" and same: "refs s' = refs s"
      using a(4) by simp_all
    then have "b \<in># H" if "b < cap s" for b
      using that holds_refs [OF assms, of b] by (metis count_greater_zero_iff)
    then have "set_mset H = {..<cap s}" using holds_below [OF assms] by blast
    then have "card (set_mset H) = cap s" by simp
    then show thesis
      using exhausted [of s'] a None same assms by (simp add: holds_def)
  next
    case (Some b)
    then have "count H b = 0" using a(4) assms by (simp add: holds_def)
    then show thesis
      using got [of b s'] a Some assms by (auto simp: holds_def not_in_iff)
  qed
qed

lemma release_holds:
  assumes "holds s H" "b \<in># H"
  obtains s' where "release s b = Some s'" "holds s' (H - {#b#})" "cap s' = cap s"
proof -
  have pos: "0 < refs s b" using assms by (simp add: holds_refs count_greater_zero_iff)
  then obtain s' where "release s b = Some s'" "invar s'" "cap s' = cap s"
      "refs s' = (refs s)(b := refs s b - 1)"
    using release_law [OF _ pos] assms by (auto simp only: holds_def)
  then show thesis
    using that [of s'] assms by (auto simp: holds_def)
qed

lemma share_holds:
  assumes "holds s H" "b \<in># H" "size H < 2 ^ 64 - 1"
  obtains s' where "share s b = Some s'" "holds s' (add_mset b H)" "cap s' = cap s"
proof -
  have pos: "0 < refs s b" using assms by (simp add: holds_refs count_greater_zero_iff)
  have "refs s b \<le> size H" using assms(1) by (simp add: holds_refs count_le_size)
  then have "refs s b < 2 ^ 64 - 1" using assms(3) by linarith
  then obtain s' where "share s b = Some s'" "invar s'" "cap s' = cap s"
      "refs s' = (refs s)(b := refs s b + 1)"
    using share_law [OF _ pos] assms by (auto simp only: holds_def)
  then show thesis
    using that [of s'] assms by (auto simp: holds_def)
qed

end

end
