(* ===== verification/Mempool.thy ===== *)
theory Mempool
  imports Mem_Utils Buffer_Pool
begin

text \<open>
  The memory pools of \<open>src/mem_mgmt/jbpf_mempool.c\<close> and their wrappers in \<open>src/core/jbpf_memory.c\<close>:
  reference counted buffers kept in a ring while they are free, and a pool that is released only
  when it has been destroyed and its last buffer has come back.  The ring of Concurrency Kit is a
  parameter, and so is the outcome of each allocation.
\<close>

section \<open>Rings\<close>

text \<open>The operations of \<open>ck_ring\<close> the code calls, on rings of pointers.  \<open>ck_ring_spec ck q cp\<close> is what
  the documentation promises, for the sequence \<open>q r\<close> of the elements in a ring \<open>r\<close> and its capacity
  \<open>cp r\<close>: a ring of \<open>2 ^ k\<close> slots is a first-in first-out queue of at most \<open>2 ^ k - 1\<close> elements.\<close>

record 'r ck_ring_ops =
  ck_ring_init :: "nat \<Rightarrow> 'r"
  ck_ring_enqueue :: "'r \<Rightarrow> nat \<Rightarrow> bool \<times> 'r"
  ck_ring_dequeue :: "'r \<Rightarrow> nat option \<times> 'r"
  ck_ring_size :: "'r \<Rightarrow> nat"

definition ck_ring_spec :: "'r ck_ring_ops \<Rightarrow> ('r \<Rightarrow> nat list) \<Rightarrow> ('r \<Rightarrow> nat) \<Rightarrow> bool" where
  "ck_ring_spec ck q cp =
    ((\<forall>k. q (ck_ring_init ck (2 ^ k)) = [] \<and> cp (ck_ring_init ck (2 ^ k)) = 2 ^ k - 1)
     \<and> (\<forall>r x. length (q r) < cp r \<longrightarrow> (\<exists>r'. ck_ring_enqueue ck r x = (True, r') \<and> q r' = q r @ [x] \<and> cp r' = cp r))
     \<and> (\<forall>r x. length (q r) \<ge> cp r \<longrightarrow> (\<exists>r'. ck_ring_enqueue ck r x = (False, r') \<and> q r' = q r \<and> cp r' = cp r))
     \<and> (\<forall>r x xs. q r = x # xs \<longrightarrow> (\<exists>r'. ck_ring_dequeue ck r = (Some x, r') \<and> q r' = xs \<and> cp r' = cp r))
     \<and> (\<forall>r. q r = [] \<longrightarrow> (\<exists>r'. ck_ring_dequeue ck r = (None, r') \<and> q r' = [] \<and> cp r' = cp r))
     \<and> (\<forall>r. ck_ring_size ck r = length (q r)))"

lemma ck_ring_specD:
  assumes "ck_ring_spec ck q cp"
  shows ring_init: "q (ck_ring_init ck (2 ^ k)) = []" "cp (ck_ring_init ck (2 ^ k)) = 2 ^ k - 1"
    and ring_enqueue: "length (q r) < cp r \<Longrightarrow>
      \<exists>r'. ck_ring_enqueue ck r x = (True, r') \<and> q r' = q r @ [x] \<and> cp r' = cp r"
    and ring_full: "cp r \<le> length (q r) \<Longrightarrow>
      \<exists>r'. ck_ring_enqueue ck r x = (False, r') \<and> q r' = q r \<and> cp r' = cp r"
    and ring_dequeue: "q r = y # ys \<Longrightarrow>
      \<exists>r'. ck_ring_dequeue ck r = (Some y, r') \<and> q r' = ys \<and> cp r' = cp r"
    and ring_empty: "q r = [] \<Longrightarrow> \<exists>r'. ck_ring_dequeue ck r = (None, r') \<and> q r' = [] \<and> cp r' = cp r"
    and ring_size: "ck_ring_size ck r = length (q r)"
  using assms unfolding ck_ring_spec_def by blast+

section \<open>The pool\<close>

text \<open>A buffer is a header and data; the pointer back to the pool is either null or that pool.  A
  buffer pointer is the index of the buffer in the data array, and the index after the last is the
  ring marker.\<close>

record jbpf_mbuf =
  ref_cnt :: u64
  mb_mempool :: bool
  mb_data :: "nat \<Rightarrow> u8"

datatype ring_sel = Ring | Ring_Destroy

record 'r jbpf_mempool =
  mbufs :: "jbpf_mbuf list"
  ring :: 'r
  ring_destroy :: 'r
  ring_alloc :: ring_sel
  ring_free :: ring_sel
  ring_marker :: nat
  mp_type :: nat
  num_elems :: nat
  elem_size :: nat
  mbuf_size :: nat
  mp_freed :: bool

definition mbuf_zero :: jbpf_mbuf where
  "mbuf_zero = \<lparr> ref_cnt = 0, mb_mempool = False, mb_data = (\<lambda>_. 0) \<rparr>"

definition sizeof_mbuf :: nat where
  "sizeof_mbuf = 16"

definition mempool_num_elems :: "u32 \<Rightarrow> int" where
  "mempool_num_elems n_elems = c_int (uint (round_up_pow_of_two (n_elems + 1))) - 1"

definition mempool_mbuf_size :: "u64 \<Rightarrow> int" where
  "mempool_mbuf_size elem_sz = c_int (uint (jbpf_round_up_mem (elem_sz + of_nat sizeof_mbuf) 16))"

text \<open>The loop that puts the buffers \<open>i\<close> to \<open>n - 1\<close> in the ring.\<close>

function enqueue_mbufs :: "'r ck_ring_ops \<Rightarrow> nat \<Rightarrow> nat \<Rightarrow> 'r \<Rightarrow> 'r option" where
  "enqueue_mbufs ck i n r =
    (if i < n then
       (case ck_ring_enqueue ck r i of
          (True, r') \<Rightarrow> enqueue_mbufs ck (Suc i) n r'
        | (False, r') \<Rightarrow> None)
     else Some r)"
  by pat_completeness auto
termination
  by (relation "measure (\<lambda>(ck, i, n, r). n - i)") auto

declare enqueue_mbufs.simps [simp del]

text \<open>The allocations of a pool, with the number of elements and their size.  \<open>alloc_ok ctx b\<close> says
  whether the \<open>calloc\<close> for the block \<open>b\<close> succeeds, on the heap of the context if one is given; the
  second component of the result lists the blocks that are left allocated.\<close>

datatype pool_block =
    Pool_Ctx | Data_Array nat nat | Ring_Buf nat | Ring_Destroy_Buf nat | Ring_Marker nat

definition free_blocks :: "'b list \<Rightarrow> 'b list \<Rightarrow> 'b list" where
  "free_blocks freed live = fold remove1 freed live"

definition jbpf_init_mempool_ctx ::
  "'r ck_ring_ops \<Rightarrow> (bool \<Rightarrow> pool_block \<Rightarrow> bool) \<Rightarrow> bool \<Rightarrow> u32 \<Rightarrow> u64 \<Rightarrow> nat
    \<Rightarrow> 'r jbpf_mempool option \<times> pool_block list" where
  "jbpf_init_mempool_ctx ck alloc_ok mem_ctx n_elems elem_sz mtype =
    (let n = mempool_num_elems n_elems; sz = mempool_mbuf_size elem_sz;
         data = Data_Array (c_size n) (c_size sz); buf = Ring_Buf (c_size (n + 1));
         dbuf = Ring_Destroy_Buf (c_size (n + 1)); marker = Ring_Marker (c_size sz) in
     if \<not> alloc_ok mem_ctx Pool_Ctx then (None, [])
     else let live = [Pool_Ctx] in
     if \<not> alloc_ok mem_ctx data then (None, free_blocks [Pool_Ctx] live)
     else let live = data # live in
     if \<not> alloc_ok mem_ctx buf then (None, free_blocks [data, Pool_Ctx] live)
     else let live = buf # live in
     if \<not> alloc_ok mem_ctx dbuf then (None, free_blocks [buf, data, Pool_Ctx] live)
     else let live = dbuf # live in
     if \<not> alloc_ok mem_ctx marker then (None, free_blocks [buf, dbuf, data, Pool_Ctx] live)
     else let live = marker # live in
       case enqueue_mbufs ck 0 (nat n) (ck_ring_init ck (c_u32 (int (c_u32 n) + 1))) of
         None \<Rightarrow> (None, live)
       | Some r \<Rightarrow>
           (Some \<lparr> mbufs = replicate (nat n + 1) mbuf_zero, ring = r,
              ring_destroy = ck_ring_init ck (c_u32 (int (c_u32 n) + 1)),
              ring_alloc = Ring, ring_free = Ring, ring_marker = nat n, mp_type = mtype,
              num_elems = c_u32 n, elem_size = c_u16 (uint elem_sz), mbuf_size = c_u16 sz,
              mp_freed = False \<rparr>, live))"

definition jbpf_init_mempool ::
  "'r ck_ring_ops \<Rightarrow> (bool \<Rightarrow> pool_block \<Rightarrow> bool) \<Rightarrow> u32 \<Rightarrow> u64 \<Rightarrow> nat
    \<Rightarrow> 'r jbpf_mempool option \<times> pool_block list" where
  "jbpf_init_mempool ck alloc_ok n_elems elem_sz mtype =
    jbpf_init_mempool_ctx ck alloc_ok False n_elems elem_sz mtype"

text \<open>The operations on a pool; \<^const>\<open>None\<close> is an access to a pool whose memory has been released, or
  to a buffer it does not have.\<close>

definition sel_ring :: "'r jbpf_mempool \<Rightarrow> ring_sel \<Rightarrow> 'r" where
  "sel_ring mp s = (case s of Ring \<Rightarrow> ring mp | Ring_Destroy \<Rightarrow> ring_destroy mp)"

definition upd_ring :: "'r jbpf_mempool \<Rightarrow> ring_sel \<Rightarrow> 'r \<Rightarrow> 'r jbpf_mempool" where
  "upd_ring mp s r = (case s of Ring \<Rightarrow> mp\<lparr>ring := r\<rparr> | Ring_Destroy \<Rightarrow> mp\<lparr>ring_destroy := r\<rparr>)"

definition jbpf_destroy_mempool :: "'r ck_ring_ops \<Rightarrow> 'r jbpf_mempool \<Rightarrow> 'r jbpf_mempool option" where
  "jbpf_destroy_mempool ck mp =
    (if mp_freed mp then None
     else
       let mp = mp\<lparr>ring_alloc := Ring_Destroy\<rparr>;
           (ok, r) = ck_ring_enqueue ck (sel_ring mp (ring_free mp)) (ring_marker mp);
           mp = upd_ring mp (ring_free mp) r
       in if \<not> ok then Some (mp\<lparr>mp_freed := True\<rparr>) else Some mp)"

definition jbpf_mbuf_alloc ::
  "'r ck_ring_ops \<Rightarrow> 'r jbpf_mempool \<Rightarrow> (nat option \<times> 'r jbpf_mempool) option" where
  "jbpf_mbuf_alloc ck mp =
    (if mp_freed mp then None
     else
       let (x, r) = ck_ring_dequeue ck (sel_ring mp (ring_alloc mp));
           mp = upd_ring mp (ring_alloc mp) r
       in case x of
            None \<Rightarrow> Some (None, mp)
          | Some mb \<Rightarrow> do {
              b \<leftarrow> arr_get (mbufs mp) mb;
              bs \<leftarrow> arr_set (mbufs mp) mb (b\<lparr>mb_mempool := True, ref_cnt := 1\<rparr>);
              Some (Some mb, mp\<lparr>mbufs := bs\<rparr>)
            })"

text \<open>\<open>memset(mbuf, 0, n)\<close>, for a multiple \<open>n\<close> of 16: the header and the data after it.\<close>

definition mbuf_memset :: "jbpf_mbuf \<Rightarrow> nat \<Rightarrow> jbpf_mbuf" where
  "mbuf_memset b n =
    (if n = 0 then b
     else \<lparr> ref_cnt = 0, mb_mempool = False,
            mb_data = (\<lambda>i. if sizeof_mbuf + i < n then 0 else mb_data b i) \<rparr>)"

definition jbpf_mbuf_free ::
  "'r ck_ring_ops \<Rightarrow> 'r jbpf_mempool \<Rightarrow> nat option \<Rightarrow> bool \<Rightarrow> 'r jbpf_mempool option" where
  "jbpf_mbuf_free ck mp mbuf reset =
    (case mbuf of
       None \<Rightarrow> Some mp
     | Some mb \<Rightarrow>
        if mp_freed mp then None
        else do {
          b \<leftarrow> arr_get (mbufs mp) mb;
          let b = b\<lparr>ref_cnt := ref_cnt b - 1\<rparr>;
          bs \<leftarrow> arr_set (mbufs mp) mb b;
          let mp = mp\<lparr>mbufs := bs\<rparr>;
          if ref_cnt b > 0 then Some mp
          else if \<not> mb_mempool b then None
          else
            let b = (if reset then mbuf_memset b (mbuf_size mp) else b);
                mp = mp\<lparr>mbufs := (mbufs mp)[mb := b]\<rparr>;
                (ok, r) = ck_ring_enqueue ck (sel_ring mp (ring_free mp)) mb;
                mp = upd_ring mp (ring_free mp) r
            in if \<not> ok then Some (mp\<lparr>mp_freed := True\<rparr>) else Some mp
        })"

text \<open>A data pointer is the pointer of its buffer, at a fixed offset.\<close>

definition jbpf_mbuf_free_from_data_ptr ::
  "'r ck_ring_ops \<Rightarrow> 'r jbpf_mempool \<Rightarrow> nat option \<Rightarrow> bool \<Rightarrow> 'r jbpf_mempool option" where
  "jbpf_mbuf_free_from_data_ptr ck mp data_ptr reset =
    (case data_ptr of None \<Rightarrow> Some mp | Some d \<Rightarrow> jbpf_mbuf_free ck mp (Some d) reset)"

definition jbpf_mbuf_share :: "'r jbpf_mempool \<Rightarrow> nat option \<Rightarrow> (nat option \<times> 'r jbpf_mempool) option" where
  "jbpf_mbuf_share mp mbuf =
    (case mbuf of
       None \<Rightarrow> Some (None, mp)
     | Some mb \<Rightarrow>
        if mp_freed mp then None
        else do {
          b \<leftarrow> arr_get (mbufs mp) mb;
          bs \<leftarrow> arr_set (mbufs mp) mb (b\<lparr>ref_cnt := ref_cnt b + 1\<rparr>);
          Some (Some mb, mp\<lparr>mbufs := bs\<rparr>)
        })"

definition jbpf_mbuf_share_data_ptr ::
  "'r jbpf_mempool \<Rightarrow> nat option \<Rightarrow> (nat option \<times> 'r jbpf_mempool) option" where
  "jbpf_mbuf_share_data_ptr mp data_ptr =
    (case data_ptr of None \<Rightarrow> Some (None, mp) | Some d \<Rightarrow> jbpf_mbuf_share mp (Some d))"

definition jbpf_get_mempool_capacity :: "'r jbpf_mempool option \<Rightarrow> int" where
  "jbpf_get_mempool_capacity mp = (case mp of None \<Rightarrow> - 1 | Some mp \<Rightarrow> c_int (int (num_elems mp)))"

definition jbpf_get_mempool_size :: "'r ck_ring_ops \<Rightarrow> 'r jbpf_mempool option \<Rightarrow> int" where
  "jbpf_get_mempool_size ck mp =
    (case mp of None \<Rightarrow> - 1 | Some mp \<Rightarrow> c_int (int (ck_ring_size ck (sel_ring mp (ring_alloc mp)))))"

section \<open>The data pools of the core library\<close>

text \<open>\<open>jbpf_mempool_ctx_t\<close>: the pool with its element size and number of elements.  The flag says
  whether the allocation of the context itself succeeds.\<close>

record 'r jbpf_mempool_ctx =
  ctx_mempool :: "'r jbpf_mempool"
  ctx_elem_size :: nat
  ctx_num_elems :: int

definition jbpf_init_data_mempool ::
  "'r ck_ring_ops \<Rightarrow> bool \<Rightarrow> (bool \<Rightarrow> pool_block \<Rightarrow> bool) \<Rightarrow> u32 \<Rightarrow> u64 \<Rightarrow> 'r jbpf_mempool_ctx option" where
  "jbpf_init_data_mempool ck ctx_ok alloc_ok n sz =
    (if n = 0 \<or> sz = 0 then None
     else if \<not> ctx_ok then None
     else case fst (jbpf_init_mempool ck alloc_ok n sz 0) of
       None \<Rightarrow> None
     | Some mp \<Rightarrow> Some \<lparr> ctx_mempool = mp, ctx_elem_size = unat sz,
         ctx_num_elems = jbpf_get_mempool_size ck (Some mp) \<rparr>)"

definition jbpf_get_data_mempool_size :: "'r jbpf_mempool_ctx option \<Rightarrow> int" where
  "jbpf_get_data_mempool_size c = (case c of None \<Rightarrow> - 1 | Some c \<Rightarrow> ctx_num_elems c)"

definition jbpf_destroy_data_mempool ::
  "'r ck_ring_ops \<Rightarrow> 'r jbpf_mempool_ctx \<Rightarrow> 'r jbpf_mempool option" where
  "jbpf_destroy_data_mempool ck c = jbpf_destroy_mempool ck (ctx_mempool c)"

definition jbpf_alloc_data_mem ::
  "'r ck_ring_ops \<Rightarrow> 'r jbpf_mempool_ctx \<Rightarrow> (nat option \<times> 'r jbpf_mempool_ctx) option" where
  "jbpf_alloc_data_mem ck c = do {
     (mb, mp) \<leftarrow> jbpf_mbuf_alloc ck (ctx_mempool c);
     Some (mb, c\<lparr>ctx_mempool := mp\<rparr>)
   }"

definition jbpf_free_data_mem ::
  "'r ck_ring_ops \<Rightarrow> 'r jbpf_mempool_ctx \<Rightarrow> nat option \<Rightarrow> 'r jbpf_mempool_ctx option" where
  "jbpf_free_data_mem ck c data = do {
     mp \<leftarrow> jbpf_mbuf_free_from_data_ptr ck (ctx_mempool c) data False;
     Some (c\<lparr>ctx_mempool := mp\<rparr>)
   }"

section \<open>Buffers in use\<close>

text \<open>The buffers of a pool that are in use, with the number of references to each: those that are
  not in the ring of the free ones.\<close>

definition mp_refs :: "('r \<Rightarrow> nat list) \<Rightarrow> 'r jbpf_mempool \<Rightarrow> nat \<Rightarrow> nat" where
  "mp_refs q mp b =
    (if b < num_elems mp \<and> b \<notin> set (q (ring mp)) then unat (ref_cnt (mbufs mp ! b)) else 0)"

definition mp_inv ::
  "'r ck_ring_ops \<Rightarrow> ('r \<Rightarrow> nat list) \<Rightarrow> ('r \<Rightarrow> nat) \<Rightarrow> 'r jbpf_mempool \<Rightarrow> bool" where
  "mp_inv ck q cp mp \<longleftrightarrow>
    ck_ring_spec ck q cp \<and> \<not> mp_freed mp \<and> ring_free mp = Ring \<and> ring_marker mp = num_elems mp
    \<and> length (mbufs mp) = num_elems mp + 1 \<and> cp (ring mp) = num_elems mp
    \<and> q (ring_destroy mp) = []
    \<and> distinct (q (ring mp)) \<and> set (q (ring mp)) \<subseteq> {..num_elems mp}
    \<and> (num_elems mp \<in> set (q (ring mp)) \<longleftrightarrow> ring_alloc mp = Ring_Destroy)
    \<and> (\<forall>b < num_elems mp. b \<notin> set (q (ring mp)) \<longrightarrow> ref_cnt (mbufs mp ! b) \<noteq> 0 \<and> mb_mempool (mbufs mp ! b))
    \<and> length (q (ring mp)) \<le> num_elems mp"


lemma mp_inv_ring: "mp_inv ck q cp mp \<Longrightarrow> ck_ring_spec ck q cp"
  by (simp add: mp_inv_def)

text \<open>The ring is full with the marker exactly when one buffer is out.\<close>

lemma mp_free_count:
  assumes "mp_inv ck q cp mp"
  shows "length (q (ring mp)) = (if ring_alloc mp = Ring_Destroy then 1 else 0)
    + card {b. b < num_elems mp \<and> mp_refs q mp b = 0}"
proof -
  let ?S = "set (q (ring mp))"
  have free: "{b. b < num_elems mp \<and> mp_refs q mp b = 0} = ?S - {num_elems mp}"
  proof (rule set_eqI)
    fix b
    show "b \<in> {b. b < num_elems mp \<and> mp_refs q mp b = 0} \<longleftrightarrow> b \<in> ?S - {num_elems mp}"
      using assms by (cases "b \<in> ?S") (auto simp: mp_inv_def mp_refs_def unat_eq_zero unat_gt_0)
  qed
  have "length (q (ring mp)) = card ?S"
    using assms by (simp add: mp_inv_def distinct_card)
  moreover have "card ?S = (if num_elems mp \<in> ?S then 1 else 0) + card (?S - {num_elems mp})"
  proof (cases "num_elems mp \<in> ?S")
    case True
    then show ?thesis using card.remove [OF _ True] by (simp only: if_True plus_1_eq_Suc finite_set)
  next
    case False
    then show ?thesis by simp
  qed
  moreover have "num_elems mp \<in> ?S \<longleftrightarrow> ring_alloc mp = Ring_Destroy"
    using assms by (simp add: mp_inv_def)
  ultimately show ?thesis using free by simp
qed

lemma mbuf_alloc_spec:
  assumes inv: "mp_inv ck q cp mp"
  shows "\<exists>x mp'. jbpf_mbuf_alloc ck mp = Some (x, mp') \<and> mp_inv ck q cp mp'
    \<and> num_elems mp' = num_elems mp \<and> ring_alloc mp' = ring_alloc mp
    \<and> (case x of
         None \<Rightarrow> mp_refs q mp' = mp_refs q mp \<and>
           (ring_alloc mp = Ring \<longrightarrow> (\<forall>b < num_elems mp. 0 < mp_refs q mp b))
       | Some b \<Rightarrow> ring_alloc mp = Ring \<and> b < num_elems mp \<and> mp_refs q mp b = 0
           \<and> mp_refs q mp' = (mp_refs q mp)(b := 1))"
proof (cases "ring_alloc mp")
  case Ring_Destroy
  obtain r where "ck_ring_dequeue ck (ring_destroy mp) = (None, r)" "q r = []"
    using inv ring_empty [OF mp_inv_ring [OF inv], of "ring_destroy mp"] by (auto simp: mp_inv_def)
  then show ?thesis
    using inv Ring_Destroy
    by (auto simp: jbpf_mbuf_alloc_def sel_ring_def upd_ring_def mp_inv_def mp_refs_def fun_eq_iff)
next
  case Ring
  show ?thesis
  proof (cases "q (ring mp)")
    case Nil
    then obtain r where "ck_ring_dequeue ck (ring mp) = (None, r)" "q r = []" "cp r = cp (ring mp)"
      using ring_empty [OF mp_inv_ring [OF inv]] by blast
    then show ?thesis
      using inv Ring Nil
      by (auto simp: jbpf_mbuf_alloc_def sel_ring_def upd_ring_def mp_inv_def mp_refs_def fun_eq_iff
          unat_gt_0)
  next
    case (Cons x xs)
    then obtain r where r: "ck_ring_dequeue ck (ring mp) = (Some x, r)" "q r = xs" "cp r = cp (ring mp)"
      using ring_dequeue [OF mp_inv_ring [OF inv]] by blast
    have x: "x < num_elems mp" "x \<notin> set xs"
      using inv Ring Cons by (auto simp: mp_inv_def le_less)
    let ?mp = "mp\<lparr>ring := r, mbufs := (mbufs mp)[x := (mbufs mp ! x)\<lparr>mb_mempool := True, ref_cnt := 1\<rparr>]\<rparr>"
    have "jbpf_mbuf_alloc ck mp = Some (Some x, ?mp)"
      using inv Ring r x by (simp add: jbpf_mbuf_alloc_def sel_ring_def upd_ring_def mp_inv_def)
    moreover have "mp_inv ck q cp ?mp"
      using inv Ring r x Cons by (auto simp: mp_inv_def nth_list_update)
    moreover have "mp_refs q ?mp = (mp_refs q mp)(x := 1)"
      using inv r x Cons by (auto simp: mp_refs_def mp_inv_def fun_eq_iff nth_list_update)
    moreover have "mp_refs q mp x = 0"
      using Cons by (simp add: mp_refs_def)
    ultimately show ?thesis using Ring x by auto
  qed
qed

lemma mbuf_share_spec:
  assumes inv: "mp_inv ck q cp mp" and b: "0 < mp_refs q mp b" "mp_refs q mp b < 2 ^ 64 - 1"
  shows "\<exists>mp'. jbpf_mbuf_share mp (Some b) = Some (Some b, mp') \<and> mp_inv ck q cp mp'
    \<and> num_elems mp' = num_elems mp \<and> ring_alloc mp' = ring_alloc mp
    \<and> mp_refs q mp' = (mp_refs q mp)(b := mp_refs q mp b + 1)"
proof -
  have bn: "b < num_elems mp" "b \<notin> set (q (ring mp))" "unat (ref_cnt (mbufs mp ! b)) = mp_refs q mp b"
    using b by (auto simp: mp_refs_def split: if_splits)
  let ?m = "(mbufs mp ! b)\<lparr>ref_cnt := ref_cnt (mbufs mp ! b) + 1\<rparr>"
  let ?mp = "mp\<lparr>mbufs := (mbufs mp)[b := ?m]\<rparr>"
  have c: "unat (ref_cnt (mbufs mp ! b) + 1) = mp_refs q mp b + 1"
    using b(2) bn(3) by (simp add: unat_word_ariths)
  then have nz: "ref_cnt (mbufs mp ! b) + 1 \<noteq> 0"
    by (metis add_eq_0_iff_both_eq_0 one_neq_zero unat_0)
  have "jbpf_mbuf_share mp (Some b) = Some (Some b, ?mp)"
    using inv bn by (simp add: jbpf_mbuf_share_def mp_inv_def)
  moreover have "mp_inv ck q cp ?mp"
    using inv bn nz by (auto simp: mp_inv_def nth_list_update)
  moreover have "mp_refs q ?mp = (mp_refs q mp)(b := mp_refs q mp b + 1)"
    using inv bn c by (auto simp: mp_refs_def mp_inv_def fun_eq_iff nth_list_update)
  ultimately show ?thesis by auto
qed

text \<open>The last reference to a buffer gives the buffer back, and ends a destroyed pool whose other
  buffers are all back.\<close>

lemma mbuf_free_spec:
  assumes inv: "mp_inv ck q cp mp" and b: "0 < mp_refs q mp b"
  shows "\<exists>mp'. jbpf_mbuf_free ck mp (Some b) reset = Some mp'
    \<and> (if ring_alloc mp = Ring_Destroy \<and> mp_refs q mp b = 1 \<and> (\<forall>c. c \<noteq> b \<longrightarrow> mp_refs q mp c = 0)
       then mp_freed mp'
       else mp_inv ck q cp mp' \<and> num_elems mp' = num_elems mp \<and> ring_alloc mp' = ring_alloc mp
         \<and> mp_refs q mp' = (mp_refs q mp)(b := mp_refs q mp b - 1))"
proof -
  have bn: "b < num_elems mp" "b \<notin> set (q (ring mp))" "unat (ref_cnt (mbufs mp ! b)) = mp_refs q mp b"
    using b by (auto simp: mp_refs_def split: if_splits)
  have c: "unat (ref_cnt (mbufs mp ! b) - 1) = mp_refs q mp b - 1"
    using b bn(3) by (metis unat_0 less_irrefl unat_minus_one)
  let ?m = "(mbufs mp ! b)\<lparr>ref_cnt := ref_cnt (mbufs mp ! b) - 1\<rparr>"
  show ?thesis
  proof (cases "mp_refs q mp b = 1")
    case False
    let ?mp = "mp\<lparr>mbufs := (mbufs mp)[b := ?m]\<rparr>"
    have pos: "0 < unat (ref_cnt (mbufs mp ! b) - 1)" using c b False by simp
    then have nz: "ref_cnt (mbufs mp ! b) - 1 \<noteq> 0" by (metis less_irrefl unat_0)
    have "jbpf_mbuf_free ck mp (Some b) reset = Some ?mp"
      using inv bn nz by (simp add: jbpf_mbuf_free_def mp_inv_def word_gt_0)
    moreover have "mp_inv ck q cp ?mp"
      using inv bn nz by (auto simp: mp_inv_def nth_list_update)
    moreover have "mp_refs q ?mp = (mp_refs q mp)(b := mp_refs q mp b - 1)"
      using inv bn c by (auto simp: mp_refs_def mp_inv_def fun_eq_iff nth_list_update)
    ultimately show ?thesis using False by auto
  next
    case True
    then have z: "ref_cnt (mbufs mp ! b) - 1 = 0" using c by (metis diff_self_eq_0 unat_eq_zero)
    define m where "m = (if reset then mbuf_memset ?m (mbuf_size mp) else ?m)"
    have pool: "mb_mempool (mbufs mp ! b)" using inv bn by (simp add: mp_inv_def)
    have res: "jbpf_mbuf_free ck mp (Some b) reset =
      (let mp1 = mp\<lparr>mbufs := (mbufs mp)[b := m]\<rparr>;
           (ok, r) = ck_ring_enqueue ck (ring mp) b
       in Some (if ok then mp1\<lparr>ring := r\<rparr> else mp1\<lparr>ring := r, mp_freed := True\<rparr>))"
      using inv bn z pool
      by (simp add: jbpf_mbuf_free_def mp_inv_def sel_ring_def upd_ring_def m_def Let_def split_def)
    show ?thesis
    proof (cases "length (q (ring mp)) < num_elems mp")
      case lt: True
      then obtain r where r: "ck_ring_enqueue ck (ring mp) b = (True, r)" "q r = q (ring mp) @ [b]" "cp r = cp (ring mp)"
        using inv ring_enqueue [OF mp_inv_ring [OF inv], of "ring mp" b] by (auto simp: mp_inv_def)
      let ?mp = "mp\<lparr>mbufs := (mbufs mp)[b := m], ring := r\<rparr>"
      have "jbpf_mbuf_free ck mp (Some b) reset = Some ?mp"
        using res r by simp
      moreover have "mp_inv ck q cp ?mp"
        using inv bn r lt by (auto simp: mp_inv_def nth_list_update)
      moreover have "mp_refs q ?mp = (mp_refs q mp)(b := mp_refs q mp b - 1)"
        using inv bn r True by (auto simp: mp_refs_def mp_inv_def fun_eq_iff nth_list_update)
      moreover have "\<not> (ring_alloc mp = Ring_Destroy \<and> (\<forall>c. c \<noteq> b \<longrightarrow> mp_refs q mp c = 0))"
      proof
        assume a: "ring_alloc mp = Ring_Destroy \<and> (\<forall>c. c \<noteq> b \<longrightarrow> mp_refs q mp c = 0)"
        then have "{x. x < num_elems mp \<and> mp_refs q mp x = 0} = {..<num_elems mp} - {b}"
          using b by auto
        then show False using mp_free_count [OF inv] a lt bn(1) by simp
      qed
      ultimately show ?thesis by auto
    next
      case full: False
      then obtain r where r: "ck_ring_enqueue ck (ring mp) b = (False, r)"
        using inv ring_full [OF mp_inv_ring [OF inv], of "ring mp" b] by (auto simp: mp_inv_def)
      have len: "length (q (ring mp)) = num_elems mp" using full inv by (simp add: mp_inv_def)
      let ?F = "{x. x < num_elems mp \<and> mp_refs q mp x = 0}"
      have sub: "?F \<subseteq> {..<num_elems mp} - {b}" using b by auto
      then have "card ?F \<le> num_elems mp - 1" using card_mono [OF _ sub] bn(1) by simp
      then have d: "ring_alloc mp = Ring_Destroy" "card ?F = num_elems mp - 1"
        using mp_free_count [OF inv] len bn(1) by (auto split: if_splits)
      then have F: "?F = {..<num_elems mp} - {b}"
        using sub bn(1) by (intro card_subset_eq) auto
      have "mp_refs q mp c = 0" if "c \<noteq> b" for c
      proof (cases "c < num_elems mp")
        case True
        then have "c \<in> ?F" unfolding F using that by simp
        then show ?thesis by simp
      qed (simp add: mp_refs_def)
      then show ?thesis using res r d True by auto
    qed
  qed
qed

lemma destroy_mempool_spec:
  assumes inv: "mp_inv ck q cp mp" and al: "ring_alloc mp = Ring"
  shows "\<exists>mp'. jbpf_destroy_mempool ck mp = Some mp'
    \<and> (if \<forall>b. mp_refs q mp b = 0 then mp_freed mp'
       else mp_inv ck q cp mp' \<and> num_elems mp' = num_elems mp \<and> ring_alloc mp' = Ring_Destroy
         \<and> mp_refs q mp' = mp_refs q mp)"
proof -
  have cnt: "length (q (ring mp)) = card {b. b < num_elems mp \<and> mp_refs q mp b = 0}"
    using mp_free_count [OF inv] al by simp
  have all: "(\<forall>b. mp_refs q mp b = 0) \<longleftrightarrow> length (q (ring mp)) = num_elems mp"
  proof
    assume "\<forall>b. mp_refs q mp b = 0"
    then have "{b. b < num_elems mp \<and> mp_refs q mp b = 0} = {..<num_elems mp}" by auto
    then show "length (q (ring mp)) = num_elems mp" using cnt by simp
  next
    assume "length (q (ring mp)) = num_elems mp"
    then have "card {b. b < num_elems mp \<and> mp_refs q mp b = 0} = card {..<num_elems mp}"
      using cnt by simp
    then have F: "{b. b < num_elems mp \<and> mp_refs q mp b = 0} = {..<num_elems mp}"
      by (intro card_subset_eq) auto
    have "mp_refs q mp b = 0" for b
    proof (cases "b < num_elems mp")
      case True
      then have "b \<in> {b. b < num_elems mp \<and> mp_refs q mp b = 0}" unfolding F by simp
      then show ?thesis by simp
    qed (simp add: mp_refs_def)
    then show "\<forall>b. mp_refs q mp b = 0" ..
  qed
  show ?thesis
  proof (cases "length (q (ring mp)) = num_elems mp")
    case True
    then obtain r where "ck_ring_enqueue ck (ring mp) (num_elems mp) = (False, r)"
      using inv ring_full [OF mp_inv_ring [OF inv], of "ring mp" "num_elems mp"] by (auto simp: mp_inv_def)
    then show ?thesis
      using inv True all by (simp add: jbpf_destroy_mempool_def mp_inv_def sel_ring_def upd_ring_def)
  next
    case False
    then have lt: "length (q (ring mp)) < num_elems mp" using inv by (simp add: mp_inv_def)
    then obtain r where r: "ck_ring_enqueue ck (ring mp) (num_elems mp) = (True, r)"
        "q r = q (ring mp) @ [num_elems mp]" "cp r = cp (ring mp)"
      using inv ring_enqueue [OF mp_inv_ring [OF inv], of "ring mp" "num_elems mp"] by (auto simp: mp_inv_def)
    let ?mp = "mp\<lparr>ring_alloc := Ring_Destroy, ring := r\<rparr>"
    have "jbpf_destroy_mempool ck mp = Some ?mp"
      using inv r by (simp add: jbpf_destroy_mempool_def mp_inv_def sel_ring_def upd_ring_def)
    moreover have "mp_inv ck q cp ?mp"
      using inv r lt al by (auto simp: mp_inv_def)
    moreover have "mp_refs q ?mp = mp_refs q mp"
      using r by (auto simp: mp_refs_def fun_eq_iff)
    ultimately show ?thesis using False all by auto
  qed
qed

section \<open>The pool provides the contract\<close>

definition mp_live ::
  "'r ck_ring_ops \<Rightarrow> ('r \<Rightarrow> nat list) \<Rightarrow> ('r \<Rightarrow> nat) \<Rightarrow> 'r jbpf_mempool \<Rightarrow> bool" where
  "mp_live ck q cp mp \<longleftrightarrow> mp_inv ck q cp mp \<and> ring_alloc mp = Ring"

definition mp_share :: "'r jbpf_mempool \<Rightarrow> nat \<Rightarrow> 'r jbpf_mempool option" where
  "mp_share mp b = map_option snd (jbpf_mbuf_share mp (Some b))"

definition mp_release :: "'r ck_ring_ops \<Rightarrow> 'r jbpf_mempool \<Rightarrow> nat \<Rightarrow> 'r jbpf_mempool option" where
  "mp_release ck mp b = jbpf_mbuf_free ck mp (Some b) False"

interpretation mpool: buffer_pool "mp_live ck q cp" num_elems "mp_refs q" "jbpf_mbuf_alloc ck"
  mp_share "mp_release ck" for ck :: "'r ck_ring_ops" and q cp
proof (unfold_locales, goal_cases)
  case (1 s b)
  then show ?case by (simp add: mp_refs_def split: if_splits)
next
  case (2 s)
  then show ?case
    using mbuf_alloc_spec [of ck q cp s] unfolding mp_live_def by (fastforce split: option.splits)
next
  case (3 s b)
  then show ?case
    using mbuf_share_spec [of ck q cp s b] by (fastforce simp: mp_live_def mp_share_def)
next
  case (4 s b)
  then show ?case
    using mbuf_free_spec [of ck q cp s b False] by (fastforce simp: mp_live_def mp_release_def)
qed

section \<open>Initialisation\<close>

lemma enqueue_mbufs_spec:
  assumes "ck_ring_spec ck q cp" "length (q r) + (n - i) \<le> cp r"
  shows "\<exists>r'. enqueue_mbufs ck i n r = Some r' \<and> q r' = q r @ [i..<n] \<and> cp r' = cp r"
  using assms(2)
proof (induction "n - i" arbitrary: i r)
  case 0
  then show ?case by (simp add: enqueue_mbufs.simps)
next
  case (Suc d)
  then have i: "i < n" by simp
  obtain r' where r': "ck_ring_enqueue ck r i = (True, r')" "q r' = q r @ [i]" "cp r' = cp r"
    using ring_enqueue [OF assms(1), of r i] Suc by auto
  have "\<exists>r''. enqueue_mbufs ck (Suc i) n r' = Some r'' \<and> q r'' = q r' @ [Suc i..<n] \<and> cp r'' = cp r'"
    using Suc i r' by (intro Suc.hyps) auto
  then show ?case
    using i r' by (auto simp: enqueue_mbufs.simps [of ck i] upt_conv_Cons)
qed

lemma mempool_num_elems_exp:
  assumes "unat n_elems < 2 ^ 30"
  obtains k where "k \<le> 30" "mempool_num_elems n_elems = 2 ^ k - 1" "unat n_elems < 2 ^ k"
proof -
  have n: "unat (n_elems + 1) = unat n_elems + 1"
    using assms by (simp add: unat_word_ariths)
  obtain k where k: "k \<le> 32" "round_up_pow_of_two (n_elems + 1) = 2 ^ k" "unat (n_elems + 1 - 1) < 2 ^ k"
      "0 < k \<Longrightarrow> 2 ^ (k - 1) \<le> unat (n_elems + 1 - 1)"
    using round_up_exp [of "n_elems + 1"] by blast
  have "k \<le> 30"
  proof (rule ccontr)
    assume "\<not> k \<le> 30"
    then have "(2 :: nat) ^ 30 \<le> 2 ^ (k - 1)" by (intro power_increasing) auto
    then show False using k(4) \<open>\<not> k \<le> 30\<close> assms by simp
  qed
  moreover from this have "uint (2 ^ k :: u32) = 2 ^ k"
    using unat_exp [where 'a = 32, of k] by (simp add: uint_nat)
  moreover have "(2 :: int) ^ k < 2 ^ 31" using \<open>k \<le> 30\<close> by (intro power_strict_increasing) auto
  moreover from this have "c_int (2 ^ k) = 2 ^ k"
    by (intro c_int_id) (auto intro: order_trans [of _ 0])
  ultimately show thesis
    using that [of k] k by (simp add: mempool_num_elems_def)
qed

lemma init_mempool_spec:
  assumes ck: "ck_ring_spec ck q cp" and n: "unat n_elems < 2 ^ 30"
    and ok: "\<And>b. alloc_ok mem_ctx b"
  shows "\<exists>mp bs. jbpf_init_mempool_ctx ck alloc_ok mem_ctx n_elems elem_sz ty = (Some mp, bs)
    \<and> mp_live ck q cp mp \<and> mp_refs q mp = (\<lambda>_. 0) \<and> unat n_elems \<le> num_elems mp
    \<and> (\<exists>k. num_elems mp = 2 ^ k - 1) \<and> length bs = 5"
proof -
  obtain k where k: "k \<le> 30" "mempool_num_elems n_elems = 2 ^ k - 1" "unat n_elems < 2 ^ k"
    using mempool_num_elems_exp [OF n] .
  have lt: "(2 :: int) ^ k < 2 ^ 32" "(2 :: nat) ^ k < 2 ^ 32"
    using k(1) by (intro power_strict_increasing; simp)+
  have c: "c_u32 (2 ^ k - 1) = 2 ^ k - 1" "c_u32 (2 ^ k) = 2 ^ k"
    using lt by (simp_all add: c_u32_id nat_diff_distrib nat_power_eq)
  have nat_k: "nat (2 ^ k - 1) = 2 ^ k - 1"
    by (simp add: nat_diff_distrib nat_power_eq)
  have c1: "c_u32 (int (2 ^ k - 1) + 1) = 2 ^ k"
    using c(2) by (simp add: of_nat_diff)
  obtain r where r: "enqueue_mbufs ck 0 (2 ^ k - 1) (ck_ring_init ck (2 ^ k)) = Some r"
      "q r = [0..<2 ^ k - 1]" "cp r = 2 ^ k - 1"
    using enqueue_mbufs_spec [OF ck, of "ck_ring_init ck (2 ^ k)" "2 ^ k - 1" 0] ring_init [OF ck] by auto
  define mp where "mp = \<lparr> mbufs = replicate (2 ^ k - 1 + 1) mbuf_zero, ring = r,
      ring_destroy = ck_ring_init ck (2 ^ k), ring_alloc = Ring, ring_free = Ring,
      ring_marker = 2 ^ k - 1, mp_type = ty, num_elems = 2 ^ k - 1,
      elem_size = c_u16 (uint elem_sz), mbuf_size = c_u16 (mempool_mbuf_size elem_sz), mp_freed = False \<rparr>"
  have "\<exists>bs. jbpf_init_mempool_ctx ck alloc_ok mem_ctx n_elems elem_sz ty = (Some mp, bs) \<and> length bs = 5"
    using r(1) unfolding jbpf_init_mempool_ctx_def Let_def k(2) c nat_k c1 mp_def by (simp add: ok)
  moreover have "mp_live ck q cp mp"
    using ck r ring_init [OF ck] unfolding mp_live_def mp_inv_def mp_def by auto
  moreover have "mp_refs q mp = (\<lambda>_. 0)"
    using r by (auto simp: mp_refs_def mp_def)
  moreover have "unat n_elems \<le> num_elems mp" "num_elems mp = 2 ^ k - 1"
    using k(3) by (simp_all add: mp_def)
  ultimately show ?thesis by blast
qed

section \<open>The life of a pool\<close>

text \<open>A history of calls on a pool.  The state is the pool, the references the clients hold and
  whether the pool has been destroyed; clients share and free only buffers they hold, destroy the pool
  once, and do not allocate from a destroyed pool of which they hold nothing.\<close>

datatype pool_op = Pool_Alloc | Pool_Share nat | Pool_Free nat bool | Pool_Destroy

fun pool_exec ::
  "'r ck_ring_ops \<Rightarrow> pool_op \<Rightarrow> 'r jbpf_mempool \<times> nat list \<times> bool
    \<Rightarrow> ('r jbpf_mempool \<times> nat list \<times> bool) option" where
  "pool_exec ck Pool_Alloc (mp, held, d) =
    (if d \<and> held = [] then Some (mp, held, d)
     else do {
       (x, mp') \<leftarrow> jbpf_mbuf_alloc ck mp;
       Some (mp', (case x of None \<Rightarrow> held | Some b \<Rightarrow> b # held), d)
     })"
| "pool_exec ck (Pool_Share b) (mp, held, d) =
    (if b \<notin> set held then Some (mp, held, d)
     else do { (x, mp') \<leftarrow> jbpf_mbuf_share mp (Some b); Some (mp', b # held, d) })"
| "pool_exec ck (Pool_Free b reset) (mp, held, d) =
    (if b \<notin> set held then Some (mp, held, d)
     else do { mp' \<leftarrow> jbpf_mbuf_free ck mp (Some b) reset; Some (mp', remove1 b held, d) })"
| "pool_exec ck Pool_Destroy (mp, held, d) =
    (if d then Some (mp, held, d)
     else do { mp' \<leftarrow> jbpf_destroy_mempool ck mp; Some (mp', held, True) })"

primrec run_pool ::
  "'r ck_ring_ops \<Rightarrow> pool_op list \<Rightarrow> 'r jbpf_mempool \<times> nat list \<times> bool
    \<Rightarrow> ('r jbpf_mempool \<times> nat list \<times> bool) option" where
  "run_pool ck [] st = Some st"
| "run_pool ck (p # ops) st = do { st' \<leftarrow> pool_exec ck p st; run_pool ck ops st' }"

definition pool_ok ::
  "'r ck_ring_ops \<Rightarrow> ('r \<Rightarrow> nat list) \<Rightarrow> ('r \<Rightarrow> nat) \<Rightarrow> nat \<Rightarrow> 'r jbpf_mempool \<times> nat list \<times> bool \<Rightarrow> bool" where
  "pool_ok ck q cp n = (\<lambda>(mp, held, d).
     if d \<and> held = [] then mp_freed mp
     else mp_inv ck q cp mp \<and> num_elems mp = n \<and> (ring_alloc mp = Ring_Destroy \<longleftrightarrow> d)
       \<and> (\<forall>b. mp_refs q mp b = count_list held b))"

lemma count_list_remove1: "count_list (remove1 b xs) c = count_list xs c - (if b = c then 1 else 0)"
  by (induction xs) auto

lemma count_list_pos: "0 < count_list xs b \<longleftrightarrow> b \<in> set xs"
  by (metis count_list_0_iff gr0I not_gr_zero)

lemma remove1_last:
  assumes "b \<in> set xs"
  shows "count_list xs b = 1 \<and> (\<forall>c. c \<noteq> b \<longrightarrow> count_list xs c = 0) \<longleftrightarrow> remove1 b xs = []"
proof
  assume "count_list xs b = 1 \<and> (\<forall>c. c \<noteq> b \<longrightarrow> count_list xs c = 0)"
  then have "count_list (remove1 b xs) c = 0" for c
    by (cases "c = b") (simp_all add: count_list_remove1)
  then show "remove1 b xs = []"
    by (metis count_list_0_iff list.set_sel(1))
next
  assume "remove1 b xs = []"
  then have "xs = [b]"
    using assms by (cases xs) (auto split: if_splits)
  then show "count_list xs b = 1 \<and> (\<forall>c. c \<noteq> b \<longrightarrow> count_list xs c = 0)" by simp
qed

lemma pool_exec_ok:
  assumes ok: "pool_ok ck q cp n (mp, held, d)" and len: "length held < 2 ^ 64 - 1"
  shows "\<exists>st. pool_exec ck p (mp, held, d) = Some st \<and> pool_ok ck q cp n st
    \<and> length (fst (snd st)) \<le> length held + 1"
proof (cases "d \<and> held = []")
  case True
  then show ?thesis using ok by (cases p) auto
next
  case live: False
  then have inv: "mp_inv ck q cp mp" and n: "num_elems mp = n" and al: "ring_alloc mp = Ring_Destroy \<longleftrightarrow> d"
    and refs: "\<And>b. mp_refs q mp b = count_list held b"
    using ok by (auto simp: pool_ok_def)
  show ?thesis
  proof (cases p)
    case Pool_Alloc
    obtain x mp' where m: "jbpf_mbuf_alloc ck mp = Some (x, mp')" "mp_inv ck q cp mp'"
      "num_elems mp' = num_elems mp" "ring_alloc mp' = ring_alloc mp"
      "case x of None \<Rightarrow> mp_refs q mp' = mp_refs q mp
       | Some b \<Rightarrow> ring_alloc mp = Ring \<and> mp_refs q mp b = 0 \<and> mp_refs q mp' = (mp_refs q mp)(b := 1)"
      using mbuf_alloc_spec [OF inv] by (fastforce split: option.splits)
    let ?held = "case x of None \<Rightarrow> held | Some b \<Rightarrow> b # held"
    have "pool_ok ck q cp n (mp', ?held, d)"
      using m live n al refs by (cases x) (auto simp: pool_ok_def)
    then show ?thesis using m(1) live Pool_Alloc by (cases x) auto
  next
    case (Pool_Share b)
    show ?thesis
    proof (cases "b \<in> set held")
      case True
      then have "0 < mp_refs q mp b" "mp_refs q mp b < 2 ^ 64 - 1"
        using refs len count_le_length [of held b] by (auto simp: count_list_pos intro: le_less_trans)
      from mbuf_share_spec [OF inv this] obtain mp' where m:
        "jbpf_mbuf_share mp (Some b) = Some (Some b, mp')" "mp_inv ck q cp mp'"
        "num_elems mp' = num_elems mp" "ring_alloc mp' = ring_alloc mp"
        "mp_refs q mp' = (mp_refs q mp)(b := mp_refs q mp b + 1)" by blast
      then have "pool_ok ck q cp n (mp', b # held, d)"
        using n al refs by (simp add: pool_ok_def)
      then show ?thesis using m(1) True Pool_Share by simp
    qed (use ok Pool_Share in auto)
  next
    case (Pool_Free b reset)
    show ?thesis
    proof (cases "b \<in> set held")
      case True
      then have pos: "0 < mp_refs q mp b" using refs by (simp add: count_list_pos)
      have last: "mp_refs q mp b = 1 \<and> (\<forall>c. c \<noteq> b \<longrightarrow> mp_refs q mp c = 0) \<longleftrightarrow> remove1 b held = []"
        using remove1_last [OF True] by (simp add: refs)
      obtain mp' where m: "jbpf_mbuf_free ck mp (Some b) reset = Some mp'"
        "if ring_alloc mp = Ring_Destroy \<and> remove1 b held = [] then mp_freed mp'
         else mp_inv ck q cp mp' \<and> num_elems mp' = num_elems mp \<and> ring_alloc mp' = ring_alloc mp
         \<and> mp_refs q mp' = (mp_refs q mp)(b := mp_refs q mp b - 1)"
        using mbuf_free_spec [OF inv pos, of reset] unfolding last by blast
      then have "pool_ok ck q cp n (mp', remove1 b held, d)"
        using n al refs by (auto simp: pool_ok_def count_list_remove1)
      moreover have "length (remove1 b held) \<le> length held + 1"
        by (simp add: length_remove1 le_diff_conv)
      ultimately show ?thesis using m(1) True Pool_Free by simp
    qed (use ok Pool_Free in auto)
  next
    case Pool_Destroy
    show ?thesis
    proof (cases d)
      case d: False
      then have ring: "ring_alloc mp = Ring" using al by (cases "ring_alloc mp") auto
      have "(\<forall>b. mp_refs q mp b = 0) \<longleftrightarrow> held = []"
        by (metis refs count_list.simps(1) count_list_0_iff list.set_sel(1))
      with destroy_mempool_spec [OF inv ring] obtain mp' where m: "jbpf_destroy_mempool ck mp = Some mp'"
        "if held = [] then mp_freed mp' else mp_inv ck q cp mp' \<and> num_elems mp' = num_elems mp
          \<and> ring_alloc mp' = Ring_Destroy \<and> mp_refs q mp' = mp_refs q mp"
        by auto
      then have "pool_ok ck q cp n (mp', held, True)"
        using n refs by (auto simp: pool_ok_def)
      then show ?thesis using m(1) d Pool_Destroy by simp
    qed (use ok Pool_Destroy in auto)
  qed
qed

lemma run_pool_ok:
  assumes "pool_ok ck q cp n st" "length (fst (snd st)) + length ops < 2 ^ 64"
  shows "\<exists>st'. run_pool ck ops st = Some st' \<and> pool_ok ck q cp n st'"
  using assms
proof (induction ops arbitrary: st)
  case (Cons p ops)
  obtain mp held d where st: "st = (mp, held, d)" by (cases st)
  obtain st1 where 1: "pool_exec ck p st = Some st1"
      "pool_ok ck q cp n st1" "length (fst (snd st1)) \<le> length held + 1"
    using pool_exec_ok [of ck q cp n mp held d p] Cons.prems st by auto
  then show ?case using Cons.IH [OF 1(2)] Cons.prems(2) st by auto
qed auto

text \<open>The free buffers of a live pool and the held ones make up the pool.\<close>

lemma pool_conservation:
  assumes "pool_ok ck q cp n (mp, held, d)" "\<not> (d \<and> held = [])"
  shows "card (set held) + length (filter (\<lambda>b. b \<noteq> n) (q (ring mp))) = n"
    "set held \<inter> set (q (ring mp)) = {}"
proof -
  have inv: "mp_inv ck q cp mp" and n: "num_elems mp = n" and refs: "\<And>b. mp_refs q mp b = count_list held b"
    using assms by (auto simp: pool_ok_def)
  have held: "set held = {..<n} - set (q (ring mp))"
  proof (rule set_eqI)
    fix b
    have "b \<in> set held \<longleftrightarrow> 0 < mp_refs q mp b" by (simp add: refs count_list_pos)
    then show "b \<in> set held \<longleftrightarrow> b \<in> {..<n} - set (q (ring mp))"
      using inv n by (auto simp: mp_refs_def mp_inv_def unat_gt_0)
  qed
  then show "set held \<inter> set (q (ring mp)) = {}" by auto
  let ?F = "set (filter (\<lambda>b. b \<noteq> n) (q (ring mp)))"
  have "?F = {..<n} \<inter> set (q (ring mp))"
    using inv n by (auto simp: mp_inv_def le_less)
  moreover have "length (filter (\<lambda>b. b \<noteq> n) (q (ring mp))) = card ?F"
    using inv by (simp add: mp_inv_def distinct_card [symmetric])
  ultimately show "card (set held) + length (filter (\<lambda>b. b \<noteq> n) (q (ring mp))) = n"
    using held card_Int_Diff [of "{..<n}" "set (q (ring mp))"] by simp
qed

text \<open>A ring as a list with its capacity, for concrete runs.\<close>

definition list_ring :: "(nat list \<times> nat) ck_ring_ops" where
  "list_ring = \<lparr> ck_ring_init = (\<lambda>n. ([], n - 1)),
     ck_ring_enqueue = (\<lambda>(xs, c) x. if length xs < c then (True, xs @ [x], c) else (False, xs, c)),
     ck_ring_dequeue = (\<lambda>(xs, c). case xs of [] \<Rightarrow> (None, xs, c) | x # ys \<Rightarrow> (Some x, ys, c)),
     ck_ring_size = (\<lambda>(xs, c). length xs) \<rparr>"

lemma list_ring_spec: "ck_ring_spec list_ring fst snd"
  by (auto simp: ck_ring_spec_def list_ring_def)

lemma init_mempool_alloc:
  assumes "ck_ring_spec ck q cp" "unat n_elems < 2 ^ 30"
    "jbpf_init_mempool_ctx ck alloc_ok mem_ctx n_elems elem_sz ty = (Some mp, blocks)"
  shows "mp_live ck q cp mp \<and> mp_refs q mp = (\<lambda>_. 0) \<and> unat n_elems \<le> num_elems mp"
proof -
  have "jbpf_init_mempool_ctx ck (\<lambda>_ _. True) mem_ctx n_elems elem_sz ty = (Some mp, blocks)"
    using assms(3) by (simp add: jbpf_init_mempool_ctx_def Let_def split: if_splits)
  then show ?thesis
    using init_mempool_spec [OF assms(1,2), of "\<lambda>_ _. True" mem_ctx elem_sz ty] by auto
qed

lemma mempool_size_init:
  assumes mp: "jbpf_init_mempool_ctx ck (\<lambda>_ _. True) mem_ctx n_elems elem_sz ty = (Some mp, bs)"
      "mp_live ck q cp mp" "mp_refs q mp = (\<lambda>_. 0)" "unat n_elems \<le> num_elems mp"
    and ck: "ck_ring_spec ck q cp" and n: "unat n_elems < 2 ^ 30"
  shows "jbpf_get_mempool_size ck (Some mp) = int (num_elems mp)
    \<and> jbpf_get_mempool_capacity (Some mp) = int (num_elems mp)"
proof -
  obtain k where k: "k \<le> 30" "mempool_num_elems n_elems = 2 ^ k - 1"
    using mempool_num_elems_exp [OF n] by blast
  have lt: "(2 :: int) ^ k < 2 ^ 31" using k(1) by (intro power_strict_increasing) auto
  have num: "int (num_elems mp) = 2 ^ k - 1"
    using mp(1) lt unfolding jbpf_init_mempool_ctx_def Let_def k(2)
    by (auto simp: c_u32_id split: option.splits)
  have "length (q (ring mp)) = num_elems mp"
    using mp_free_count [of ck q cp mp] mp(2,3) by (simp add: mp_live_def)
  moreover have "c_int (int (num_elems mp)) = int (num_elems mp)"
    using num lt by (intro c_int_id) auto
  ultimately show ?thesis
    using mp(2) ring_size [OF ck]
    by (simp add: jbpf_get_mempool_size_def jbpf_get_mempool_capacity_def mp_live_def sel_ring_def)
qed

text \<open>C31: Creating a pool is all or nothing: when every allocation succeeds the pool has at least the
  number of elements asked for, all free; when one fails the caller gets no pool and every block
  allocated before it has been released.\<close>

theorem init_mempool_all_or_nothing:
  assumes "ck_ring_spec ck q cp" and "unat n_elems < 2 ^ 30"
  shows "(\<exists>mp blocks. jbpf_init_mempool_ctx ck alloc_ok mem_ctx n_elems elem_sz ty = (Some mp, blocks)
      \<and> length blocks = 5 \<and> (\<forall>b \<in> set blocks. alloc_ok mem_ctx b)
      \<and> mp_inv ck q cp mp \<and> (\<forall>b. mp_refs q mp b = 0)
      \<and> unat n_elems \<le> num_elems mp \<and> jbpf_get_mempool_size ck (Some mp) = int (num_elems mp)
      \<and> jbpf_get_mempool_capacity (Some mp) = int (num_elems mp))
    \<or> jbpf_init_mempool_ctx ck alloc_ok mem_ctx n_elems elem_sz ty = (None, [])"
proof -
  let ?n = "mempool_num_elems n_elems" and ?sz = "mempool_mbuf_size elem_sz"
  let ?bs = "[Ring_Marker (c_size ?sz), Ring_Destroy_Buf (c_size (?n + 1)), Ring_Buf (c_size (?n + 1)),
    Data_Array (c_size ?n) (c_size ?sz), Pool_Ctx]"
  obtain mp bs where mp: "jbpf_init_mempool_ctx ck (\<lambda>_ _. True) mem_ctx n_elems elem_sz ty = (Some mp, bs)"
      "mp_live ck q cp mp" "mp_refs q mp = (\<lambda>_. 0)" "unat n_elems \<le> num_elems mp"
    using init_mempool_spec [OF assms, of "\<lambda>_ _. True"] by blast
  show ?thesis
  proof (cases "\<forall>b \<in> set ?bs. alloc_ok mem_ctx b")
    case True
    then have "jbpf_init_mempool_ctx ck alloc_ok mem_ctx n_elems elem_sz ty
        = jbpf_init_mempool_ctx ck (\<lambda>_ _. True) mem_ctx n_elems elem_sz ty"
      by (simp add: jbpf_init_mempool_ctx_def Let_def)
    moreover have "bs = ?bs"
      using mp(1) by (simp add: jbpf_init_mempool_ctx_def Let_def split: option.splits)
    moreover have "jbpf_get_mempool_size ck (Some mp) = int (num_elems mp)
        \<and> jbpf_get_mempool_capacity (Some mp) = int (num_elems mp)"
      using mp assms by (rule mempool_size_init)
    ultimately show ?thesis using mp True by (simp add: mp_live_def)
  next
    case False
    then show ?thesis
      by (auto simp: jbpf_init_mempool_ctx_def Let_def free_blocks_def)
  qed
qed

theorem init_mempool_all_or_nothing_witness:
  "\<exists>mp. fst (jbpf_init_mempool_ctx list_ring (\<lambda>_ _. True) False 5 100 0) = Some mp
     \<and> 5 \<le> num_elems mp \<and> num_elems mp = 7"
proof -
  have n: "mempool_num_elems 5 = 7"
    by (simp add: mempool_num_elems_def round_up_pow_of_two_def Let_def c_int_id)
  have "jbpf_init_mempool_ctx list_ring (\<lambda>_ _. True) False 5 100 0 \<noteq> (None, [])"
    by (simp add: jbpf_init_mempool_ctx_def Let_def split: option.splits)
  then show ?thesis
    using init_mempool_all_or_nothing [OF list_ring_spec, of 5 "\<lambda>_ _. True" False 100 0]
    by (auto simp: jbpf_init_mempool_ctx_def Let_def n c_u32_id split: option.splits)
qed

text \<open>C5: In every history of allocations, shares, frees and one destruction of a pool, no call touches
  released memory or a buffer that is not there; the pool's memory is released exactly when it has been
  destroyed and no reference is left; until then a buffer is free or held but never both, none is
  lost, and the reference count of a buffer is the number of references held.\<close>

theorem mempool_lifecycle:
  assumes "ck_ring_spec ck q cp" and "unat n_elems < 2 ^ 30" and "length ops < 2 ^ 64"
    and "jbpf_init_mempool_ctx ck alloc_ok mem_ctx n_elems elem_sz ty = (Some mp0, blocks)"
  shows "\<exists>mp held destroyed. run_pool ck ops (mp0, [], False) = Some (mp, held, destroyed)
    \<and> (mp_freed mp \<longleftrightarrow> destroyed \<and> held = [])
    \<and> (\<not> mp_freed mp \<longrightarrow>
         set held \<inter> set (q (ring mp)) = {}
         \<and> card (set held) + length (filter (\<lambda>b. b \<noteq> ring_marker mp) (q (ring mp))) = num_elems mp0
         \<and> (\<forall>b. mp_refs q mp b = count_list held b))"
proof -
  have live: "mp_live ck q cp mp0" "mp_refs q mp0 = (\<lambda>_. 0)"
    using init_mempool_alloc [OF assms(1,2,4)] by blast+
  then have "pool_ok ck q cp (num_elems mp0) (mp0, [], False)"
    by (simp add: pool_ok_def mp_live_def)
  then obtain mp held d where run: "run_pool ck ops (mp0, [], False) = Some (mp, held, d)"
      "pool_ok ck q cp (num_elems mp0) (mp, held, d)"
    using run_pool_ok [of ck q cp "num_elems mp0" "(mp0, [], False)" ops] assms(3) by auto
  have freed: "mp_freed mp \<longleftrightarrow> d \<and> held = []"
    using run(2) by (auto simp: pool_ok_def mp_inv_def split: if_splits)
  show ?thesis
  proof (cases "d \<and> held = []")
    case True
    then show ?thesis using run(1) freed by blast
  next
    case False
    then have "ring_marker mp = num_elems mp0" "\<forall>b. mp_refs q mp b = count_list held b"
      using run(2) by (auto simp: pool_ok_def mp_inv_def)
    with run freed pool_conservation [OF run(2) False] show ?thesis by auto
  qed
qed

theorem mempool_lifecycle_witness:
  "\<exists>mp0 mp held. fst (jbpf_init_mempool_ctx list_ring (\<lambda>_ _. True) False 2 64 0) = Some mp0
     \<and> run_pool list_ring [Pool_Alloc, Pool_Alloc, Pool_Destroy, Pool_Free 0 True] (mp0, [], False)
       = Some (mp, held, True)
     \<and> held = [1] \<and> \<not> mp_freed mp"
proof -
  let ?ops = "[Pool_Alloc, Pool_Alloc, Pool_Destroy, Pool_Free 0 True]"
  have n: "mempool_num_elems 2 = 3"
    by (simp add: mempool_num_elems_def round_up_pow_of_two_def Let_def c_int_id)
  obtain mp0 bs where mp0: "jbpf_init_mempool_ctx list_ring (\<lambda>_ _. True) False 2 64 0 = (Some mp0, bs)"
    using init_mempool_spec [OF list_ring_spec, of 2 "\<lambda>_ _. True" False 64 0] by auto
  have r: "enqueue_mbufs list_ring 0 3 (ck_ring_init list_ring 4) = Some ([0, 1, 2], 3)"
    by (simp add: enqueue_mbufs.simps list_ring_def)
  have mp: "mbufs mp0 = replicate 4 mbuf_zero" "ring mp0 = ([0, 1, 2], 3)" "ring_free mp0 = Ring"
      "ring_alloc mp0 = Ring" "ring_marker mp0 = 3" "mp_freed mp0 = False"
    using mp0 r by (auto simp: jbpf_init_mempool_ctx_def Let_def n c_u32_id)
  have run: "\<exists>mp. run_pool list_ring ?ops (mp0, [], False) = Some (mp, [1], True)"
    by (simp add: mp jbpf_mbuf_alloc_def sel_ring_def upd_ring_def list_ring_def jbpf_destroy_mempool_def
        jbpf_mbuf_free_def mbuf_zero_def)
  then show ?thesis
    using mempool_lifecycle [OF list_ring_spec _ _ mp0, of ?ops] mp0 by auto
qed

text \<open>C39: A pool whose elements have 65536 bytes records their size in 16 bits: freeing a buffer with
  a reset leaves all of its data as it was, where the documentation says that the data section is
  set to 0.\<close>

theorem mbuf_reset_truncated:
  assumes "ck_ring_spec ck q cp" and "unat n_elems < 2 ^ 30"
    and "jbpf_init_mempool_ctx ck alloc_ok mem_ctx n_elems 65536 ty = (Some mp0, blocks)"
    and "jbpf_mbuf_alloc ck mp0 = Some (Some b, mp1)"
  shows "\<exists>mp2. jbpf_mbuf_free ck (mp1\<lparr>mbufs := (mbufs mp1)[b := (mbufs mp1 ! b)\<lparr>mb_data := f\<rparr>]\<rparr>) (Some b) True
      = Some mp2 \<and> mb_data (mbufs mp2 ! b) = f"
proof -
  have live: "mp_live ck q cp mp0" using init_mempool_alloc [OF assms(1-3)] by blast
  have "mempool_mbuf_size 65536 = 65552"
    by (simp add: mempool_mbuf_size_def jbpf_round_up_mem_def sizeof_mbuf_def Let_def c_int_id)
  then have sz: "mbuf_size mp0 = 16"
    using assms(3) by (auto simp: jbpf_init_mempool_ctx_def Let_def c_u16_def split: if_splits option.splits)
  have b: "b < num_elems mp0" "mp_inv ck q cp mp1" "num_elems mp1 = num_elems mp0"
    using mbuf_alloc_spec [of ck q cp mp0] live assms(4) by (auto simp: mp_live_def)
  then have len: "b < length (mbufs mp1)" by (simp add: mp_inv_def)
  have "mbuf_size mp1 = mbuf_size mp0 \<and> ref_cnt (mbufs mp1 ! b) = 1 \<and> mb_mempool (mbufs mp1 ! b)"
    using assms(4) len by (auto simp: jbpf_mbuf_alloc_def upd_ring_def Let_def split_def
        split: if_splits option.splits ring_sel.splits bind_splits)
  then show ?thesis
    using sz b(2) len
    by (simp add: jbpf_mbuf_free_def mp_inv_def mbuf_memset_def sizeof_mbuf_def Let_def split_def
        sel_ring_def upd_ring_def)
qed

theorem mbuf_reset_truncated_witness:
  "\<exists>mp1 mp2. jbpf_mbuf_free list_ring (mp1\<lparr>mbufs := (mbufs mp1)[0 := (mbufs mp1 ! 0)\<lparr>mb_data := (\<lambda>_. 7)\<rparr>]\<rparr>)
     (Some 0) True = Some mp2 \<and> mb_data (mbufs mp2 ! 0) = (\<lambda>_. 7)"
proof -
  have n: "mempool_num_elems 1 = 1"
    by (simp add: mempool_num_elems_def round_up_pow_of_two_def Let_def c_int_id)
  obtain mp0 bs where mp0: "jbpf_init_mempool_ctx list_ring (\<lambda>_ _. True) False 1 65536 0 = (Some mp0, bs)"
    using init_mempool_spec [OF list_ring_spec, of 1 "\<lambda>_ _. True" False 65536 0] by auto
  have r: "enqueue_mbufs list_ring 0 (Suc 0) (ck_ring_init list_ring 2) = Some ([0], 1)"
    by (simp add: enqueue_mbufs.simps list_ring_def)
  obtain mp1 where "jbpf_mbuf_alloc list_ring mp0 = Some (Some 0, mp1)"
    using mp0 r by (auto simp: jbpf_init_mempool_ctx_def Let_def n c_u32_id jbpf_mbuf_alloc_def sel_ring_def
        upd_ring_def list_ring_def)
  from mbuf_reset_truncated [OF list_ring_spec _ mp0 this, of "\<lambda>_. 7"] show ?thesis by auto
qed

end
