(* ===== verification/Hashmap.thy ===== *)
theory Hashmap
  imports Ck_Ht Bpf_Map Mempool
begin

text \<open>
  The hash maps for several threads of \<open>src/core/jbpf_bpf_hashmap.h\<close>: a hash table of Concurrency Kit
  under a lock that is only tried, whose entries are buffers of a memory pool and are given back
  through the epoch mechanism.  The table is a parameter with \<open>ck_ht_spec\<close>, the pool is that of
  \<^theory_text>\<open>Mempool\<close>.
\<close>

section \<open>The operations\<close>

text \<open>\<open>hm_locked\<close> says that another thread holds the lock; \<open>hm_bufs\<close> is the key and the value in a buffer,
  and \<open>hm_deferred\<close> are the buffers handed to the epoch mechanism and not yet freed by it.\<close>

record ('h, 'r) jbpf_bpf_hashmap =
  hm_key_size :: u32
  hm_value_size :: u32
  hm_max_entries :: u32
  hm_ht :: 'h
  hm_mempool :: "'r jbpf_mempool_ctx"
  hm_locked :: bool
  hm_bufs :: "nat \<Rightarrow> bytes \<times> bytes"
  hm_deferred :: "nat list"

definition sizeof_epoch_entry :: u64 where
  "sizeof_epoch_entry = 16"

definition jbpf_bpf_hashmap_create ::
  "(bytes, nat, 'h) ck_ht_ops \<Rightarrow> 'r ck_ring_ops \<Rightarrow> bool \<Rightarrow> bool \<Rightarrow> (bool \<Rightarrow> pool_block \<Rightarrow> bool)
    \<Rightarrow> jbpf_load_map_def \<Rightarrow> ('h, 'r) jbpf_bpf_hashmap option" where
  "jbpf_bpf_hashmap_create ht ck hmap_ok ctx_ok alloc_ok map_def =
    (if \<not> hmap_ok then None
     else case ck_ht_init ht (unat (md_max_entries map_def)) of
       None \<Rightarrow> None
     | Some h \<Rightarrow>
        (case jbpf_init_data_mempool ck ctx_ok alloc_ok (md_max_entries map_def * 2)
            (sizeof_epoch_entry + ucast (md_key_size map_def) + ucast (md_value_size map_def)) of
           None \<Rightarrow> None
         | Some mp \<Rightarrow> Some \<lparr> hm_key_size = md_key_size map_def, hm_value_size = md_value_size map_def,
             hm_max_entries = md_max_entries map_def, hm_ht = h, hm_mempool = mp, hm_locked = False,
             hm_bufs = (\<lambda>_. ([], [])), hm_deferred = [] \<rparr>))"

definition jbpf_bpf_hashmap_size ::
  "(bytes, nat, 'h) ck_ht_ops \<Rightarrow> ('h, 'r) jbpf_bpf_hashmap option \<Rightarrow> nat" where
  "jbpf_bpf_hashmap_size ht m =
    (case m of
       None \<Rightarrow> 0
     | Some hm \<Rightarrow> if \<not> hm_locked hm then c_u32 (int (ck_ht_count ht (hm_ht hm))) else c_u32 JBPF_MAP_BUSY)"

definition jbpf_bpf_hashmap_lookup_elem ::
  "(bytes, nat, 'h) ck_ht_ops \<Rightarrow> ('h, 'r) jbpf_bpf_hashmap \<Rightarrow> bytes \<Rightarrow> nat option" where
  "jbpf_bpf_hashmap_lookup_elem ht hm key = ck_ht_get ht (hm_ht hm) (take (unat (hm_key_size hm)) key)"

definition jbpf_bpf_hashmap_reset_elem ::
  "(bytes, nat, 'h) ck_ht_ops \<Rightarrow> ('h, 'r) jbpf_bpf_hashmap \<Rightarrow> bytes \<Rightarrow> nat option \<times> ('h, 'r) jbpf_bpf_hashmap" where
  "jbpf_bpf_hashmap_reset_elem ht hm key =
    (case ck_ht_get ht (hm_ht hm) (take (unat (hm_key_size hm)) key) of
       None \<Rightarrow> (None, hm)
     | Some b \<Rightarrow> (Some b, hm\<lparr>hm_bufs := (hm_bufs hm)(b := (fst (hm_bufs hm b), replicate (unat (hm_value_size hm)) 0))\<rparr>))"

definition jbpf_bpf_hashmap_update_elem ::
  "(bytes, nat, 'h) ck_ht_ops \<Rightarrow> 'r ck_ring_ops \<Rightarrow> ('h, 'r) jbpf_bpf_hashmap \<Rightarrow> bytes \<Rightarrow> bytes \<Rightarrow> u64
    \<Rightarrow> (int \<times> ('h, 'r) jbpf_bpf_hashmap) option" where
  "jbpf_bpf_hashmap_update_elem ht ck hm key val flags =
    (if hm_locked hm then Some (- JBPF_MAP_BUSY, hm)
     else do {
       (x, mp) \<leftarrow> jbpf_alloc_data_mem ck (hm_mempool hm);
       let hm = hm\<lparr>hm_mempool := mp\<rparr>;
       (case x of
          None \<Rightarrow> Some (JBPF_MAP_ERROR, hm)
        | Some b \<Rightarrow>
           let k = take (unat (hm_key_size hm)) key; v = take (unat (hm_value_size hm)) val in
           if ck_ht_get ht (hm_ht hm) k = None \<and> ck_ht_count ht (hm_ht hm) = unat (hm_max_entries hm)
           then Some (JBPF_MAP_FULL, hm)
           else
             let hm = hm\<lparr>hm_bufs := (hm_bufs hm)(b := (k, v))\<rparr>;
                 (ret_val, h) = ck_ht_set ht (hm_ht hm) k b;
                 hm = hm\<lparr>hm_ht := h\<rparr>
             in case ret_val of
                  None \<Rightarrow> Some (0, hm)
                | Some r \<Rightarrow>
                   if r \<noteq> b then Some (0, hm\<lparr>hm_deferred := r # hm_deferred hm\<rparr>)
                   else do {
                     mp \<leftarrow> jbpf_free_data_mem ck (hm_mempool hm) (Some b);
                     Some (0, hm\<lparr>hm_mempool := mp\<rparr>)
                   })
     })"

definition jbpf_bpf_hashmap_delete_elem ::
  "(bytes, nat, 'h) ck_ht_ops \<Rightarrow> ('h, 'r) jbpf_bpf_hashmap \<Rightarrow> bytes \<Rightarrow> int \<times> ('h, 'r) jbpf_bpf_hashmap" where
  "jbpf_bpf_hashmap_delete_elem ht hm key =
    (if hm_locked hm then (JBPF_MAP_BUSY, hm)
     else
       let (r, h) = ck_ht_remove ht (hm_ht hm) (take (unat (hm_key_size hm)) key);
           hm = hm\<lparr>hm_ht := h\<rparr>
       in case r of
            None \<Rightarrow> (JBPF_MAP_ERROR, hm)
          | Some b \<Rightarrow> (JBPF_MAP_SUCCESS, hm\<lparr>hm_deferred := b # hm_deferred hm\<rparr>))"

text \<open>The loop of \<open>clear\<close> over the entries of the table.\<close>

fun clear_entries ::
  "(bytes, nat, 'h) ck_ht_ops \<Rightarrow> (bytes \<times> nat) list \<Rightarrow> ('h, 'r) jbpf_bpf_hashmap \<Rightarrow> ('h, 'r) jbpf_bpf_hashmap" where
  "clear_entries ht [] hm = hm"
| "clear_entries ht ((k, b) # es) hm =
    clear_entries ht es (hm\<lparr>hm_deferred := b # hm_deferred hm, hm_ht := snd (ck_ht_remove ht (hm_ht hm) k)\<rparr>)"

definition jbpf_bpf_hashmap_clear ::
  "(bytes, nat, 'h) ck_ht_ops \<Rightarrow> ('h, 'r) jbpf_bpf_hashmap \<Rightarrow> int \<times> ('h, 'r) jbpf_bpf_hashmap" where
  "jbpf_bpf_hashmap_clear ht hm =
    (if \<not> hm_locked hm then (JBPF_MAP_SUCCESS, clear_entries ht (ck_ht_entries ht (hm_ht hm)) hm)
     else (JBPF_MAP_BUSY, hm))"

definition jbpf_bpf_hashmap_dump ::
  "(bytes, nat, 'h) ck_ht_ops \<Rightarrow> ('h, 'r) jbpf_bpf_hashmap \<Rightarrow> u32 \<Rightarrow> u64 \<Rightarrow> nat \<times> bytes" where
  "jbpf_bpf_hashmap_dump ht hm max_size flags =
    (if \<not> hm_locked hm then
       let required_size = of_nat (ck_ht_count ht (hm_ht hm)) * (hm_key_size hm + hm_value_size hm) in
       if required_size > max_size then (0, [])
       else
         let es = ck_ht_entries ht (hm_ht hm) in
         (c_u32 (int (length es)), concat (map (\<lambda>(k, b). fst (hm_bufs hm b) @ snd (hm_bufs hm b)) es))
     else (0, []))"

text \<open>What the epoch mechanism does when it is safe: it frees what was deferred.\<close>

fun reclaim :: "'r ck_ring_ops \<Rightarrow> nat list \<Rightarrow> 'r jbpf_mempool_ctx \<Rightarrow> 'r jbpf_mempool_ctx option" where
  "reclaim ck [] mp = Some mp"
| "reclaim ck (b # bs) mp = do { mp' \<leftarrow> jbpf_free_data_mem ck mp (Some b); reclaim ck bs mp' }"

definition epoch_reclaim :: "'r ck_ring_ops \<Rightarrow> ('h, 'r) jbpf_bpf_hashmap \<Rightarrow> ('h, 'r) jbpf_bpf_hashmap option" where
  "epoch_reclaim ck hm = do {
     mp \<leftarrow> reclaim ck (hm_deferred hm) (hm_mempool hm);
     Some (hm\<lparr>hm_mempool := mp, hm_deferred := []\<rparr>)
   }"

text \<open>The destruction of a map: a barrier, which frees what the calling thread has deferred, then the
  destruction of the pool; the result is the pool as it is left.\<close>

definition jbpf_bpf_hashmap_destroy ::
  "'r ck_ring_ops \<Rightarrow> ('h, 'r) jbpf_bpf_hashmap \<Rightarrow> 'r jbpf_mempool option" where
  "jbpf_bpf_hashmap_destroy ck hm = do {
     hm \<leftarrow> epoch_reclaim ck hm;
     jbpf_destroy_data_mempool ck (hm_mempool hm)
   }"

section \<open>Buffers of a map\<close>

text \<open>The pool's buffers in use are those of the table, those that are deferred, and \<open>L\<close>, which belong
  to nothing any more.\<close>

definition hm_inv ::
  "(bytes, nat, 'h) ck_ht_ops \<Rightarrow> 'r ck_ring_ops \<Rightarrow> ('r \<Rightarrow> nat list) \<Rightarrow> ('r \<Rightarrow> nat) \<Rightarrow> nat multiset
    \<Rightarrow> ('h, 'r) jbpf_bpf_hashmap \<Rightarrow> bool" where
  "hm_inv ht ck q cp L hm \<longleftrightarrow> ck_ht_spec ht \<and> \<not> hm_locked hm
     \<and> card (dom (ck_ht_get ht (hm_ht hm))) \<le> unat (hm_max_entries hm)
     \<and> mpool.holds ck q cp (ctx_mempool (hm_mempool hm))
         (map_vals (ck_ht_get ht (hm_ht hm)) + mset (hm_deferred hm) + L)
     \<and> (\<forall>k b. ck_ht_get ht (hm_ht hm) k = Some b \<longrightarrow> fst (hm_bufs hm b) = k)
     \<and> (\<forall>b. count (map_vals (ck_ht_get ht (hm_ht hm)) + mset (hm_deferred hm) + L) b \<le> 1)"

definition hm_contents :: "(bytes, nat, 'h) ck_ht_ops \<Rightarrow> ('h, 'r) jbpf_bpf_hashmap \<Rightarrow> bytes \<Rightarrow> bytes option" where
  "hm_contents ht hm k = map_option (\<lambda>b. snd (hm_bufs hm b)) (ck_ht_get ht (hm_ht hm) k)"

definition hm_capacity :: "('h, 'r) jbpf_bpf_hashmap \<Rightarrow> nat" where
  "hm_capacity hm = num_elems (ctx_mempool (hm_mempool hm))"

lemma alloc_data_holds:
  assumes "mpool.holds ck q cp (ctx_mempool mp) H"
  obtains (got) b mp' where "jbpf_alloc_data_mem ck mp = Some (Some b, mp')" "b \<notin># H"
      "mpool.holds ck q cp (ctx_mempool mp') (add_mset b H)"
      "num_elems (ctx_mempool mp') = num_elems (ctx_mempool mp)"
  | (exhausted) mp' where "jbpf_alloc_data_mem ck mp = Some (None, mp')"
      "card (set_mset H) = num_elems (ctx_mempool mp)" "mpool.holds ck q cp (ctx_mempool mp') H"
      "num_elems (ctx_mempool mp') = num_elems (ctx_mempool mp)"
proof (cases rule: mpool.alloc_holds [OF assms])
  case (1 b s')
  then show thesis
    using got [of b "mp\<lparr>ctx_mempool := s'\<rparr>"] by (simp add: jbpf_alloc_data_mem_def)
next
  case (2 s')
  then show thesis
    using exhausted [of "mp\<lparr>ctx_mempool := s'\<rparr>"] by (simp add: jbpf_alloc_data_mem_def)
qed

lemma free_data_holds:
  assumes "mpool.holds ck q cp (ctx_mempool mp) H" "b \<in># H"
  obtains mp' where "jbpf_free_data_mem ck mp (Some b) = Some mp'"
    "mpool.holds ck q cp (ctx_mempool mp') (H - {#b#})"
    "num_elems (ctx_mempool mp') = num_elems (ctx_mempool mp)"
proof -
  obtain s' where "mp_release ck (ctx_mempool mp) b = Some s'" "mpool.holds ck q cp s' (H - {#b#})"
      "num_elems s' = num_elems (ctx_mempool mp)"
    using mpool.release_holds [OF assms] by blast
  then show thesis
    using that [of "mp\<lparr>ctx_mempool := s'\<rparr>"]
    by (simp add: jbpf_free_data_mem_def jbpf_mbuf_free_from_data_ptr_def mp_release_def)
qed

lemma reclaim_holds:
  assumes "mpool.holds ck q cp (ctx_mempool mp) (mset bs + H)"
  shows "\<exists>mp'. reclaim ck bs mp = Some mp' \<and> mpool.holds ck q cp (ctx_mempool mp') H
    \<and> num_elems (ctx_mempool mp') = num_elems (ctx_mempool mp)"
  using assms
proof (induction bs arbitrary: mp)
  case (Cons b bs)
  have "b \<in># mset (b # bs) + H" by simp
  from free_data_holds [OF Cons.prems this] obtain mp1 where m:
    "jbpf_free_data_mem ck mp (Some b) = Some mp1" "mpool.holds ck q cp (ctx_mempool mp1) (mset bs + H)"
    "num_elems (ctx_mempool mp1) = num_elems (ctx_mempool mp)"
    by auto
  then show ?case using Cons.IH [OF m(2)] by auto
qed simp

lemma hm_contents_dom: "dom (hm_contents ht hm) = dom (ck_ht_get ht (hm_ht hm))"
  by (auto simp: hm_contents_def)

lemma hm_invI:
  assumes "ck_ht_spec ht" "\<not> hm_locked hm" "card (dom (ck_ht_get ht (hm_ht hm))) \<le> unat (hm_max_entries hm)"
    "mpool.holds ck q cp (ctx_mempool (hm_mempool hm)) H" "\<And>b. count H b \<le> 1"
    "H = map_vals (ck_ht_get ht (hm_ht hm)) + mset (hm_deferred hm) + L"
    "\<And>k b. ck_ht_get ht (hm_ht hm) k = Some b \<Longrightarrow> fst (hm_bufs hm b) = k"
  shows "hm_inv ht ck q cp L hm"
  unfolding hm_inv_def using assms by blast

lemma card_set_mset:
  assumes "\<And>b. count H b \<le> 1"
  shows "card (set_mset H) = size H"
proof -
  have "H = mset_set (set_mset H)"
    using assms by (intro multiset_eqI) (metis One_nat_def count_eq_zero_iff count_mset_set(1) count_mset_set(3)
        finite_set_mset le_Suc_eq le_zero_eq)
  then show ?thesis by (metis size_mset_set)
qed

text \<open>The outcomes of an update on a map that is not locked.\<close>

lemma update_cases:
  fixes fl :: u64
  assumes inv: "hm_inv ht ck q cp L hm" and k: "length k = unat (hm_key_size hm)" "length v = unat (hm_value_size hm)"
  defines "upd \<equiv> jbpf_bpf_hashmap_update_elem ht ck hm k v fl"
  obtains (exhausted) hm' where "upd = Some (JBPF_MAP_ERROR, hm')" "hm_inv ht ck q cp L hm'"
      "hm_contents ht hm' = hm_contents ht hm" "hm_deferred hm' = hm_deferred hm"
      "card (dom (hm_contents ht hm)) + length (hm_deferred hm) + size L = hm_capacity hm"
      "hm_ht hm' = hm_ht hm" "hm_capacity hm' = hm_capacity hm"
      "hm_key_size hm' = hm_key_size hm" "hm_value_size hm' = hm_value_size hm" "hm_max_entries hm' = hm_max_entries hm"
  | (full) b hm' where "upd = Some (JBPF_MAP_FULL, hm')" "hm_inv ht ck q cp (add_mset b L) hm'"
      "hm_contents ht hm' = hm_contents ht hm" "hm_deferred hm' = hm_deferred hm"
      "hm_contents ht hm k = None" "card (dom (hm_contents ht hm)) = unat (hm_max_entries hm)"
      "card (dom (hm_contents ht hm)) + length (hm_deferred hm) + size L < hm_capacity hm"
      "hm_ht hm' = hm_ht hm" "hm_capacity hm' = hm_capacity hm"
      "hm_key_size hm' = hm_key_size hm" "hm_value_size hm' = hm_value_size hm" "hm_max_entries hm' = hm_max_entries hm"
  | (stored) hm' where "upd = Some (JBPF_MAP_SUCCESS, hm')" "hm_inv ht ck q cp L hm'"
      "hm_contents ht hm' = (hm_contents ht hm)(k \<mapsto> v) \<or>
        hm_contents ht hm' = hm_contents ht hm \<and> (\<exists>b. fst (ck_ht_set ht (hm_ht hm) k b) \<noteq> ck_ht_get ht (hm_ht hm) k)"
      "hm_contents ht hm k \<noteq> None \<or> card (dom (hm_contents ht hm)) < unat (hm_max_entries hm)"
      "card (dom (hm_contents ht hm)) + length (hm_deferred hm) + size L < hm_capacity hm"
      "hm_capacity hm' = hm_capacity hm"
      "hm_key_size hm' = hm_key_size hm" "hm_value_size hm' = hm_value_size hm" "hm_max_entries hm' = hm_max_entries hm"
proof -
  let ?m = "ck_ht_get ht (hm_ht hm)"
  let ?H = "map_vals ?m + mset (hm_deferred hm) + L"
  have spec: "ck_ht_spec ht" and unl: "\<not> hm_locked hm" and le: "card (dom ?m) \<le> unat (hm_max_entries hm)"
    and holds: "mpool.holds ck q cp (ctx_mempool (hm_mempool hm)) ?H"
    and keys: "\<And>k b. ?m k = Some b \<Longrightarrow> fst (hm_bufs hm b) = k"
    and one: "\<And>b. count ?H b \<le> 1"
    using inv by (auto simp: hm_inv_def)
  have fin: "finite (dom ?m)" by (rule ht_finite [OF spec])
  have tk: "take (unat (hm_key_size hm)) k = k" "take (unat (hm_value_size hm)) v = v" using k by simp_all
  have cnt: "ck_ht_count ht (hm_ht hm) = card (dom ?m)" by (rule ht_count [OF spec])
  show thesis
  proof (cases rule: alloc_data_holds [OF holds])
    case (2 mp')
    have "card (set_mset ?H) = size ?H" by (rule card_set_mset [OF one])
    then have "card (dom (hm_contents ht hm)) + length (hm_deferred hm) + size L = hm_capacity hm"
      using 2(2) fin by (simp add: hm_capacity_def hm_contents_dom size_map_vals)
    then show thesis
      using 2 inv unl
      by (intro exhausted [of "hm\<lparr>hm_mempool := mp'\<rparr>"])
        (auto simp: upd_def jbpf_bpf_hashmap_update_elem_def hm_inv_def hm_contents_def hm_capacity_def fun_eq_iff)
  next
    case (1 b mp')
    have nb: "?m k' \<noteq> Some b" for k'
      using in_map_vals [OF fin, of k' b] 1(2) by auto
    let ?hm = "hm\<lparr>hm_mempool := mp'\<rparr>"
    have cnt': "count (add_mset b ?H) c \<le> 1" for c
      using one [of c] 1(2) by (auto simp: not_in_iff)
    have "card (set_mset (add_mset b ?H)) \<le> num_elems (ctx_mempool mp')"
      by (rule mpool.holds_card [OF 1(3)])
    then have lt: "card (dom (hm_contents ht hm)) + length (hm_deferred hm) + size L < hm_capacity hm"
      using card_set_mset [OF cnt'] 1(4) fin by (simp add: hm_capacity_def hm_contents_dom size_map_vals)
    show thesis
    proof (cases "?m k = None \<and> card (dom ?m) = unat (hm_max_entries hm)")
      case True
      have "hm_inv ht ck q cp (add_mset b L) ?hm"
        using inv 1(3) cnt' by (simp add: hm_inv_def)
      then show thesis
        using True 1 unl tk cnt lt hm_contents_dom [of ht hm]
        by (intro full [of ?hm b])
          (auto simp: upd_def jbpf_bpf_hashmap_update_elem_def hm_contents_def hm_capacity_def fun_eq_iff Let_def)
    next
      case False
      obtain r h where set: "ck_ht_set ht (hm_ht hm) k b = (r, h)" by (cases "ck_ht_set ht (hm_ht hm) k b")
      let ?bufs = "(hm_bufs hm)(b := (k, v))"
      let ?hm1 = "hm\<lparr>hm_mempool := mp', hm_bufs := ?bufs, hm_ht := h\<rparr>"
      have upd: "upd = (case r of
            None \<Rightarrow> Some (0, ?hm1)
          | Some r \<Rightarrow> if r \<noteq> b then Some (0, ?hm1\<lparr>hm_deferred := r # hm_deferred hm\<rparr>)
             else do { mp \<leftarrow> jbpf_free_data_mem ck mp' (Some b); Some (0, ?hm1\<lparr>hm_mempool := mp\<rparr>) })"
        using False 1(1) unl tk cnt set
        by (auto simp: upd_def jbpf_bpf_hashmap_update_elem_def Let_def split: option.splits)
      have room: "hm_contents ht hm k \<noteq> None \<or> card (dom (hm_contents ht hm)) < unat (hm_max_entries hm)"
        using False le by (auto simp: hm_contents_dom) (simp_all add: hm_contents_def)
      consider (ok) "r = ?m k" "ck_ht_get ht h = ?m(k \<mapsto> b)" | (fail) "r = Some b" "ck_ht_get ht h = ?m"
        using ht_set [OF spec set] by blast
      then show thesis
      proof cases
        case ok
        have cont: "hm_contents ht hm' = (hm_contents ht hm)(k \<mapsto> v)"
          if "hm_ht hm' = h" "hm_bufs hm' = ?bufs" for hm' :: "('a, 'b) jbpf_bpf_hashmap"
        proof
          fix k'
          show "hm_contents ht hm' k' = ((hm_contents ht hm)(k \<mapsto> v)) k'"
            using that ok(2) nb [of k'] by (cases "?m k'") (auto simp: hm_contents_def)
        qed
        have keys': "fst (?bufs b') = k'" if "ck_ht_get ht h k' = Some b'" for k' b'
          using that ok(2) keys nb by (auto split: if_splits)
        show thesis
        proof (cases "?m k")
          case None
          have "map_vals (ck_ht_get ht h) = add_mset b (map_vals ?m)"
            using ok(2) map_vals_insert [OF fin None] by simp
          moreover have "card (dom (ck_ht_get ht h)) \<le> unat (hm_max_entries hm)"
            using ok(2) None le False fin by (auto simp: card_insert_if domIff)
          ultimately have "hm_inv ht ck q cp L ?hm1"
            using spec unl 1(3) keys' cnt' by (simp add: hm_inv_def)
          then show thesis
            using upd ok None room lt 1(4) cont [of ?hm1]
            by (intro stored [of ?hm1]) (simp_all add: map_codes hm_capacity_def)
        next
          case (Some old)
          then have ne: "old \<noteq> b" using nb by auto
          let ?hm2 = "?hm1\<lparr>hm_deferred := old # hm_deferred hm\<rparr>"
          have "add_mset old (map_vals (ck_ht_get ht h)) = add_mset b (map_vals ?m)"
            using ok(2) map_vals_replace [OF fin Some] by simp
          then have H: "map_vals (ck_ht_get ht h) + mset (old # hm_deferred hm) + L = add_mset b ?H"
            by (simp add: union_mset_add_mset_left [symmetric] del: union_mset_add_mset_left)
          have "card (dom (ck_ht_get ht h)) \<le> unat (hm_max_entries hm)"
            using ok(2) Some le by (simp add: insert_absorb domI)
          then have "hm_inv ht ck q cp L ?hm2"
            using spec unl 1(3) keys' cnt' H by (intro hm_invI [where H = "add_mset b ?H"]) simp_all
          then show thesis
            using upd ok Some ne room lt 1(4) cont [of ?hm2]
            by (intro stored [of ?hm2]) (simp_all add: map_codes hm_capacity_def)
        qed
      next
        case fail
        have "b \<in># add_mset b ?H" by simp
        from free_data_holds [OF 1(3) this] obtain mp2 where mp2:
          "jbpf_free_data_mem ck mp' (Some b) = Some mp2" "mpool.holds ck q cp (ctx_mempool mp2) ?H"
          "num_elems (ctx_mempool mp2) = num_elems (ctx_mempool mp')" by auto
        let ?hm2 = "?hm1\<lparr>hm_mempool := mp2\<rparr>"
        have keys': "fst (?bufs b') = k'" if "ck_ht_get ht h k' = Some b'" for k' b'
          using that fail(2) keys nb by (auto split: if_splits)
        have "hm_inv ht ck q cp L ?hm2"
          using spec unl mp2(2) keys' one fail(2) le by (intro hm_invI [where H = ?H]) simp_all
        moreover have "hm_contents ht ?hm2 = hm_contents ht hm"
          using fail(2) nb by (auto simp: hm_contents_def fun_eq_iff intro!: option.map_cong)
        moreover have "fst (ck_ht_set ht (hm_ht hm) k b) \<noteq> ?m k" using set fail(1) nb [of k] by simp
        ultimately show thesis
          using upd fail(1) mp2 room lt 1(4)
          by (intro stored [of ?hm2]) (auto simp: map_codes hm_capacity_def)
      qed
    qed
  qed
qed

lemma delete_spec:
  assumes inv: "hm_inv ht ck q cp L hm" and k: "length k = unat (hm_key_size hm)"
  shows "\<exists>hm'. jbpf_bpf_hashmap_delete_elem ht hm k
      = (if hm_contents ht hm k = None then JBPF_MAP_ERROR else JBPF_MAP_SUCCESS, hm')
    \<and> hm_inv ht ck q cp L hm' \<and> hm_contents ht hm' = (hm_contents ht hm)(k := None)
    \<and> hm_capacity hm' = hm_capacity hm \<and> hm_key_size hm' = hm_key_size hm
    \<and> hm_value_size hm' = hm_value_size hm \<and> hm_max_entries hm' = hm_max_entries hm"
proof -
  let ?m = "ck_ht_get ht (hm_ht hm)"
  let ?H = "map_vals ?m + mset (hm_deferred hm) + L"
  have spec: "ck_ht_spec ht" and unl: "\<not> hm_locked hm" and le: "card (dom ?m) \<le> unat (hm_max_entries hm)"
    and holds: "mpool.holds ck q cp (ctx_mempool (hm_mempool hm)) ?H"
    and keys: "\<And>k b. ?m k = Some b \<Longrightarrow> fst (hm_bufs hm b) = k" and one: "\<And>b. count ?H b \<le> 1"
    using inv by (auto simp: hm_inv_def)
  have fin: "finite (dom ?m)" by (rule ht_finite [OF spec])
  obtain r h where rem: "ck_ht_remove ht (hm_ht hm) k = (r, h)" by (cases "ck_ht_remove ht (hm_ht hm) k")
  then have h: "r = ?m k" "ck_ht_get ht h = ?m(k := None)" using ht_remove [OF spec rem] by auto
  have cont: "hm_contents ht hm' = (hm_contents ht hm)(k := None)"
    if "hm_ht hm' = h" "hm_bufs hm' = hm_bufs hm" for hm' :: "('a, 'b) jbpf_bpf_hashmap"
    using that h(2) by (auto simp: hm_contents_def)
  have card: "card (dom (ck_ht_get ht h)) \<le> unat (hm_max_entries hm)"
    using le h(2) fin card_Diff1_le [of "dom ?m" k] by simp
  have keys': "\<And>k' b. ck_ht_get ht h k' = Some b \<Longrightarrow> fst (hm_bufs hm b) = k'"
    using keys h(2) by (auto split: if_splits)
  show ?thesis
  proof (cases "?m k")
    case None
    then have "ck_ht_get ht h = ?m" using h(2) by auto
    then have "hm_inv ht ck q cp L (hm\<lparr>hm_ht := h\<rparr>)"
      using spec unl holds one le keys by (intro hm_invI [where H = ?H]) simp_all
    then show ?thesis
      using rem h None unl k cont [of "hm\<lparr>hm_ht := h\<rparr>"]
      by (simp add: jbpf_bpf_hashmap_delete_elem_def hm_capacity_def hm_contents_def)
  next
    case (Some b)
    let ?hm = "hm\<lparr>hm_ht := h, hm_deferred := b # hm_deferred hm\<rparr>"
    have "?H = map_vals (ck_ht_get ht h) + mset (b # hm_deferred hm) + L"
      using map_vals_remove [OF fin Some] h(2) by simp
    then have "hm_inv ht ck q cp L ?hm"
      using spec unl holds one card keys' by (intro hm_invI [where H = ?H]) simp_all
    then show ?thesis
      using rem h Some unl k cont [of ?hm]
      by (simp add: jbpf_bpf_hashmap_delete_elem_def hm_capacity_def hm_contents_def)
  qed
qed

lemma clear_entries_spec:
  assumes "hm_inv ht ck q cp L hm" "distinct (map fst es)"
    "\<And>k b. (k, b) \<in> set es \<Longrightarrow> ck_ht_get ht (hm_ht hm) k = Some b"
  defines "hm' \<equiv> clear_entries ht es hm"
  shows "hm_inv ht ck q cp L hm' \<and> ck_ht_get ht (hm_ht hm') = (ck_ht_get ht (hm_ht hm)) |` (- fst ` set es)
    \<and> hm_capacity hm' = hm_capacity hm \<and> hm_key_size hm' = hm_key_size hm
    \<and> hm_value_size hm' = hm_value_size hm \<and> hm_max_entries hm' = hm_max_entries hm"
  using assms(1-3) unfolding hm'_def
proof (induction es arbitrary: hm)
  case Nil
  then show ?case by (simp add: restrict_map_def fun_eq_iff)
next
  case (Cons e es)
  obtain k b where e: "e = (k, b)" by (cases e)
  let ?m = "ck_ht_get ht (hm_ht hm)"
  let ?hm = "hm\<lparr>hm_deferred := b # hm_deferred hm, hm_ht := snd (ck_ht_remove ht (hm_ht hm) k)\<rparr>"
  have spec: "ck_ht_spec ht" using Cons.prems(1) by (simp add: hm_inv_def)
  have kb: "?m k = Some b" using Cons.prems(3) e by simp
  have get: "ck_ht_get ht (snd (ck_ht_remove ht (hm_ht hm) k)) = ?m(k := None)"
    using ht_remove [OF spec] by (metis prod.collapse)
  have fin: "finite (dom ?m)" by (rule ht_finite [OF spec])
  let ?H = "map_vals ?m + mset (hm_deferred hm) + L"
  have "hm_inv ht ck q cp L ?hm"
  proof (rule hm_invI [where H = ?H])
    show "card (dom (ck_ht_get ht (hm_ht ?hm))) \<le> unat (hm_max_entries ?hm)"
      using Cons.prems(1) get fin card_Diff1_le [of "dom ?m" k] by (simp add: hm_inv_def)
    show "?H = map_vals (ck_ht_get ht (hm_ht ?hm)) + mset (hm_deferred ?hm) + L"
      using map_vals_remove [OF fin kb] get by simp
    show "fst (hm_bufs ?hm c) = k'" if "ck_ht_get ht (hm_ht ?hm) k' = Some c" for k' c
      using that get Cons.prems(1) by (auto simp: hm_inv_def split: if_splits)
  qed (use Cons.prems(1) in \<open>auto simp: hm_inv_def\<close>)
  moreover have "ck_ht_get ht (hm_ht ?hm) k' = Some c" if "(k', c) \<in> set es" for k' c
    using that Cons.prems(2,3) e get by (auto simp: image_iff)
  ultimately show ?case
    using Cons.IH [of ?hm] Cons.prems(2) e get
    by (auto simp: hm_capacity_def restrict_map_def fun_eq_iff)
qed

lemma clear_spec:
  assumes inv: "hm_inv ht ck q cp L hm"
  shows "\<exists>hm'. jbpf_bpf_hashmap_clear ht hm = (JBPF_MAP_SUCCESS, hm') \<and> hm_inv ht ck q cp L hm'
    \<and> hm_contents ht hm' = Map.empty \<and> hm_capacity hm' = hm_capacity hm \<and> hm_key_size hm' = hm_key_size hm
    \<and> hm_value_size hm' = hm_value_size hm \<and> hm_max_entries hm' = hm_max_entries hm"
proof -
  let ?es = "ck_ht_entries ht (hm_ht hm)" and ?hm = "clear_entries ht (ck_ht_entries ht (hm_ht hm)) hm"
  have spec: "ck_ht_spec ht" using inv by (simp add: hm_inv_def)
  note es = ht_entries [OF spec, of "hm_ht hm"]
  have "ck_ht_get ht (hm_ht hm) k = Some b" if "(k, b) \<in> set ?es" for k b
    using that es by (metis map_of_is_SomeI)
  from clear_entries_spec [OF inv es(1) this]
  have c: "hm_inv ht ck q cp L ?hm" "ck_ht_get ht (hm_ht ?hm) = (ck_ht_get ht (hm_ht hm)) |` (- fst ` set ?es)"
    "hm_capacity ?hm = hm_capacity hm" "hm_key_size ?hm = hm_key_size hm"
    "hm_value_size ?hm = hm_value_size hm" "hm_max_entries ?hm = hm_max_entries hm" by blast+
  have "fst ` set ?es = dom (ck_ht_get ht (hm_ht hm))"
    using es(2) by (metis dom_map_of_conv_image_fst)
  then have "hm_contents ht ?hm = Map.empty"
    using c(2) by (auto simp: hm_contents_def restrict_map_def fun_eq_iff)
  then show ?thesis
    using c inv by (simp add: jbpf_bpf_hashmap_clear_def hm_inv_def)
qed

lemma epoch_reclaim_spec:
  assumes inv: "hm_inv ht ck q cp L hm"
  shows "\<exists>hm'. epoch_reclaim ck hm = Some hm' \<and> hm_inv ht ck q cp L hm'
    \<and> hm_contents ht hm' = hm_contents ht hm \<and> hm_deferred hm' = [] \<and> hm_capacity hm' = hm_capacity hm
    \<and> hm_key_size hm' = hm_key_size hm \<and> hm_value_size hm' = hm_value_size hm \<and> hm_max_entries hm' = hm_max_entries hm"
proof -
  let ?V = "map_vals (ck_ht_get ht (hm_ht hm))"
  have "mpool.holds ck q cp (ctx_mempool (hm_mempool hm)) (mset (hm_deferred hm) + (?V + L))"
    using inv by (simp add: hm_inv_def ac_simps)
  from reclaim_holds [OF this] obtain mp where mp: "reclaim ck (hm_deferred hm) (hm_mempool hm) = Some mp"
    "mpool.holds ck q cp (ctx_mempool mp) (?V + L)" "num_elems (ctx_mempool mp) = num_elems (ctx_mempool (hm_mempool hm))"
    by blast
  have "count (?V + L) b \<le> 1" for b
  proof -
    have "count (?V + mset (hm_deferred hm) + L) b \<le> 1" using inv unfolding hm_inv_def by blast
    then show ?thesis by simp
  qed
  then have "hm_inv ht ck q cp L (hm\<lparr>hm_mempool := mp, hm_deferred := []\<rparr>)"
    using inv mp by (intro hm_invI [where H = "?V + L"]) (auto simp: hm_inv_def)
  then show ?thesis
    using mp by (auto simp: epoch_reclaim_def hm_contents_def hm_capacity_def fun_eq_iff)
qed

section \<open>Histories\<close>

datatype hm_op = Hm_Update bytes bytes | Hm_Delete bytes | Hm_Clear | Hm_Reclaim

fun hm_exec ::
  "(bytes, nat, 'h) ck_ht_ops \<Rightarrow> 'r ck_ring_ops \<Rightarrow> hm_op \<Rightarrow> ('h, 'r) jbpf_bpf_hashmap
    \<Rightarrow> (int \<times> ('h, 'r) jbpf_bpf_hashmap) option" where
  "hm_exec ht ck (Hm_Update k v) hm = jbpf_bpf_hashmap_update_elem ht ck hm k v 0"
| "hm_exec ht ck (Hm_Delete k) hm = Some (jbpf_bpf_hashmap_delete_elem ht hm k)"
| "hm_exec ht ck Hm_Clear hm = Some (jbpf_bpf_hashmap_clear ht hm)"
| "hm_exec ht ck Hm_Reclaim hm = map_option (Pair 0) (epoch_reclaim ck hm)"

fun hm_run ::
  "(bytes, nat, 'h) ck_ht_ops \<Rightarrow> 'r ck_ring_ops \<Rightarrow> hm_op list \<Rightarrow> ('h, 'r) jbpf_bpf_hashmap
    \<Rightarrow> (int list \<times> ('h, 'r) jbpf_bpf_hashmap) option" where
  "hm_run ht ck [] hm = Some ([], hm)"
| "hm_run ht ck (p # ps) hm = do {
     (r, hm) \<leftarrow> hm_exec ht ck p hm;
     (rs, hm) \<leftarrow> hm_run ht ck ps hm;
     Some (r # rs, hm)
   }"

text \<open>What an operation and the code it returned mean for the contents, and the sizes a client uses.\<close>

fun hm_abs :: "hm_op \<times> int \<Rightarrow> contents \<Rightarrow> contents" where
  "hm_abs (Hm_Update k v, r) m = (if r = JBPF_MAP_SUCCESS then m(k \<mapsto> v) else m)"
| "hm_abs (Hm_Delete k, r) m = m(k := None)"
| "hm_abs (Hm_Clear, r) m = Map.empty"
| "hm_abs (Hm_Reclaim, r) m = m"

fun hm_op_ok :: "u32 \<Rightarrow> u32 \<Rightarrow> hm_op \<Rightarrow> bool" where
  "hm_op_ok ks vs (Hm_Update k v) = (length k = unat ks \<and> length v = unat vs)"
| "hm_op_ok ks vs (Hm_Delete k) = (length k = unat ks)"
| "hm_op_ok ks vs p = True"

lemma hm_exec_ok:
  assumes inv: "hm_inv ht ck q cp L hm" and ok: "hm_op_ok (hm_key_size hm) (hm_value_size hm) p"
    and set: "\<And>h k v. fst (ck_ht_set ht h k v) = ck_ht_get ht h k"
  shows "\<exists>r hm' L'. hm_exec ht ck p hm = Some (r, hm') \<and> hm_inv ht ck q cp L' hm'
    \<and> hm_contents ht hm' = hm_abs (p, r) (hm_contents ht hm)
    \<and> size L' = size L + (if r = JBPF_MAP_FULL then 1 else 0)
    \<and> hm_capacity hm' = hm_capacity hm \<and> hm_key_size hm' = hm_key_size hm
    \<and> hm_value_size hm' = hm_value_size hm \<and> hm_max_entries hm' = hm_max_entries hm"
proof (cases p)
  case (Hm_Update k v)
  then have kv: "length k = unat (hm_key_size hm)" "length v = unat (hm_value_size hm)" using ok by auto
  show ?thesis
  proof (cases rule: update_cases [OF inv kv, of 0])
    case (1 hm')
    then show ?thesis using Hm_Update by (auto simp: map_codes)
  next
    case (2 b hm')
    then show ?thesis using Hm_Update by (intro exI [of _ JBPF_MAP_FULL] exI [of _ hm'] exI [of _ "add_mset b L"]) (auto simp: map_codes)
  next
    case (3 hm')
    then show ?thesis using Hm_Update set by (auto simp: map_codes)
  qed
next
  case (Hm_Delete k)
  then show ?thesis using delete_spec [OF inv, of k] ok by (fastforce simp: map_codes)
next
  case Hm_Clear
  then show ?thesis using clear_spec [OF inv] by (fastforce simp: map_codes)
next
  case Hm_Reclaim
  then show ?thesis using epoch_reclaim_spec [OF inv] by (fastforce simp: map_codes)
qed

lemma hm_run_ok:
  assumes "hm_inv ht ck q cp L hm" "list_all (hm_op_ok (hm_key_size hm) (hm_value_size hm)) ps"
    and set: "\<And>h k v. fst (ck_ht_set ht h k v) = ck_ht_get ht h k"
  shows "\<exists>rs hm' L'. hm_run ht ck ps hm = Some (rs, hm') \<and> hm_inv ht ck q cp L' hm'
    \<and> hm_contents ht hm' = fold hm_abs (zip ps rs) (hm_contents ht hm)
    \<and> size L' = size L + count_list rs JBPF_MAP_FULL \<and> hm_capacity hm' = hm_capacity hm
    \<and> hm_max_entries hm' = hm_max_entries hm \<and> hm_key_size hm' = hm_key_size hm
    \<and> hm_value_size hm' = hm_value_size hm"
  using assms(1,2)
proof (induction ps arbitrary: hm L)
  case (Cons p ps)
  obtain r hm1 L1 where 1: "hm_exec ht ck p hm = Some (r, hm1)" "hm_inv ht ck q cp L1 hm1"
    "hm_contents ht hm1 = hm_abs (p, r) (hm_contents ht hm)"
    "size L1 = size L + (if r = JBPF_MAP_FULL then 1 else 0)" "hm_capacity hm1 = hm_capacity hm"
    "hm_key_size hm1 = hm_key_size hm" "hm_value_size hm1 = hm_value_size hm" "hm_max_entries hm1 = hm_max_entries hm"
    using hm_exec_ok [OF Cons.prems(1) _ set, of p] Cons.prems(2) by auto
  obtain rs hm2 L2 where "hm_run ht ck ps hm1 = Some (rs, hm2)" "hm_inv ht ck q cp L2 hm2"
    "hm_contents ht hm2 = fold hm_abs (zip ps rs) (hm_contents ht hm1)"
    "size L2 = size L1 + count_list rs JBPF_MAP_FULL" "hm_capacity hm2 = hm_capacity hm1"
    "hm_max_entries hm2 = hm_max_entries hm1" "hm_key_size hm2 = hm_key_size hm1"
    "hm_value_size hm2 = hm_value_size hm1"
    using Cons.IH [OF 1(2)] Cons.prems(2) 1(6,7) by auto
  then show ?case using 1 by (intro exI [of _ "r # rs"] exI [of _ hm2] exI [of _ L2]) auto
qed auto

lemma hashmap_create_inv:
  assumes "ck_ht_spec ht" "ck_ring_spec ck q cp" "unat (md_max_entries md) < 2 ^ 29"
    "jbpf_bpf_hashmap_create ht ck ok1 ok2 alloc_ok md = Some hm"
  shows "hm_inv ht ck q cp {#} hm \<and> hm_contents ht hm = Map.empty \<and> hm_deferred hm = []
    \<and> 2 * unat (md_max_entries md) \<le> hm_capacity hm \<and> hm_key_size hm = md_key_size md
    \<and> hm_value_size hm = md_value_size md \<and> hm_max_entries hm = md_max_entries md"
proof -
  obtain h mp where hm: "ck_ht_init ht (unat (md_max_entries md)) = Some h"
    "jbpf_init_data_mempool ck ok2 alloc_ok (md_max_entries md * 2)
      (sizeof_epoch_entry + ucast (md_key_size md) + ucast (md_value_size md)) = Some mp"
    "hm = \<lparr> hm_key_size = md_key_size md, hm_value_size = md_value_size md,
             hm_max_entries = md_max_entries md, hm_ht = h, hm_mempool = mp, hm_locked = False,
             hm_bufs = (\<lambda>_. ([], [])), hm_deferred = [] \<rparr>"
    using assms(4) by (auto simp: jbpf_bpf_hashmap_create_def split: if_splits option.splits)
  have n: "unat (md_max_entries md * 2) = 2 * unat (md_max_entries md)"
    using assms(3) by (simp add: unat_word_ariths)
  obtain bs where "jbpf_init_mempool_ctx ck alloc_ok False (md_max_entries md * 2)
      (sizeof_epoch_entry + ucast (md_key_size md) + ucast (md_value_size md)) 0 = (Some (ctx_mempool mp), bs)"
    using hm(2) by (auto simp: jbpf_init_data_mempool_def jbpf_init_mempool_def split: if_splits option.splits)
      (metis prod.collapse)
  from init_mempool_alloc [OF assms(2) _ this]
  have mp: "mp_live ck q cp (ctx_mempool mp) \<and> mp_refs q (ctx_mempool mp) = (\<lambda>_. 0)
    \<and> unat (md_max_entries md * 2) \<le> num_elems (ctx_mempool mp)"
    using n assms(3) by simp
  then have "mpool.holds ck q cp (ctx_mempool mp) {#}"
    by (simp add: mpool.holds_def)
  then have "hm_inv ht ck q cp {#} hm"
    using hm ht_init [OF assms(1) hm(1)] assms(1) by (simp add: hm_inv_def)
  then show ?thesis
    using hm ht_init [OF assms(1) hm(1)] mp n by (simp add: hm_contents_def hm_capacity_def fun_eq_iff)
qed

text \<open>The buffers that are free.\<close>

lemma hm_free_count:
  assumes "hm_inv ht ck q cp L hm"
  shows "ck_ring_size ck (ring (ctx_mempool (hm_mempool hm))) + card (dom (hm_contents ht hm))
    + length (hm_deferred hm) + size L = hm_capacity hm"
proof -
  let ?mp = "ctx_mempool (hm_mempool hm)"
  let ?H = "map_vals (ck_ht_get ht (hm_ht hm)) + mset (hm_deferred hm) + L"
  have spec: "ck_ht_spec ht" and holds: "mpool.holds ck q cp ?mp ?H" and one: "\<And>b. count ?H b \<le> 1"
    using assms by (auto simp: hm_inv_def)
  have live: "mp_inv ck q cp ?mp" "ring_alloc ?mp = Ring" "\<And>b. mp_refs q ?mp b = count ?H b"
    using holds by (auto simp: mpool.holds_def mp_live_def)
  have below: "set_mset ?H \<subseteq> {..<num_elems ?mp}"
    using mpool.holds_below [OF holds] by blast
  have "{b. b < num_elems ?mp \<and> mp_refs q ?mp b = 0} = {..<num_elems ?mp} - set_mset ?H"
    using live(3) by (auto simp: count_eq_zero_iff)
  then have "length (q (ring ?mp)) = num_elems ?mp - card (set_mset ?H)"
    using mp_free_count [OF live(1)] live(2) below by (simp add: card_Diff_subset)
  moreover have "card (set_mset ?H) \<le> num_elems ?mp"
    using card_mono [OF _ below] by simp
  moreover have "size ?H = card (dom (hm_contents ht hm)) + length (hm_deferred hm) + size L"
    using size_map_vals [OF ht_finite [OF spec]] by (simp add: hm_contents_dom)
  ultimately show ?thesis
    using card_set_mset [OF one] ring_size [OF mp_inv_ring [OF live(1)]] by (simp add: hm_capacity_def)
qed

text \<open>An update of an absent key of a full map, while a buffer is free, returns \<open>JBPF_MAP_FULL\<close> and
  loses the buffer it allocated.\<close>

lemma full_updates:
  assumes "hm_inv ht ck q cp L hm" "length k = unat (hm_key_size hm)" "length v = unat (hm_value_size hm)"
    "hm_contents ht hm k = None" "card (dom (hm_contents ht hm)) = unat (hm_max_entries hm)"
    "n + card (dom (hm_contents ht hm)) + length (hm_deferred hm) + size L \<le> hm_capacity hm"
  shows "\<exists>hm' L'. hm_run ht ck (replicate n (Hm_Update k v)) hm = Some (replicate n JBPF_MAP_FULL, hm')
    \<and> hm_inv ht ck q cp L' hm' \<and> size L' = n + size L \<and> hm_contents ht hm' = hm_contents ht hm
    \<and> hm_deferred hm' = hm_deferred hm \<and> hm_capacity hm' = hm_capacity hm
    \<and> hm_key_size hm' = hm_key_size hm \<and> hm_value_size hm' = hm_value_size hm"
  using assms
proof (induction n arbitrary: hm L)
  case (Suc n)
  show ?case
  proof (cases rule: update_cases [OF Suc.prems(1-3), of 0])
    case (2 b hm1)
    then have "\<exists>hm' L'. hm_run ht ck (replicate n (Hm_Update k v)) hm1 = Some (replicate n JBPF_MAP_FULL, hm')
      \<and> hm_inv ht ck q cp L' hm' \<and> size L' = n + size (add_mset b L) \<and> hm_contents ht hm' = hm_contents ht hm1
      \<and> hm_deferred hm' = hm_deferred hm1 \<and> hm_capacity hm' = hm_capacity hm1
      \<and> hm_key_size hm' = hm_key_size hm1 \<and> hm_value_size hm' = hm_value_size hm1"
      using Suc.prems by (intro Suc.IH) simp_all
    then show ?thesis using 2 by auto
  qed (use Suc.prems in \<open>auto simp: map_codes\<close>)
qed auto

lemma exhausted_update:
  assumes "hm_inv ht ck q cp L hm" "length k = unat (hm_key_size hm)" "length v = unat (hm_value_size hm)"
    "card (dom (hm_contents ht hm)) + length (hm_deferred hm) + size L = hm_capacity hm"
  obtains hm' where "jbpf_bpf_hashmap_update_elem ht ck hm k v fl = Some (JBPF_MAP_ERROR, hm')"
    "hm_inv ht ck q cp L hm'" "hm_contents ht hm' = hm_contents ht hm" "hm_deferred hm' = hm_deferred hm"
    "hm_capacity hm' = hm_capacity hm" "hm_key_size hm' = hm_key_size hm" "hm_value_size hm' = hm_value_size hm"
proof -
  show thesis
    by (cases rule: update_cases [OF assms(1-3), of fl]) (use assms(4) that in auto)
qed

lemma hm_run_append:
  assumes "hm_run ht ck ps hm = Some (rs, hm1)"
  shows "hm_run ht ck (ps @ ps') hm = map_option (\<lambda>(rs', hm2). (rs @ rs', hm2)) (hm_run ht ck ps' hm1)"
  using assms
proof (induction ps arbitrary: hm rs)
  case (Cons p ps)
  then obtain r hm2 rs2 where h: "hm_exec ht ck p hm = Some (r, hm2)" "hm_run ht ck ps hm2 = Some (rs2, hm1)"
    "rs = r # rs2"
    by (auto split: bind_splits)
  show ?case using Cons.IH [OF h(2)] h by (cases "hm_run ht ck ps' hm1") auto
qed (auto simp: option.map_id)


definition wit_hm :: jbpf_load_map_def where
  "wit_hm = \<lparr> md_type = 1, md_key_size = 1, md_value_size = 1, md_max_entries = 1 \<rparr>"

lemma wit_hm_create:
  "\<exists>hm. jbpf_bpf_hashmap_create alist_ht list_ring True True (\<lambda>_ _. True) wit_hm = Some hm"
proof -
  obtain mp bs where "jbpf_init_mempool_ctx list_ring (\<lambda>_ _. True) False 2 18 0 = (Some mp, bs)"
    using init_mempool_spec [OF list_ring_spec, of 2 "\<lambda>_ _. True" False 18 0] by auto
  then show ?thesis
    by (simp add: jbpf_bpf_hashmap_create_def wit_hm_def alist_ht_def jbpf_init_data_mempool_def
        jbpf_init_mempool_def sizeof_epoch_entry_def)
qed


text \<open>C24: Updates refused with \<open>JBPF_MAP_FULL\<close> use up the pool: once a map is full, as many updates of an
  absent key as there are free buffers all return \<open>JBPF_MAP_FULL\<close>, and after them every update, also of
  a key that is in the map, returns \<open>JBPF_MAP_ERROR\<close>, and still does after the epoch mechanism has run.\<close>

theorem hashmap_full_updates_leak:
  assumes "ck_ht_spec ht" and "ck_ring_spec ck q cp"
    and "\<And>h k v. fst (ck_ht_set ht h k v) = ck_ht_get ht h k"
    and "unat (md_max_entries md) < 2 ^ 29"
    and "jbpf_bpf_hashmap_create ht ck ok1 ok2 alloc_ok md = Some hm0"
    and "list_all (hm_op_ok (md_key_size md) (md_value_size md)) (Hm_Update k v # ps)"
    and "hm_run ht ck ps hm0 = Some (rs, hm)"
    and "hm_deferred hm = []" and "jbpf_bpf_hashmap_lookup_elem ht hm k = None"
    and "ck_ht_count ht (hm_ht hm) = unat (md_max_entries md)"
    and "length k' = unat (md_key_size md)" and "length v' = unat (md_value_size md)"
  defines "n \<equiv> ck_ring_size ck (ring (ctx_mempool (hm_mempool hm)))"
  shows "\<exists>hm'. hm_run ht ck (replicate n (Hm_Update k v) @ [Hm_Update k' v', Hm_Reclaim, Hm_Update k' v']) hm
    = Some (replicate n JBPF_MAP_FULL @ [JBPF_MAP_ERROR, 0, JBPF_MAP_ERROR], hm')"
proof -
  have hm0: "hm_inv ht ck q cp {#} hm0" "hm_key_size hm0 = md_key_size md" "hm_value_size hm0 = md_value_size md"
    "hm_max_entries hm0 = md_max_entries md"
    using hashmap_create_inv [OF assms(1,2,4,5)] by auto
  obtain L where L: "hm_inv ht ck q cp L hm" "hm_key_size hm = md_key_size md" "hm_value_size hm = md_value_size md"
    "hm_max_entries hm = md_max_entries md"
    using hm_run_ok [OF hm0(1) _ assms(3), of ps] assms(6,7) hm0 by auto
  have full: "card (dom (hm_contents ht hm)) = unat (hm_max_entries hm)"
    using assms(10) L(4) ht_count [OF assms(1)] by (simp add: hm_contents_dom)
  have absent: "hm_contents ht hm k = None"
    using assms(6,9) L(2) by (simp add: hm_contents_def jbpf_bpf_hashmap_lookup_elem_def)
  have cap: "n + card (dom (hm_contents ht hm)) + size L = hm_capacity hm"
    using hm_free_count [OF L(1)] assms(8) by (simp add: n_def)
  obtain hm1 L1 where run: "hm_run ht ck (replicate n (Hm_Update k v)) hm = Some (replicate n JBPF_MAP_FULL, hm1)"
    and 1: "hm_inv ht ck q cp L1 hm1" "size L1 = n + size L" "hm_contents ht hm1 = hm_contents ht hm"
    "hm_deferred hm1 = []" "hm_capacity hm1 = hm_capacity hm" "hm_key_size hm1 = md_key_size md"
    "hm_value_size hm1 = md_value_size md"
    using full_updates [OF L(1) _ _ absent full, of v n] assms(6,8) L cap by auto
  obtain hm2 where 2: "jbpf_bpf_hashmap_update_elem ht ck hm1 k' v' 0 = Some (JBPF_MAP_ERROR, hm2)"
    "hm_inv ht ck q cp L1 hm2" "hm_contents ht hm2 = hm_contents ht hm" "hm_deferred hm2 = []"
    "hm_capacity hm2 = hm_capacity hm" "hm_key_size hm2 = md_key_size md" "hm_value_size hm2 = md_value_size md"
    by (rule exhausted_update [OF 1(1), of k' v']) (use 1 cap assms(11,12) in simp_all)
  have rec: "epoch_reclaim ck hm2 = Some hm2"
    using 2(4) by (simp add: epoch_reclaim_def)
  obtain hm3 where "jbpf_bpf_hashmap_update_elem ht ck hm2 k' v' 0 = Some (JBPF_MAP_ERROR, hm3)"
    by (rule exhausted_update [OF 2(2), of k' v']) (use 2 1(2) cap assms(11,12) in simp_all)
  then have "hm_run ht ck [Hm_Update k' v', Hm_Reclaim, Hm_Update k' v'] hm1
      = Some ([JBPF_MAP_ERROR, 0, JBPF_MAP_ERROR], hm3)"
    using 2(1) rec by simp
  then show ?thesis using hm_run_append [OF run] by auto
qed

theorem hashmap_full_updates_leak_witness:
  "\<exists>hm0 hm hm'. jbpf_bpf_hashmap_create alist_ht list_ring True True (\<lambda>_ _. True) wit_hm = Some hm0
    \<and> hm_run alist_ht list_ring [Hm_Update [1] [7]] hm0 = Some ([0], hm)
    \<and> hm_run alist_ht list_ring (replicate 2 (Hm_Update [2] [8]) @ [Hm_Update [1] [9], Hm_Reclaim, Hm_Update [1] [9]]) hm
      = Some (replicate 2 JBPF_MAP_FULL @ [JBPF_MAP_ERROR, 0, JBPF_MAP_ERROR], hm')"
proof -
  obtain hm0 where c: "jbpf_bpf_hashmap_create alist_ht list_ring True True (\<lambda>_ _. True) wit_hm = Some hm0"
    using wit_hm_create by blast
  have n: "mempool_num_elems 2 = 3"
    by (simp add: mempool_num_elems_def round_up_pow_of_two_def Let_def c_int_id)
  have r: "enqueue_mbufs list_ring 0 3 (ck_ring_init list_ring 4) = Some ([0, 1, 2], 3)"
    by (simp add: enqueue_mbufs.simps list_ring_def)
  have hm0: "mbufs (ctx_mempool (hm_mempool hm0)) = replicate 4 mbuf_zero"
      "ring (ctx_mempool (hm_mempool hm0)) = ([0, 1, 2], 3)" "ring_alloc (ctx_mempool (hm_mempool hm0)) = Ring"
      "hm_ht hm0 = []" "hm_key_size hm0 = 1" "hm_value_size hm0 = 1" "hm_max_entries hm0 = 1"
      "\<not> hm_locked hm0" "hm_deferred hm0 = []" "\<not> mp_freed (ctx_mempool (hm_mempool hm0))"
    using c r by (auto simp: jbpf_bpf_hashmap_create_def wit_hm_def alist_ht_def jbpf_init_data_mempool_def
        jbpf_init_mempool_def sizeof_epoch_entry_def jbpf_init_mempool_ctx_def Let_def n c_u32_id)
  have "\<exists>hm. hm_run alist_ht list_ring [Hm_Update [1] [7]] hm0 = Some ([0], hm)
    \<and> hm_ht hm = [([1], 0)] \<and> hm_deferred hm = [] \<and> ring (ctx_mempool (hm_mempool hm)) = ([1, 2], 3)
    \<and> hm_key_size hm = 1"
    by (simp add: hm0 jbpf_bpf_hashmap_update_elem_def jbpf_alloc_data_mem_def jbpf_mbuf_alloc_def sel_ring_def
        upd_ring_def list_ring_def alist_ht_def mbuf_zero_def ck_ht_count_def Let_def)
  then obtain hm where run: "hm_run alist_ht list_ring [Hm_Update [1] [7]] hm0 = Some ([0], hm)"
    and hm: "hm_ht hm = [([1], 0)]" "hm_deferred hm = []" "ring (ctx_mempool (hm_mempool hm)) = ([1, 2], 3)"
      "hm_key_size hm = 1"
    by blast
  have set: "\<And>h k v. fst (ck_ht_set alist_ht h k v) = ck_ht_get alist_ht h k"
    by (simp add: alist_ht_def)
  have n: "ck_ring_size list_ring (ring (ctx_mempool (hm_mempool hm))) = 2"
    by (simp add: hm list_ring_def)
  have "\<exists>hm'. hm_run alist_ht list_ring (replicate 2 (Hm_Update [2] [8]) @ [Hm_Update [1] [9], Hm_Reclaim, Hm_Update [1] [9]]) hm
      = Some (replicate 2 JBPF_MAP_FULL @ [JBPF_MAP_ERROR, 0, JBPF_MAP_ERROR], hm')"
    by (rule hashmap_full_updates_leak [OF alist_ht_spec list_ring_spec set _ c _ run, unfolded n])
      (simp_all add: hm wit_hm_def alist_ht_def jbpf_bpf_hashmap_lookup_elem_def ck_ht_count_def)
  then show ?thesis using c run by blast
qed



end
