(* ===== verification/Msg_Queue.thy ===== *)
theory Msg_Queue
  imports Prelude "HOL-Library.Multiset"
begin

text \<open>
  The contract of a queue of buffers with several producers: a thread reserves a buffer, writes into
  it and submits it; consumers receive buffers in order and release them.  The I/O queues of
  \<open>src/io/jbpf_io_queue.c\<close> provide it and the channels of \<open>src/io/jbpf_io_channel.c\<close> are clients.
\<close>

datatype 'p queue_op = Q_Send int 'p | Q_Receive | Q_Release nat

text \<open>What the operations and their codes say was sent.\<close>

fun sent_by :: "'p queue_op \<times> int \<Rightarrow> 'p list" where
  "sent_by (Q_Send t p, r) = (if r = 0 then [p] else [])"
| "sent_by (_, r) = []"

text \<open>\<open>invar H s\<close>: the queue is in a good state and the consumers hold the references \<open>H\<close>.  \<open>mine\<close> gives
  the buffer a thread has reserved, \<open>queued\<close> the buffers in the queue, and \<open>data\<close> what is in a buffer.\<close>

locale msg_queue =
  fixes invar :: "nat multiset \<Rightarrow> 's \<Rightarrow> bool"
    and threads :: nat
    and cap :: "'s \<Rightarrow> nat"
    and mine :: "'s \<Rightarrow> nat \<Rightarrow> nat option"
    and queued :: "'s \<Rightarrow> nat list"
    and data :: "'s \<Rightarrow> nat \<Rightarrow> 'd"
    and reserve :: "int \<Rightarrow> 's \<Rightarrow> (nat option \<times> 's) option"
    and store :: "nat \<Rightarrow> ('d \<Rightarrow> 'd) \<Rightarrow> 's \<Rightarrow> 's"
    and submit :: "int \<Rightarrow> 's \<Rightarrow> (int \<times> 's) option"
    and receive :: "'s \<Rightarrow> nat option \<times> 's"
    and release :: "nat \<Rightarrow> 's \<Rightarrow> 's option"
  assumes reserve_law: "invar H s \<Longrightarrow> t < int threads \<Longrightarrow>
      \<exists>x s'. reserve t s = Some (x, s') \<and> invar H s' \<and> queued s' = queued s \<and> data s' = data s \<and> cap s' = cap s
        \<and> (case x of
             None \<Rightarrow> mine s' = mine s \<and> (0 \<le> t \<longrightarrow> mine s (nat t) = None
               \<and> card ({b. \<exists>i. mine s i = Some b} \<union> set (queued s) \<union> set_mset H) = cap s)
           | Some b \<Rightarrow> 0 \<le> t \<and> mine s' = (mine s)(nat t \<mapsto> b) \<and> (mine s (nat t) = Some b
               \<or> mine s (nat t) = None \<and> card ({b. \<exists>i. mine s i = Some b} \<union> set (queued s) \<union> set_mset H) < cap s))"
    and store_law: "invar H s \<Longrightarrow> mine s i = Some b \<Longrightarrow>
      invar H (store b f s) \<and> cap (store b f s) = cap s \<and> mine (store b f s) = mine s \<and> queued (store b f s) = queued s
        \<and> data (store b f s) = (data s)(b := f (data s b))"
    and submit_law: "invar H s \<Longrightarrow> 0 \<le> t \<Longrightarrow> mine s (nat t) = Some b \<Longrightarrow>
      \<exists>s'. submit t s = Some (0, s') \<and> invar H s' \<and> queued s' = queued s @ [b]
        \<and> mine s' = (mine s)(nat t := None) \<and> data s' = data s \<and> cap s' = cap s"
    and receive_law: "invar H s \<Longrightarrow> \<exists>s'. mine s' = mine s \<and> data s' = data s \<and> cap s' = cap s
        \<and> (case queued s of [] \<Rightarrow> receive s = (None, s') \<and> queued s' = [] \<and> invar H s'
           | b # bs \<Rightarrow> receive s = (Some b, s') \<and> queued s' = bs \<and> invar (add_mset b H) s')"
    and release_law: "invar H s \<Longrightarrow> b \<in># H \<Longrightarrow>
      \<exists>s'. release b s = Some s' \<and> invar (H - {#b#}) s' \<and> queued s' = queued s \<and> mine s' = mine s \<and> data s' = data s
        \<and> cap s' = cap s"
    and own_law: "invar H s \<Longrightarrow> mine s i = Some b \<Longrightarrow> b \<notin> set (queued s) \<and> b \<notin># H"
    and queued_law: "invar H s \<Longrightarrow> b \<in> set (queued s) \<Longrightarrow> b \<notin># H"
begin

text \<open>A producer that reserves, writes and submits; \<open>-1\<close> if there is no buffer for it.\<close>

definition send :: "int \<Rightarrow> ('d \<Rightarrow> 'd) \<Rightarrow> 's \<Rightarrow> (int \<times> 's) option" where
  "send t f s = do {
     (x, s) \<leftarrow> reserve t s;
     (case x of None \<Rightarrow> Some (- 1, s) | Some b \<Rightarrow> submit t (store b f s))
   }"

text \<open>The messages in the queue, and what the consumers that hold \<open>H\<close> see, are the data of the buffers.\<close>

abbreviation msgs :: "'s \<Rightarrow> 'd list" where
  "msgs s \<equiv> map (data s) (queued s)"

text \<open>The buffers in use, when the consumers hold \<open>H\<close>.\<close>

definition in_use :: "nat multiset \<Rightarrow> 's \<Rightarrow> nat set" where
  "in_use H s = {b. \<exists>i. mine s i = Some b} \<union> set (queued s) \<union> set_mset H"

lemma send_spec:
  assumes inv: "invar H s" and t: "t < int threads"
  obtains (refused) s' where "send t f s = Some (- 1, s')" "invar H s'" "msgs s' = msgs s" "queued s' = queued s"
      "mine s' = mine s" "cap s' = cap s" "\<And>b. b \<in># H \<Longrightarrow> data s' b = data s b"
      "0 \<le> t \<Longrightarrow> mine s (nat t) = None \<and> card (in_use H s) = cap s"
  | (sent) s' b d where "send t f s = Some (0, s')" "invar H s'" "msgs s' = msgs s @ [f d]" "queued s' = queued s @ [b]"
      "0 \<le> t" "mine s' = (mine s)(nat t := None)" "cap s' = cap s" "\<And>b. b \<in># H \<Longrightarrow> data s' b = data s b"
      "data s' b = f d" "mine s (nat t) \<noteq> None \<or> card (in_use H s) < cap s"
proof -
  obtain x s1 where r: "reserve t s = Some (x, s1)" "invar H s1" "queued s1 = queued s" "data s1 = data s"
      "cap s1 = cap s" "case x of None \<Rightarrow> mine s1 = mine s \<and> (0 \<le> t \<longrightarrow> mine s (nat t) = None \<and> card (in_use H s) = cap s)
        | Some b \<Rightarrow> 0 \<le> t \<and> mine s1 = (mine s)(nat t \<mapsto> b) \<and> (mine s (nat t) = Some b
            \<or> mine s (nat t) = None \<and> card (in_use H s) < cap s)"
    using reserve_law [OF inv t] unfolding in_use_def by blast
  show thesis
  proof (cases x)
    case None
    then show thesis using refused [of s1] r by (simp add: send_def)
  next
    case (Some b)
    then have m: "0 \<le> t" "mine s1 (nat t) = Some b" "mine s1 = (mine s)(nat t \<mapsto> b)"
        "mine s (nat t) \<noteq> None \<or> card (in_use H s) < cap s" using r(6) by auto
    let ?s2 = "store b f s1"
    have s2: "invar H ?s2" "mine ?s2 = mine s1" "queued ?s2 = queued s1"
        "data ?s2 = (data s1)(b := f (data s1 b))" "cap ?s2 = cap s1"
      using store_law [OF r(2) m(2), of f] by blast+
    obtain s3 where s3: "submit t ?s2 = Some (0, s3)" "invar H s3" "queued s3 = queued ?s2 @ [b]"
        "mine s3 = (mine ?s2)(nat t := None)" "data s3 = data ?s2" "cap s3 = cap ?s2"
      using submit_law [OF s2(1) m(1), of b] s2(2) m(2) by auto
    have nb: "b \<notin> set (queued s)" "b \<notin># H" using own_law [OF r(2) m(2)] r(3) by auto
    show thesis
    proof (rule sent)
      show "send t f s = Some (0, s3)" using r(1) Some s3(1) by (simp add: send_def)
      show "queued s3 = queued s @ [b]" using s3(3) s2(3) r(3) by simp
      show "data s3 b = f (data s b)" using s3(5) s2(4) r(4) by simp
      show "msgs s3 = msgs s @ [f (data s b)]"
        using s3(3,5) s2(3,4) r(3,4) nb by auto
      show "data s3 c = data s c" if "c \<in># H" for c
        using that nb s3(5) s2(4) r(4) by auto
    qed (use s3 s2 r m in simp_all)
  qed
qed

lemma receive_spec:
  assumes "invar H s"
  obtains (empty) s' where "receive s = (None, s')" "queued s = []" "queued s' = []" "invar H s'" "data s' = data s"
      "mine s' = mine s" "cap s' = cap s"
  | (got) b s' where "receive s = (Some b, s')" "queued s = b # queued s'" "invar (add_mset b H) s'"
      "data s' = data s" "mine s' = mine s" "cap s' = cap s" "b \<notin># H"
proof -
  obtain s' where s': "mine s' = mine s" "data s' = data s" "cap s' = cap s"
      "case queued s of [] \<Rightarrow> receive s = (None, s') \<and> queued s' = [] \<and> invar H s'
       | b # bs \<Rightarrow> receive s = (Some b, s') \<and> queued s' = bs \<and> invar (add_mset b H) s'"
    using receive_law [OF assms] by blast
  show thesis
  proof (cases "queued s")
    case Nil
    then show thesis using s' empty [of s'] by simp
  next
    case (Cons b bs)
    then show thesis using s' got [of b s'] queued_law [OF assms, of b] by simp
  qed
qed

text \<open>Histories.  The consumers remember each message they received and have not released, with the
  data they saw; the log has the data of every message received.\<close>

fun exec :: "('d \<Rightarrow> 'd) queue_op \<Rightarrow> 's \<times> (nat \<times> 'd) list \<times> 'd list \<Rightarrow> (int \<times> 's \<times> (nat \<times> 'd) list \<times> 'd list) option"
where
  "exec (Q_Send t f) (s, held, log) = do {
     (r, s) \<leftarrow> send t f s;
     Some (r, s, held, log)
   }"
| "exec Q_Receive (s, held, log) =
    (case receive s of
       (None, s) \<Rightarrow> Some (0, s, held, log)
     | (Some b, s) \<Rightarrow> Some (1, s, (b, data s b) # held, log @ [data s b]))"
| "exec (Q_Release b) (s, held, log) =
    (case map_of held b of
       None \<Rightarrow> Some (0, s, held, log)
     | Some d \<Rightarrow> do {
         s \<leftarrow> release b s;
         Some (0, s, remove1 (b, d) held, log)
       })"

primrec exec_all :: "('d \<Rightarrow> 'd) queue_op list \<Rightarrow> 's \<times> (nat \<times> 'd) list \<times> 'd list
    \<Rightarrow> (int list \<times> 's \<times> (nat \<times> 'd) list \<times> 'd list) option"
where
  "exec_all [] st = Some ([], st)"
| "exec_all (p # ps) st = do {
     (r, st) \<leftarrow> exec p st;
     (rs, st) \<leftarrow> exec_all ps st;
     Some (r # rs, st)
   }"

text \<open>What holds of a history: the consumers hold what they have not released and see in it what they
  received, and what was received and what is queued is what was sent, in order.\<close>

definition history_ok :: "('d \<Rightarrow> 'd) list \<Rightarrow> 's \<times> (nat \<times> 'd) list \<times> 'd list \<Rightarrow> bool" where
  "history_ok sent st \<longleftrightarrow> (case st of (s, held, log) \<Rightarrow>
     invar (mset (map fst held)) s \<and> distinct (map fst held) \<and> (\<forall>(b, d) \<in> set held. data s b = d)
     \<and> list_all2 (\<lambda>f d. \<exists>d0. d = f d0) sent (log @ msgs s))"

lemma exec_ok:
  assumes ok: "history_ok sent st" and t: "\<And>t f. p = Q_Send t f \<Longrightarrow> t < int threads"
  shows "\<exists>r st'. exec p st = Some (r, st') \<and> history_ok (sent @ sent_by (p, r)) st'"
proof -
  obtain s held log where st: "st = (s, held, log)" by (cases st)
  have inv: "invar (mset (map fst held)) s" and dist: "distinct (map fst held)"
    and data: "\<And>b d. (b, d) \<in> set held \<Longrightarrow> data s b = d"
    and all: "list_all2 (\<lambda>f d. \<exists>d0. d = f d0) sent (log @ msgs s)"
    using ok by (auto simp: history_ok_def st)
  show ?thesis
  proof (cases p)
    case (Q_Send t f)
    show ?thesis
    proof (cases rule: send_spec [OF inv t [OF Q_Send], of f])
      case (1 s')
      have "\<forall>(b, d) \<in> set held. data s' b = d"
        using data 1(7) by force
      moreover have "list_all2 (\<lambda>f d. \<exists>d0. d = f d0) sent (log @ msgs s')" unfolding 1(3) by (rule all)
      ultimately show ?thesis using Q_Send dist 1(1,2) by (simp add: history_ok_def st)
    next
      case (2 s' b d)
      have "\<forall>(b, d) \<in> set held. data s' b = d"
        using data 2(8) by force
      moreover have "list_all2 (\<lambda>f d. \<exists>d0. d = f d0) (sent @ [f]) ((log @ msgs s) @ [f d])"
        using all by (intro list_all2_appendI) auto
      then have "list_all2 (\<lambda>f d. \<exists>d0. d = f d0) (sent @ [f]) (log @ msgs s')"
        unfolding 2(3) by simp
      ultimately show ?thesis using Q_Send dist 2(1,2) by (simp add: history_ok_def st)
    qed
  next
    case Q_Receive
    show ?thesis
    proof (cases rule: receive_spec [OF inv])
      case (1 s')
      then show ?thesis using Q_Receive dist all data by (auto simp: history_ok_def st)
    next
      case (2 b s')
      then have "b \<notin> fst ` set held" by simp
      then show ?thesis using 2 Q_Receive dist all data by (auto simp: history_ok_def st)
    qed
  next
    case (Q_Release b)
    show ?thesis
    proof (cases "map_of held b")
      case None
      then show ?thesis using Q_Release ok by (simp add: st)
    next
      case (Some d)
      then have mem: "(b, d) \<in> set held" by (rule map_of_SomeD)
      then have "b \<in># mset (map fst held)" by force
      then obtain s' where s': "release b s = Some s'" "invar (mset (map fst held) - {#b#}) s'"
          "queued s' = queued s" "data s' = data s"
        using release_law [OF inv] by blast
      have "mset (map fst (remove1 (b, d) held)) = mset (map fst held) - {#b#}"
        using mem by (simp add: image_mset_Diff mset_remove1)
      moreover have "distinct (map fst (remove1 (b, d) held))"
        using dist by (auto simp: distinct_map intro: inj_on_diff)
      ultimately show ?thesis
        using s' Q_Release Some all data by (auto simp: history_ok_def st dest: notin_set_remove1 [rotated])
    qed
  qed
qed

lemma exec_all_ok:
  assumes "history_ok sent st" "list_all (\<lambda>p. case p of Q_Send t f \<Rightarrow> t < int threads | _ \<Rightarrow> True) ps"
  shows "\<exists>rs st'. exec_all ps st = Some (rs, st') \<and> history_ok (sent @ concat (map sent_by (zip ps rs))) st'"
  using assms
proof (induction ps arbitrary: sent st)
  case (Cons p ps)
  obtain r st1 where 1: "exec p st = Some (r, st1)" "history_ok (sent @ sent_by (p, r)) st1"
    using exec_ok [OF Cons.prems(1), of p] Cons.prems(2) by (auto split: queue_op.splits)
  then show ?case using Cons.IH [OF 1(2)] Cons.prems(2) by auto
qed auto

end

end
