(* ===== verification/Io_Queue.thy ===== *)
theory Io_Queue
  imports Threads Mempool Msg_Queue
begin

text \<open>
  The queues of the I/O library, \<open>src/io/jbpf_io_queue.c\<close>: each thread reserves one buffer of the pool of
  the queue, fills it and enqueues it on a ring; consumers dequeue buffers and release them to the pool.
  The ring of Concurrency Kit is the parameter of \<^theory_text>\<open>Mempool\<close>, for both rings; the identifier of the
  calling thread, the result of \<open>jbpf_io_get_thread_id\<close>, is an argument.
\<close>

section \<open>The operations\<close>

definition JBPF_IO_CHANNEL_OUTPUT :: nat where
  "JBPF_IO_CHANNEL_OUTPUT = 0"

definition JBPF_IO_CHANNEL_INPUT :: nat where
  "JBPF_IO_CHANNEL_INPUT = 1"

definition JBPF_MEMPOOL_MP :: nat where
  "JBPF_MEMPOOL_MP = 0"

definition JBPF_MEMPOOL_SP :: nat where
  "JBPF_MEMPOOL_SP = 1"

record 'r jbpf_io_queue_ctx =
  alloc_ptr :: "nat option list"
  ioq_mempool :: "'r jbpf_mempool"
  ioq_ring :: 'r
  ioq_type :: nat
  ioq_elem_size :: nat
  ioq_num_elems :: nat
  ioq_ring_size :: nat

text \<open>The allocations of the queue itself succeed as \<open>ctx_ok\<close> and \<open>ring_ok\<close> say, those of the pool as
  \<open>alloc_ok\<close>, and \<open>ring_valid\<close> is \<open>ck_ring_valid\<close> for a size.  The second component of the result is a pool
  that has been created and that nothing refers to any more.\<close>

definition jbpf_io_queue_create ::
  "'r ck_ring_ops \<Rightarrow> bool \<Rightarrow> (bool \<Rightarrow> pool_block \<Rightarrow> bool) \<Rightarrow> (nat \<Rightarrow> bool) \<Rightarrow> bool \<Rightarrow> int \<Rightarrow> int \<Rightarrow> nat
    \<Rightarrow> 'r jbpf_io_queue_ctx option \<times> 'r jbpf_mempool option" where
  "jbpf_io_queue_create ck ctx_ok alloc_ok ring_valid ring_ok max_entries elem_sz type =
    (if \<not> ctx_ok then (None, None)
     else
       let mem_type = (if type = JBPF_IO_CHANNEL_OUTPUT then JBPF_MEMPOOL_SP else JBPF_MEMPOOL_MP);
           num = c_int (max_entries + int JBPF_IO_MAX_NUM_THREADS)
       in case fst (jbpf_init_mempool_ctx ck alloc_ok True (word_of_int num) (word_of_int elem_sz) mem_type) of
            None \<Rightarrow> (None, None)
          | Some mp \<Rightarrow>
             let num = jbpf_get_mempool_capacity (Some mp);
                 ring_size = unat (round_up_pow_of_two (word_of_int (num + 1)))
             in if \<not> ring_valid ring_size then (None, Some mp)
                else if \<not> ring_ok then (None, Some mp)
                else (Some \<lparr> alloc_ptr = replicate JBPF_IO_MAX_NUM_THREADS None, ioq_mempool = mp,
                   ioq_ring = ck_ring_init ck ring_size, ioq_type = type, ioq_elem_size = c_u32 elem_sz,
                   ioq_num_elems = c_u32 num, ioq_ring_size = ring_size \<rparr>, None))"

definition jbpf_io_queue_dequeue ::
  "'r ck_ring_ops \<Rightarrow> 'r jbpf_io_queue_ctx \<Rightarrow> nat option \<times> 'r jbpf_io_queue_ctx" where
  "jbpf_io_queue_dequeue ck ioq =
    (let (x, r) = ck_ring_dequeue ck (ioq_ring ioq) in (x, ioq\<lparr>ioq_ring := r\<rparr>))"

text \<open>The loop of \<open>jbpf_io_queue_free\<close>; the result is the queue with an empty ring.\<close>

partial_function (option) drain_queue ::
  "'r ck_ring_ops \<Rightarrow> 'r jbpf_io_queue_ctx \<Rightarrow> 'r jbpf_io_queue_ctx option" where
  "drain_queue ck ioq =
    (case jbpf_io_queue_dequeue ck ioq of
       (None, ioq') \<Rightarrow> Some ioq'
     | (Some d, ioq') \<Rightarrow>
        Option.bind (jbpf_mbuf_free_from_data_ptr ck (ioq_mempool ioq') (Some d) False)
          (\<lambda>mp. drain_queue ck (ioq'\<lparr>ioq_mempool := mp\<rparr>)))"

text \<open>What is left of a queue that has been freed is its pool.\<close>

definition jbpf_io_queue_free :: "'r ck_ring_ops \<Rightarrow> 'r jbpf_io_queue_ctx \<Rightarrow> 'r jbpf_mempool option" where
  "jbpf_io_queue_free ck ioq = do {
     ioq \<leftarrow> drain_queue ck ioq;
     jbpf_destroy_mempool ck (ioq_mempool ioq)
   }"

function release_from :: "'r ck_ring_ops \<Rightarrow> nat \<Rightarrow> 'r jbpf_io_queue_ctx \<Rightarrow> 'r jbpf_io_queue_ctx option" where
  "release_from ck thread_id ioq =
    (if thread_id < JBPF_IO_MAX_NUM_THREADS then do {
       p \<leftarrow> arr_get (alloc_ptr ioq) thread_id;
       (case p of
          None \<Rightarrow> release_from ck (thread_id + 1) ioq
        | Some mb \<Rightarrow> do {
            mp \<leftarrow> jbpf_mbuf_free ck (ioq_mempool ioq) (Some mb) False;
            release_from ck (thread_id + 1)
              (ioq\<lparr>ioq_mempool := mp, alloc_ptr := (alloc_ptr ioq)[thread_id := None]\<rparr>)
          })
     } else Some ioq)"
  by pat_completeness auto
termination
  by (relation "measure (\<lambda>(ck, i, ioq). JBPF_IO_MAX_NUM_THREADS - i)") auto

declare release_from.simps [simp del]

definition jbpf_io_queue_release_all ::
  "'r ck_ring_ops \<Rightarrow> 'r jbpf_io_queue_ctx \<Rightarrow> 'r jbpf_io_queue_ctx option" where
  "jbpf_io_queue_release_all ck ioq = release_from ck 0 ioq"

definition jbpf_io_queue_reserve ::
  "'r ck_ring_ops \<Rightarrow> int \<Rightarrow> 'r jbpf_io_queue_ctx \<Rightarrow> (nat option \<times> 'r jbpf_io_queue_ctx) option" where
  "jbpf_io_queue_reserve ck thread_id ioq =
    (if thread_id < 0 then Some (None, ioq)
     else do {
       p \<leftarrow> arr_get (alloc_ptr ioq) (nat thread_id);
       (case p of
          Some mb \<Rightarrow> Some (Some mb, ioq)
        | None \<Rightarrow> do {
            (x, mp) \<leftarrow> jbpf_mbuf_alloc ck (ioq_mempool ioq);
            let ioq = ioq\<lparr>ioq_mempool := mp\<rparr>;
            (case x of
               None \<Rightarrow> Some (None, ioq)
             | Some mb \<Rightarrow> Some (Some mb, ioq\<lparr>alloc_ptr := (alloc_ptr ioq)[nat thread_id := Some mb]\<rparr>))
          })
     })"

definition jbpf_io_queue_release ::
  "'r ck_ring_ops \<Rightarrow> nat option \<Rightarrow> bool \<Rightarrow> 'r jbpf_io_queue_ctx \<Rightarrow> 'r jbpf_io_queue_ctx option" where
  "jbpf_io_queue_release ck iobuf clean ioq =
    (case iobuf of
       None \<Rightarrow> Some ioq
     | Some b \<Rightarrow> do {
         mp \<leftarrow> jbpf_mbuf_free_from_data_ptr ck (ioq_mempool ioq) (Some b) clean;
         Some (ioq\<lparr>ioq_mempool := mp\<rparr>)
       })"

definition jbpf_io_queue_enqueue ::
  "'r ck_ring_ops \<Rightarrow> int \<Rightarrow> 'r jbpf_io_queue_ctx \<Rightarrow> (int \<times> 'r jbpf_io_queue_ctx) option" where
  "jbpf_io_queue_enqueue ck thread_id ioq =
    (if thread_id < 0 then Some (- 2, ioq)
     else do {
       p \<leftarrow> arr_get (alloc_ptr ioq) (nat thread_id);
       (case p of
          None \<Rightarrow> Some (- 2, ioq)
        | Some mb \<Rightarrow>
           let (ok, r) = ck_ring_enqueue ck (ioq_ring ioq) mb; ioq = ioq\<lparr>ioq_ring := r\<rparr> in
           if \<not> ok then Some (- 1, ioq)
           else Some (0, ioq\<lparr>alloc_ptr := (alloc_ptr ioq)[nat thread_id := None]\<rparr>))
     })"

definition jbpf_io_queue_get_elem_size :: "'r jbpf_io_queue_ctx option \<Rightarrow> int" where
  "jbpf_io_queue_get_elem_size ioq = (case ioq of None \<Rightarrow> - 1 | Some q \<Rightarrow> c_int (int (ioq_elem_size q)))"

definition jbpf_io_queue_get_num_elems :: "'r jbpf_io_queue_ctx option \<Rightarrow> int" where
  "jbpf_io_queue_get_num_elems ioq = (case ioq of None \<Rightarrow> - 1 | Some q \<Rightarrow> c_int (int (ioq_num_elems q)))"

section \<open>Who holds the buffers\<close>

definition reserved :: "'r jbpf_io_queue_ctx \<Rightarrow> nat list" where
  "reserved ioq = map the (filter (\<lambda>p. p \<noteq> None) (alloc_ptr ioq))"

text \<open>A buffer is free, or reserved by one thread, or queued once, or held by consumers, who hold the
  references \<open>O\<close>.\<close>

definition ioq_inv ::
  "'r ck_ring_ops \<Rightarrow> ('r \<Rightarrow> nat list) \<Rightarrow> ('r \<Rightarrow> nat) \<Rightarrow> nat multiset \<Rightarrow> 'r jbpf_io_queue_ctx \<Rightarrow> bool" where
  "ioq_inv ck q cp H ioq \<longleftrightarrow>
    mpool.holds ck q cp (ioq_mempool ioq) (mset (reserved ioq) + mset (q (ioq_ring ioq)) + H)
    \<and> distinct (reserved ioq @ q (ioq_ring ioq)) \<and> set (reserved ioq @ q (ioq_ring ioq)) \<inter> set_mset H = {}
    \<and> cp (ioq_ring ioq) = num_elems (ioq_mempool ioq)
    \<and> length (alloc_ptr ioq) = JBPF_IO_MAX_NUM_THREADS"

lemma reserved_clear:
  "i < length xs \<Longrightarrow> xs ! i = Some b \<Longrightarrow>
    mset (map the (filter (\<lambda>p. p \<noteq> None) xs)) = add_mset b (mset (map the (filter (\<lambda>p. p \<noteq> None) (xs[i := None]))))"
  by (induction xs arbitrary: i) (auto simp: nth_Cons split: nat.splits)

lemma reserved_put:
  "i < length xs \<Longrightarrow> xs ! i = None \<Longrightarrow>
    mset (map the (filter (\<lambda>p. p \<noteq> None) (xs[i := Some b]))) = add_mset b (mset (map the (filter (\<lambda>p. p \<noteq> None) xs)))"
  by (induction xs arbitrary: i) (auto simp: nth_Cons split: nat.splits)

lemma ioq_invI:
  assumes "mpool.holds ck q cp (ioq_mempool ioq) M"
    "M = mset (reserved ioq) + mset (q (ioq_ring ioq)) + H"
    "\<And>b. b \<in># mset (reserved ioq) + mset (q (ioq_ring ioq)) \<Longrightarrow> count M b = 1"
    "cp (ioq_ring ioq) = num_elems (ioq_mempool ioq)" "length (alloc_ptr ioq) = JBPF_IO_MAX_NUM_THREADS"
  shows "ioq_inv ck q cp H ioq"
proof -
  let ?xs = "reserved ioq @ q (ioq_ring ioq)"
  have one: "count (mset ?xs) b + count H b = 1" if "b \<in> set ?xs" for b
    using assms(3) [of b] assms(2) that by simp
  have pos: "0 < count (mset ?xs) b" if "b \<in> set ?xs" for b
    using that by (simp only: count_greater_zero_iff set_mset_mset)
  have "count (mset ?xs) b = (if b \<in> set ?xs then 1 else 0)" for b
  proof (cases "b \<in> set ?xs")
    case True
    show ?thesis unfolding if_P [OF True] using one [OF True] pos [OF True] by linarith
  next
    case False
    then show ?thesis by (simp add: not_in_iff [symmetric])
  qed
  then have "distinct ?xs" unfolding distinct_count_atmost_1 by blast
  moreover have "b \<notin># H" if "b \<in> set ?xs" for b
  proof -
    have "count H b = 0" using one [OF that] pos [OF that] by linarith
    then show ?thesis by (simp add: not_in_iff)
  qed
  ultimately show ?thesis
    using assms(1,2,4,5) unfolding ioq_inv_def by auto
qed

definition mine :: "'r jbpf_io_queue_ctx \<Rightarrow> nat \<Rightarrow> nat option" where
  "mine ioq i = (if i < length (alloc_ptr ioq) then alloc_ptr ioq ! i else None)"

definition ioq_data :: "'r jbpf_io_queue_ctx \<Rightarrow> nat \<Rightarrow> nat \<Rightarrow> u8" where
  "ioq_data ioq b = mb_data (mbufs (ioq_mempool ioq) ! b)"

text \<open>A thread that writes into the data of a buffer.\<close>

definition mp_store :: "nat \<Rightarrow> ((nat \<Rightarrow> u8) \<Rightarrow> nat \<Rightarrow> u8) \<Rightarrow> 'r jbpf_mempool \<Rightarrow> 'r jbpf_mempool" where
  "mp_store b f mp =
    mp\<lparr>mbufs := (mbufs mp)[b := (mbufs mp ! b)\<lparr>mb_data := f (mb_data (mbufs mp ! b))\<rparr>]\<rparr>"

definition ioq_store ::
  "nat \<Rightarrow> ((nat \<Rightarrow> u8) \<Rightarrow> nat \<Rightarrow> u8) \<Rightarrow> 'r jbpf_io_queue_ctx \<Rightarrow> 'r jbpf_io_queue_ctx" where
  "ioq_store b f ioq = ioq\<lparr>ioq_mempool := mp_store b f (ioq_mempool ioq)\<rparr>"

lemma mp_store_holds:
  assumes "mpool.holds ck q cp mp H"
  shows "mpool.holds ck q cp (mp_store b f mp) H"
proof -
  have "ref_cnt (mbufs (mp_store b f mp) ! c) = ref_cnt (mbufs mp ! c)"
      "mb_mempool (mbufs (mp_store b f mp) ! c) = mb_mempool (mbufs mp ! c)" for c
    by (cases "b < length (mbufs mp)"; simp add: mp_store_def nth_list_update list_update_beyond)+
  moreover have "length (mbufs (mp_store b f mp)) = length (mbufs mp)" "ring (mp_store b f mp) = ring mp"
      "num_elems (mp_store b f mp) = num_elems mp" "ring_alloc (mp_store b f mp) = ring_alloc mp"
      "ring_free (mp_store b f mp) = ring_free mp" "ring_marker (mp_store b f mp) = ring_marker mp"
      "ring_destroy (mp_store b f mp) = ring_destroy mp" "mp_freed (mp_store b f mp) = mp_freed mp"
    by (simp_all add: mp_store_def)
  ultimately have "mp_refs q (mp_store b f mp) = mp_refs q mp" "mp_live ck q cp (mp_store b f mp) = mp_live ck q cp mp"
    by (simp_all add: mp_refs_def fun_eq_iff mp_live_def mp_inv_def)
  then show ?thesis using assms by (simp add: mpool.holds_def)
qed

lemma mp_alloc_data:
  assumes "jbpf_mbuf_alloc ck mp = Some (x, mp')"
  shows "mb_data (mbufs mp' ! b) = mb_data (mbufs mp ! b)"
  using assms
  by (auto simp: jbpf_mbuf_alloc_def upd_ring_def nth_list_update Let_def
      split: if_splits prod.splits option.splits ring_sel.splits bind_splits)

lemma mp_free_data:
  assumes "jbpf_mbuf_free ck mp x False = Some mp'"
  shows "mb_data (mbufs mp' ! b) = mb_data (mbufs mp ! b)"
  using assms
  by (auto simp: jbpf_mbuf_free_def upd_ring_def nth_list_update Let_def
      split: if_splits prod.splits option.splits ring_sel.splits bind_splits)

lemma ioq_invD:
  assumes "ioq_inv ck q cp H ioq"
  shows "mpool.holds ck q cp (ioq_mempool ioq) (mset (reserved ioq) + mset (q (ioq_ring ioq)) + H)"
    "cp (ioq_ring ioq) = num_elems (ioq_mempool ioq)" "length (alloc_ptr ioq) = JBPF_IO_MAX_NUM_THREADS"
    "\<And>b. b \<in># mset (reserved ioq) + mset (q (ioq_ring ioq)) \<Longrightarrow>
      count (mset (reserved ioq) + mset (q (ioq_ring ioq)) + H) b = 1"
    "ck_ring_spec ck q cp"
proof -
  show h: "mpool.holds ck q cp (ioq_mempool ioq) (mset (reserved ioq) + mset (q (ioq_ring ioq)) + H)"
    "cp (ioq_ring ioq) = num_elems (ioq_mempool ioq)" "length (alloc_ptr ioq) = JBPF_IO_MAX_NUM_THREADS"
    using assms by (simp_all add: ioq_inv_def)
  show "ck_ring_spec ck q cp"
    using h(1) by (auto simp: mpool.holds_def mp_live_def mp_inv_def)
  fix b
  assume b: "b \<in># mset (reserved ioq) + mset (q (ioq_ring ioq))"
  have "count (mset (reserved ioq @ q (ioq_ring ioq))) b = 1"
    using assms b unfolding ioq_inv_def distinct_count_atmost_1 by auto
  moreover have "count H b = 0"
    using assms b by (auto simp: ioq_inv_def simp flip: not_in_iff)
  ultimately show "count (mset (reserved ioq) + mset (q (ioq_ring ioq)) + H) b = 1" by simp
qed

lemma mine_reserved: "mine ioq i = Some b \<Longrightarrow> b \<in> set (reserved ioq)"
  by (force simp: mine_def reserved_def image_iff in_set_conv_nth split: if_splits)

lemma reserved_mine: "set (reserved ioq) = {b. \<exists>i. mine ioq i = Some b}"
  by (force simp: mine_def reserved_def image_iff in_set_conv_nth split: if_splits)

definition ioq_used :: "('r \<Rightarrow> nat list) \<Rightarrow> nat multiset \<Rightarrow> 'r jbpf_io_queue_ctx \<Rightarrow> nat set" where
  "ioq_used q H ioq = {b. \<exists>i. mine ioq i = Some b} \<union> set (q (ioq_ring ioq)) \<union> set_mset H"

lemma ioq_used_mset: "ioq_used q H ioq = set_mset (mset (reserved ioq) + mset (q (ioq_ring ioq)) + H)"
  by (simp add: ioq_used_def flip: reserved_mine)

definition ioq_cap :: "'r jbpf_io_queue_ctx \<Rightarrow> nat" where
  "ioq_cap ioq = num_elems (ioq_mempool ioq)"

lemma reserve_spec:
  assumes inv: "ioq_inv ck q cp H ioq" and t: "t < int JBPF_IO_MAX_NUM_THREADS"
  shows "\<exists>x ioq'. jbpf_io_queue_reserve ck t ioq = Some (x, ioq') \<and> ioq_inv ck q cp H ioq'
    \<and> q (ioq_ring ioq') = q (ioq_ring ioq) \<and> ioq_data ioq' = ioq_data ioq \<and> ioq_cap ioq' = ioq_cap ioq
    \<and> (case x of
         None \<Rightarrow> mine ioq' = mine ioq \<and> (0 \<le> t \<longrightarrow> mine ioq (nat t) = None \<and> card (ioq_used q H ioq) = ioq_cap ioq)
       | Some b \<Rightarrow> 0 \<le> t \<and> mine ioq' = (mine ioq)(nat t \<mapsto> b) \<and> (mine ioq (nat t) = Some b
           \<or> mine ioq (nat t) = None \<and> card (ioq_used q H ioq) < ioq_cap ioq))"
proof (cases "t < 0")
  case True
  then show ?thesis using inv by (simp add: jbpf_io_queue_reserve_def)
next
  case False
  let ?i = "nat t"
  note D = ioq_invD [OF inv]
  have i: "?i < length (alloc_ptr ioq)" using D(3) t False by simp
  show ?thesis
  proof (cases "alloc_ptr ioq ! ?i")
    case (Some b)
    then show ?thesis
      using inv False i by (auto simp: jbpf_io_queue_reserve_def mine_def fun_eq_iff)
  next
    case None
    show ?thesis
    proof (cases rule: mpool.alloc_holds [OF D(1)])
      case (1 b mp')
      let ?ioq = "ioq\<lparr>ioq_mempool := mp', alloc_ptr := (alloc_ptr ioq)[?i := Some b]\<rparr>"
      have res: "mset (reserved ?ioq) = add_mset b (mset (reserved ioq))"
        using reserved_put [OF i None] by (simp add: reserved_def)
      have inv': "ioq_inv ck q cp H ?ioq"
      proof (rule ioq_invI [OF _ _ _ _ _])
        show "mpool.holds ck q cp (ioq_mempool ?ioq) (add_mset b (mset (reserved ioq) + mset (q (ioq_ring ioq)) + H))"
          using 1(4) by simp
        show "add_mset b (mset (reserved ioq) + mset (q (ioq_ring ioq)) + H)
            = mset (reserved ?ioq) + mset (q (ioq_ring ?ioq)) + H"
          using res by simp
        show "count (add_mset b (mset (reserved ioq) + mset (q (ioq_ring ioq)) + H)) c = 1"
          if "c \<in># mset (reserved ?ioq) + mset (q (ioq_ring ?ioq))" for c
        proof (cases "c = b")
          case True
          then show ?thesis using 1(3) by (simp add: not_in_iff)
        next
          case False
          then have "c \<in># mset (reserved ioq) + mset (q (ioq_ring ioq))" using that res by auto
          from D(4) [OF this] show ?thesis using False by simp
        qed
      qed (use D(2,3) 1(5) in simp_all)
      have "card (set_mset (add_mset b (mset (reserved ioq) + mset (q (ioq_ring ioq)) + H))) \<le> num_elems mp'"
        by (rule mpool.holds_card [OF 1(4)])
      then have "card (ioq_used q H ioq) < ioq_cap ioq"
        using 1(3,5) by (simp add: ioq_used_mset ioq_cap_def card_insert_if)
      moreover have "ioq_data ?ioq = ioq_data ioq"
        using mp_alloc_data [OF 1(1)] by (simp add: ioq_data_def fun_eq_iff)
      ultimately show ?thesis
        using 1(1,5) None i False inv'
        by (auto simp: jbpf_io_queue_reserve_def mine_def fun_eq_iff nth_list_update ioq_cap_def)
    next
      case (2 mp')
      let ?ioq = "ioq\<lparr>ioq_mempool := mp'\<rparr>"
      have "ioq_inv ck q cp H ?ioq"
        using inv 2(3,4) by (simp add: ioq_inv_def reserved_def)
      moreover have "ioq_data ?ioq = ioq_data ioq"
        using mp_alloc_data [OF 2(1)] by (simp add: ioq_data_def fun_eq_iff)
      ultimately show ?thesis
        using 2(1,2,4) None i False
        by (auto simp: jbpf_io_queue_reserve_def mine_def fun_eq_iff ioq_used_mset ioq_cap_def)
    qed
  qed
qed

lemma enqueue_spec:
  assumes inv: "ioq_inv ck q cp H ioq" and t: "0 \<le> t" and b: "mine ioq (nat t) = Some b"
  shows "\<exists>ioq'. jbpf_io_queue_enqueue ck t ioq = Some (0, ioq') \<and> ioq_inv ck q cp H ioq'
    \<and> q (ioq_ring ioq') = q (ioq_ring ioq) @ [b] \<and> mine ioq' = (mine ioq)(nat t := None)
    \<and> ioq_data ioq' = ioq_data ioq \<and> ioq_cap ioq' = ioq_cap ioq"
proof -
  note D = ioq_invD [OF inv]
  have i: "nat t < length (alloc_ptr ioq)" and ab: "alloc_ptr ioq ! nat t = Some b"
    using b by (auto simp: mine_def split: if_splits)
  have "distinct (b # q (ioq_ring ioq))"
    using mine_reserved [OF b] inv by (auto simp: ioq_inv_def)
  moreover have "set (b # q (ioq_ring ioq)) \<subseteq> {..<num_elems (ioq_mempool ioq)}"
    using mpool.holds_below [OF D(1)] mine_reserved [OF b] by auto
  ultimately have "length (b # q (ioq_ring ioq)) \<le> num_elems (ioq_mempool ioq)"
    using card_mono [of "{..<num_elems (ioq_mempool ioq)}" "set (b # q (ioq_ring ioq))"] distinct_card by fastforce
  then obtain r' where r': "ck_ring_enqueue ck (ioq_ring ioq) b = (True, r')" "q r' = q (ioq_ring ioq) @ [b]"
      "cp r' = cp (ioq_ring ioq)"
    using ring_enqueue [OF D(5), of "ioq_ring ioq" b] D(2) by auto
  let ?ioq = "ioq\<lparr>ioq_ring := r', alloc_ptr := (alloc_ptr ioq)[nat t := None]\<rparr>"
  have res: "mset (reserved ioq) = add_mset b (mset (reserved ?ioq))"
    using reserved_clear [OF i ab] by (simp add: reserved_def)
  have "ioq_inv ck q cp H ?ioq"
  proof (rule ioq_invI [OF _ _ D(4)])
    show "mpool.holds ck q cp (ioq_mempool ?ioq) (mset (reserved ioq) + mset (q (ioq_ring ioq)) + H)"
      using D(1) by simp
    show "mset (reserved ioq) + mset (q (ioq_ring ioq)) + H = mset (reserved ?ioq) + mset (q (ioq_ring ?ioq)) + H"
      using res r'(2) by simp
    show "c \<in># mset (reserved ioq) + mset (q (ioq_ring ioq))"
      if "c \<in># mset (reserved ?ioq) + mset (q (ioq_ring ?ioq))" for c
      using that res r'(2) by auto
  qed (use D(2,3) r'(3) in simp_all)
  then show ?thesis
    using r' t i ab
    by (auto simp: jbpf_io_queue_enqueue_def mine_def ioq_data_def ioq_cap_def fun_eq_iff nth_list_update)
qed

lemma dequeue_spec:
  assumes inv: "ioq_inv ck q cp H ioq"
  shows "\<exists>ioq'. mine ioq' = mine ioq \<and> ioq_data ioq' = ioq_data ioq \<and> ioq_cap ioq' = ioq_cap ioq
    \<and> (case q (ioq_ring ioq) of
         [] \<Rightarrow> jbpf_io_queue_dequeue ck ioq = (None, ioq') \<and> q (ioq_ring ioq') = [] \<and> ioq_inv ck q cp H ioq'
       | b # bs \<Rightarrow> jbpf_io_queue_dequeue ck ioq = (Some b, ioq') \<and> q (ioq_ring ioq') = bs
           \<and> ioq_inv ck q cp (add_mset b H) ioq')"
proof -
  note D = ioq_invD [OF inv]
  show ?thesis
  proof (cases "q (ioq_ring ioq)")
    case Nil
    then obtain r' where r': "ck_ring_dequeue ck (ioq_ring ioq) = (None, r')" "q r' = []" "cp r' = cp (ioq_ring ioq)"
      using ring_empty [OF D(5)] by blast
    then show ?thesis
      using inv Nil
      by (intro exI [of _ "ioq\<lparr>ioq_ring := r'\<rparr>"])
        (auto simp: jbpf_io_queue_dequeue_def mine_def ioq_data_def ioq_cap_def fun_eq_iff ioq_inv_def reserved_def)
  next
    case (Cons b bs)
    then obtain r' where r': "ck_ring_dequeue ck (ioq_ring ioq) = (Some b, r')" "q r' = bs" "cp r' = cp (ioq_ring ioq)"
      using ring_dequeue [OF D(5)] by blast
    then show ?thesis
      using inv Cons
      by (intro exI [of _ "ioq\<lparr>ioq_ring := r'\<rparr>"])
        (auto simp: jbpf_io_queue_dequeue_def mine_def ioq_data_def ioq_cap_def fun_eq_iff ioq_inv_def reserved_def)
  qed
qed

lemma queue_release_spec:
  assumes inv: "ioq_inv ck q cp H ioq" and b: "b \<in># H"
  shows "\<exists>ioq'. jbpf_io_queue_release ck (Some b) False ioq = Some ioq' \<and> ioq_inv ck q cp (H - {#b#}) ioq'
    \<and> q (ioq_ring ioq') = q (ioq_ring ioq) \<and> mine ioq' = mine ioq \<and> ioq_data ioq' = ioq_data ioq
    \<and> ioq_cap ioq' = ioq_cap ioq"
proof -
  note D = ioq_invD [OF inv]
  have "b \<in># mset (reserved ioq) + mset (q (ioq_ring ioq)) + H" using b by simp
  from mpool.release_holds [OF D(1) this] obtain mp' where mp':
    "mp_release ck (ioq_mempool ioq) b = Some mp'"
    "mpool.holds ck q cp mp' (mset (reserved ioq) + mset (q (ioq_ring ioq)) + H - {#b#})"
    "num_elems mp' = num_elems (ioq_mempool ioq)" .
  have eq: "mset (reserved ioq) + mset (q (ioq_ring ioq)) + H - {#b#}
      = mset (reserved ioq) + mset (q (ioq_ring ioq)) + (H - {#b#})"
    using b by simp
  let ?ioq = "ioq\<lparr>ioq_mempool := mp'\<rparr>"
  have "ioq_inv ck q cp (H - {#b#}) ?ioq"
    using inv mp'(2,3) unfolding eq by (auto simp: ioq_inv_def reserved_def dest: in_diffD)
  moreover have "ioq_data ?ioq = ioq_data ioq"
    using mp_free_data [OF mp'(1) [unfolded mp_release_def]] by (simp add: ioq_data_def fun_eq_iff)
  ultimately show ?thesis
    using mp'(1,3)
    by (auto simp: jbpf_io_queue_release_def jbpf_mbuf_free_from_data_ptr_def mp_release_def mine_def ioq_cap_def fun_eq_iff)
qed

section \<open>The queue provides the contract\<close>

interpretation ioq: msg_queue "ioq_inv ck q cp" JBPF_IO_MAX_NUM_THREADS ioq_cap mine "\<lambda>ioq. q (ioq_ring ioq)" ioq_data
  "jbpf_io_queue_reserve ck" ioq_store "jbpf_io_queue_enqueue ck" "jbpf_io_queue_dequeue ck"
  "\<lambda>b. jbpf_io_queue_release ck (Some b) False" for ck :: "'r ck_ring_ops" and q cp
proof (unfold_locales, goal_cases)
  case (1 H s t)
  then show ?case by (rule reserve_spec [unfolded ioq_used_def])
next
  case (2 H s i b f)
  have "b \<in># mset (reserved s) + mset (q (ioq_ring s)) + H"
    using mine_reserved [OF 2(2)] by simp
  then have "b < num_elems (ioq_mempool s)" by (rule mpool.holds_below [OF ioq_invD(1) [OF 2(1)]])
  then have "b < length (mbufs (ioq_mempool s))"
    using ioq_invD(1) [OF 2(1)] by (simp add: mpool.holds_def mp_live_def mp_inv_def)
  then show ?case
    using 2 mp_store_holds [OF ioq_invD(1) [OF 2(1)], of b f]
    by (auto simp: ioq_inv_def ioq_store_def reserved_def mine_def ioq_data_def ioq_cap_def mp_store_def fun_eq_iff)
next
  case (3 H s t b)
  then show ?case by (rule enqueue_spec)
next
  case (4 H s)
  then show ?case by (rule dequeue_spec)
next
  case (5 H s b)
  then show ?case by (rule queue_release_spec)
next
  case (6 H s i b)
  then show ?case using mine_reserved [OF 6(2)] by (auto simp: ioq_inv_def)
next
  case (7 H s b)
  then show ?case by (auto simp: ioq_inv_def)
qed

section \<open>Creation and destruction\<close>

lemma round_up_pow2:
  assumes "k \<le> 31"
  shows "round_up_pow_of_two (2 ^ k) = 2 ^ k"
proof -
  obtain j where j: "round_up_pow_of_two (2 ^ k) = 2 ^ j" "unat (2 ^ k - 1 :: u32) < 2 ^ j"
    "0 < j \<Longrightarrow> 2 ^ (j - 1) \<le> unat (2 ^ k - 1 :: u32)"
    using round_up_exp [of "2 ^ k"] by blast
  have u: "unat (2 ^ k - 1 :: u32) = 2 ^ k - 1"
    using assms by (simp add: unat_minus_one unat_exp)
  have "k \<le> j"
  proof (rule ccontr)
    assume "\<not> k \<le> j"
    then have "(2 :: nat) ^ (j + 1) \<le> 2 ^ k" by (intro power_increasing) auto
    moreover have "(0 :: nat) < 2 ^ j" by simp
    ultimately show False using j(2) u by simp
  qed
  moreover have "j \<le> k"
  proof (cases j)
    case (Suc i)
    then have "(2 :: nat) ^ i \<le> 2 ^ k - 1" using j(3) u by simp
    moreover have "(0 :: nat) < 2 ^ k" by simp
    ultimately have "(2 :: nat) ^ i < 2 ^ k" by linarith
    then show ?thesis using Suc by simp
  qed simp
  ultimately show ?thesis using j(1) by simp
qed

lemma queue_create_spec:
  assumes ck: "ck_ring_spec ck q cp" and n: "0 \<le> n" "n + int JBPF_IO_MAX_NUM_THREADS < 2 ^ 30"
    and c: "jbpf_io_queue_create ck ctx_ok alloc_ok ring_valid ring_ok n sz type = (Some ioq, left)"
  shows "ioq_inv ck q cp {#} ioq \<and> reserved ioq = [] \<and> q (ioq_ring ioq) = [] \<and> left = None
    \<and> n + int JBPF_IO_MAX_NUM_THREADS \<le> int (num_elems (ioq_mempool ioq))
    \<and> ioq_num_elems ioq = num_elems (ioq_mempool ioq)"
proof -
  let ?n = "word_of_int (n + int JBPF_IO_MAX_NUM_THREADS) :: u32"
  let ?ty = "if type = JBPF_IO_CHANNEL_OUTPUT then JBPF_MEMPOOL_SP else JBPF_MEMPOOL_MP"
  have ci: "c_int (n + int JBPF_IO_MAX_NUM_THREADS) = n + int JBPF_IO_MAX_NUM_THREADS"
    using n by (intro c_int_id) auto
  have un: "unat ?n = nat (n + int JBPF_IO_MAX_NUM_THREADS)"
    unfolding unsigned_of_int using n by (simp add: take_bit_int_eq_self)
  then have lt: "unat ?n < 2 ^ 30" using n by simp
  obtain mp bs where mp: "jbpf_init_mempool_ctx ck alloc_ok True ?n (word_of_int sz) ?ty = (Some mp, bs)"
    and ioq: "ioq = \<lparr> alloc_ptr = replicate JBPF_IO_MAX_NUM_THREADS None, ioq_mempool = mp,
         ioq_ring = ck_ring_init ck (unat (round_up_pow_of_two (word_of_int (jbpf_get_mempool_capacity (Some mp) + 1)))),
         ioq_type = type, ioq_elem_size = c_u32 sz, ioq_num_elems = c_u32 (jbpf_get_mempool_capacity (Some mp)),
         ioq_ring_size = unat (round_up_pow_of_two (word_of_int (jbpf_get_mempool_capacity (Some mp) + 1))) \<rparr>"
    and left: "left = None"
    using c unfolding jbpf_io_queue_create_def Let_def ci
    by (auto split: if_splits option.splits) (metis prod.collapse)+
  have ok: "jbpf_init_mempool_ctx ck (\<lambda>_ _. True) True ?n (word_of_int sz) ?ty = (Some mp, bs)"
    using mp by (simp add: jbpf_init_mempool_ctx_def Let_def split: if_splits)
  have live: "mp_live ck q cp mp" "mp_refs q mp = (\<lambda>_. 0)" "unat ?n \<le> num_elems mp"
    and k: "\<exists>k. num_elems mp = 2 ^ k - 1"
    using init_mempool_spec [OF ck lt, of "\<lambda>_ _. True" True "word_of_int sz" ?ty] ok by auto
  have cap: "jbpf_get_mempool_capacity (Some mp) = int (num_elems mp)"
    using mempool_size_init [OF ok live ck lt] by blast
  obtain k where k: "k \<le> 30" "mempool_num_elems ?n = 2 ^ k - 1"
    using mempool_num_elems_exp [OF lt] by blast
  have "(2 :: int) ^ k < 2 ^ 31" using k(1) by (intro power_strict_increasing) auto
  then have num: "int (num_elems mp) + 1 = 2 ^ k"
    using ok unfolding jbpf_init_mempool_ctx_def Let_def k(2) by (auto simp: c_u32_id split: option.splits)
  have rs: "unat (round_up_pow_of_two (word_of_int (jbpf_get_mempool_capacity (Some mp) + 1))) = 2 ^ k"
    unfolding cap num using k(1) by (simp add: round_up_pow2 unat_exp)
  note ioq = ioq [unfolded rs]
  have "int (num_elems mp + 1) = int (2 ^ k)" using num by simp
  then have "num_elems mp = 2 ^ k - 1" by (simp only: of_nat_eq_iff)
  then have "ioq_inv ck q cp {#} ioq"
    using live(1,2) ring_init [OF ck, of k]
    by (simp add: ioq_inv_def ioq reserved_def mpool.holds_def)
  moreover have "ioq_num_elems ioq = num_elems (ioq_mempool ioq)"
    using num \<open>2 ^ k < 2 ^ 31\<close> by (simp add: ioq cap c_u32_id)
  moreover have "n + int JBPF_IO_MAX_NUM_THREADS \<le> int (num_elems (ioq_mempool ioq))"
    using live(3) un n by (simp add: ioq)
  ultimately show ?thesis
    using ring_init [OF ck, of k] left by (simp add: ioq reserved_def)
qed

lemma queue_create_total:
  assumes ck: "ck_ring_spec ck q cp" and n: "0 \<le> n" "n + int JBPF_IO_MAX_NUM_THREADS < 2 ^ 30"
    and ok: "\<And>b. alloc_ok True b" "\<And>k. ring_valid k"
  obtains ioq where "jbpf_io_queue_create ck True alloc_ok ring_valid True n sz type = (Some ioq, None)"
proof -
  let ?n = "word_of_int (n + int JBPF_IO_MAX_NUM_THREADS) :: u32"
  have ci: "c_int (n + int JBPF_IO_MAX_NUM_THREADS) = n + int JBPF_IO_MAX_NUM_THREADS"
    using n by (intro c_int_id) auto
  have "unat ?n = nat (n + int JBPF_IO_MAX_NUM_THREADS)"
    unfolding unsigned_of_int using n by (simp add: take_bit_int_eq_self)
  then have lt: "unat ?n < 2 ^ 30" using n by simp
  obtain mp bs where "jbpf_init_mempool_ctx ck alloc_ok True ?n (word_of_int sz)
      (if type = JBPF_IO_CHANNEL_OUTPUT then JBPF_MEMPOOL_SP else JBPF_MEMPOOL_MP) = (Some mp, bs)"
    using init_mempool_spec [OF ck lt] ok(1) by blast
  then show thesis
    using that ok(2) unfolding jbpf_io_queue_create_def Let_def ci by simp
qed

lemma drain_spec:
  assumes "ioq_inv ck q cp H ioq"
  shows "\<exists>ioq'. drain_queue ck ioq = Some ioq' \<and> ioq_inv ck q cp H ioq' \<and> q (ioq_ring ioq') = []
    \<and> alloc_ptr ioq' = alloc_ptr ioq"
  using assms
proof (induction "q (ioq_ring ioq)" arbitrary: ioq)
  case Nil
  then have r: "q (ioq_ring ioq) = []" by simp
  obtain r' where r': "ck_ring_dequeue ck (ioq_ring ioq) = (None, r')" "q r' = []" "cp r' = cp (ioq_ring ioq)"
    using ring_empty [OF ioq_invD(5) [OF Nil.prems] r] by blast
  then show ?case
    using Nil.prems r
    by (subst drain_queue.simps) (auto simp: jbpf_io_queue_dequeue_def ioq_inv_def reserved_def)
next
  case (Cons b bs)
  then have r: "q (ioq_ring ioq) = b # bs" by simp
  obtain r' where r': "ck_ring_dequeue ck (ioq_ring ioq) = (Some b, r')" "q r' = bs" "cp r' = cp (ioq_ring ioq)"
    using ring_dequeue [OF ioq_invD(5) [OF Cons.prems] r] by blast
  let ?ioq = "ioq\<lparr>ioq_ring := r'\<rparr>"
  have deq: "jbpf_io_queue_dequeue ck ioq = (Some b, ?ioq)"
    using r'(1) by (simp add: jbpf_io_queue_dequeue_def)
  have "ioq_inv ck q cp (add_mset b H) ?ioq"
    using dequeue_spec [OF Cons.prems] r deq by auto
  then obtain ioq1 where 1: "jbpf_io_queue_release ck (Some b) False ?ioq = Some ioq1" "ioq_inv ck q cp H ioq1"
      "q (ioq_ring ioq1) = bs"
    using queue_release_spec [of ck q cp "add_mset b H" ?ioq b] r'(2) by auto
  then obtain mp where mp: "jbpf_mbuf_free_from_data_ptr ck (ioq_mempool ?ioq) (Some b) False = Some mp"
      "ioq1 = ?ioq\<lparr>ioq_mempool := mp\<rparr>"
    by (auto simp: jbpf_io_queue_release_def split: bind_splits)
  have "drain_queue ck ioq = drain_queue ck ioq1"
    by (subst drain_queue.simps) (use deq mp in simp)
  moreover have "alloc_ptr ioq1 = alloc_ptr ioq" using mp(2) by simp
  ultimately show ?case using Cons.hyps(1) [OF _ 1(2)] 1(3) by auto
qed

lemma release_from_spec:
  assumes "ioq_inv ck q cp H ioq" "i \<le> JBPF_IO_MAX_NUM_THREADS" "\<forall>j < i. alloc_ptr ioq ! j = None"
  shows "\<exists>ioq'. release_from ck i ioq = Some ioq' \<and> ioq_inv ck q cp H ioq' \<and> reserved ioq' = []
    \<and> q (ioq_ring ioq') = q (ioq_ring ioq)"
  using assms
proof (induction ck i ioq rule: release_from.induct)
  case (1 ck i ioq)
  note D = ioq_invD [OF 1(3)]
  show ?case
  proof (cases "i < JBPF_IO_MAX_NUM_THREADS")
    case False
    then have "reserved ioq = []"
      using 1(4,5) D(3) by (auto simp: reserved_def filter_empty_conv in_set_conv_nth)
    then show ?thesis using False 1(3) by (simp add: release_from.simps)
  next
    case True
    then have i: "i < length (alloc_ptr ioq)" using D(3) by simp
    show ?thesis
    proof (cases "alloc_ptr ioq ! i")
      case None
      then have "\<forall>j < i + 1. alloc_ptr ioq ! j = None" using 1(5) by (auto simp: less_Suc_eq)
      then show ?thesis
        using 1(1) [OF True _ None 1(3)] True i None by (simp add: release_from.simps [of ck i])
    next
      case (Some b)
      let ?ap = "(alloc_ptr ioq)[i := None]"
      have res: "mset (reserved ioq) = add_mset b (mset (reserved (ioq\<lparr>alloc_ptr := ?ap\<rparr>)))"
        using reserved_clear [OF i Some] by (simp add: reserved_def)
      then have "b \<in># mset (reserved ioq) + mset (q (ioq_ring ioq)) + H" by simp
      from mpool.release_holds [OF D(1) this] obtain mp where mp: "mp_release ck (ioq_mempool ioq) b = Some mp"
        "mpool.holds ck q cp mp (mset (reserved ioq) + mset (q (ioq_ring ioq)) + H - {#b#})"
        "num_elems mp = num_elems (ioq_mempool ioq)" .
      let ?ioq = "ioq\<lparr>ioq_mempool := mp, alloc_ptr := ?ap\<rparr>"
      have res': "reserved ?ioq = reserved (ioq\<lparr>alloc_ptr := ?ap\<rparr>)" by (simp add: reserved_def)
      have dist: "distinct (reserved (ioq\<lparr>alloc_ptr := ?ap\<rparr>) @ q (ioq_ring ioq))"
        "set (reserved (ioq\<lparr>alloc_ptr := ?ap\<rparr>) @ q (ioq_ring ioq)) \<inter> set_mset H = {}"
      proof -
        have eq: "mset (reserved ioq @ q (ioq_ring ioq)) = mset (b # reserved (ioq\<lparr>alloc_ptr := ?ap\<rparr>) @ q (ioq_ring ioq))"
          using res by simp
        have "distinct (reserved ioq @ q (ioq_ring ioq))" "set (reserved ioq @ q (ioq_ring ioq)) \<inter> set_mset H = {}"
          using 1(3) unfolding ioq_inv_def by blast+
        then show "distinct (reserved (ioq\<lparr>alloc_ptr := ?ap\<rparr>) @ q (ioq_ring ioq))"
          "set (reserved (ioq\<lparr>alloc_ptr := ?ap\<rparr>) @ q (ioq_ring ioq)) \<inter> set_mset H = {}"
          unfolding mset_eq_imp_distinct_iff [OF eq] mset_eq_setD [OF eq] by auto
      qed
      have inv: "ioq_inv ck q cp H ?ioq"
        using mp(2,3) res dist D(2,3) unfolding ioq_inv_def res' by simp
      have fr: "jbpf_mbuf_free ck (ioq_mempool ioq) (Some b) False = Some mp"
        using mp(1) by (simp add: mp_release_def)
      have "\<forall>j < i + 1. alloc_ptr ?ioq ! j = None" using 1(5) i by (auto simp: less_Suc_eq nth_list_update)
      then show ?thesis
        using 1(2) [OF True _ Some fr inv] True i Some fr by (simp add: release_from.simps [of ck i])
    qed
  qed
qed

lemma release_all_spec:
  assumes "ioq_inv ck q cp H ioq"
  shows "\<exists>ioq'. jbpf_io_queue_release_all ck ioq = Some ioq' \<and> ioq_inv ck q cp H ioq' \<and> reserved ioq' = []
    \<and> q (ioq_ring ioq') = q (ioq_ring ioq)"
  unfolding jbpf_io_queue_release_all_def by (rule release_from_spec [OF assms]) auto

lemma queue_free_spec:
  assumes "ioq_inv ck q cp H ioq"
  shows "\<exists>mp. jbpf_io_queue_free ck ioq = Some mp \<and> (mp_freed mp \<longleftrightarrow> reserved ioq = [] \<and> H = {#})"
proof -
  obtain ioq1 where 1: "drain_queue ck ioq = Some ioq1" "ioq_inv ck q cp H ioq1" "q (ioq_ring ioq1) = []"
    "alloc_ptr ioq1 = alloc_ptr ioq"
    using drain_spec [OF assms] by blast
  have refs: "mp_refs q (ioq_mempool ioq1) b = count (mset (reserved ioq) + H) b" for b
    using ioq_invD(1) [OF 1(2)] 1(3,4) by (simp add: mpool.holds_def reserved_def)
  have live: "mp_inv ck q cp (ioq_mempool ioq1)" "ring_alloc (ioq_mempool ioq1) = Ring"
    using ioq_invD(1) [OF 1(2)] by (auto simp: mpool.holds_def mp_live_def)
  have "(\<forall>b. mp_refs q (ioq_mempool ioq1) b = 0) \<longleftrightarrow> mset (reserved ioq) + H = {#}"
    unfolding refs by (metis count_empty multiset_eqI)
  then have iff: "(\<forall>b. mp_refs q (ioq_mempool ioq1) b = 0) \<longleftrightarrow> reserved ioq = [] \<and> H = {#}"
    by simp
  obtain mp where mp: "jbpf_destroy_mempool ck (ioq_mempool ioq1) = Some mp"
    "if \<forall>b. mp_refs q (ioq_mempool ioq1) b = 0 then mp_freed mp
     else mp_inv ck q cp mp \<and> num_elems mp = num_elems (ioq_mempool ioq1) \<and> ring_alloc mp = Ring_Destroy
       \<and> mp_refs q mp = mp_refs q (ioq_mempool ioq1)"
    using destroy_mempool_spec [OF live] by blast
  have "mp_freed mp \<longleftrightarrow> (\<forall>b. mp_refs q (ioq_mempool ioq1) b = 0)"
    using mp(2) unfolding mp_inv_def by presburger
  then show ?thesis using 1(1) mp(1) iff by (simp add: jbpf_io_queue_free_def)
qed

text \<open>C40: When the allocation of the ring of a queue fails, the creation reports failure but the pool it
  has created before stays alive, with all its buffers, and nothing refers to it.\<close>

theorem io_queue_create_leaks_pool:
  assumes "ck_ring_spec ck q cp" and "0 \<le> n" and "n + int JBPF_IO_MAX_NUM_THREADS < 2 ^ 30"
    and "\<And>b. alloc_ok True b"
  shows "\<exists>mp. jbpf_io_queue_create ck True alloc_ok ring_valid False n sz type = (None, Some mp)
    \<and> mp_live ck q cp mp \<and> \<not> mp_freed mp \<and> n + int JBPF_IO_MAX_NUM_THREADS \<le> int (num_elems mp)"
proof -
  let ?n = "word_of_int (n + int JBPF_IO_MAX_NUM_THREADS) :: u32"
  let ?ty = "if type = JBPF_IO_CHANNEL_OUTPUT then JBPF_MEMPOOL_SP else JBPF_MEMPOOL_MP"
  have ci: "c_int (n + int JBPF_IO_MAX_NUM_THREADS) = n + int JBPF_IO_MAX_NUM_THREADS"
    using assms(2,3) by (intro c_int_id) auto
  have un: "unat ?n = nat (n + int JBPF_IO_MAX_NUM_THREADS)"
    unfolding unsigned_of_int using assms(2,3) by (simp add: take_bit_int_eq_self)
  then have lt: "unat ?n < 2 ^ 30" using assms(2,3) by simp
  obtain mp bs where mp: "jbpf_init_mempool_ctx ck alloc_ok True ?n (word_of_int sz) ?ty = (Some mp, bs)"
    "mp_live ck q cp mp" "unat ?n \<le> num_elems mp"
    using init_mempool_spec [OF assms(1) lt, of alloc_ok True "word_of_int sz" ?ty] assms(4) by blast
  have "jbpf_io_queue_create ck True alloc_ok ring_valid False n sz type = (None, Some mp)"
    unfolding jbpf_io_queue_create_def Let_def ci mp(1) by simp
  then show ?thesis using mp un assms(2) by (simp add: mp_live_def mp_inv_def)
qed

theorem io_queue_create_leaks_pool_witness:
  "\<exists>mp. jbpf_io_queue_create list_ring True (\<lambda>_ _. True) (\<lambda>_. True) False 8 64 JBPF_IO_CHANNEL_OUTPUT = (None, Some mp)
    \<and> mp_live list_ring fst snd mp \<and> \<not> mp_freed mp \<and> 8 + int JBPF_IO_MAX_NUM_THREADS \<le> int (num_elems mp)"
  by (rule io_queue_create_leaks_pool [OF list_ring_spec]) (simp_all add: JBPF_IO_MAX_NUM_THREADS_def)

end
