(* ===== verification/Io_Channel.thy ===== *)
theory Io_Channel
  imports Io_Queue
begin

text \<open>
  The channels of the I/O library, the operations of \<open>src/io/jbpf_io_channel.c\<close> on one channel: a
  channel is a queue whose elements start with a pointer back to the channel, followed by the data of
  the message.  A buffer pointer of a channel is the index of the buffer in the pool of its queue.  The
  operations are modelled on a channel that exists; given a null pointer they return at once.
\<close>

section \<open>The operations\<close>

datatype jbpf_io_channel_type = JBPF_IO_CHANNEL_RINGBUF | JBPF_IO_CHANNEL_QUEUE

text \<open>The functions of a library for serialisation are not part of the sources: \<open>serialize\<close> maps the
  data, its size and the size of the target to the code and the bytes written, \<open>deserialize\<close> the payload,
  its size and the size of the target.\<close>

record jbpf_io_serde =
  serialize :: "(bytes \<Rightarrow> int \<Rightarrow> int \<Rightarrow> int \<times> bytes) option"
  deserialize :: "(bytes \<Rightarrow> int \<Rightarrow> int \<Rightarrow> int \<times> bytes) option"

text \<open>\<open>elem_owner\<close> says which buffers have their first word set to point to the channel.\<close>

record 'r jbpf_io_channel =
  channel_ptr :: "'r jbpf_io_queue_ctx"
  ch_type :: jbpf_io_channel_type
  ch_direction :: nat
  primary_serde :: jbpf_io_serde
  secondary_serde :: jbpf_io_serde
  ch_stream_id :: bytes
  ch_elem_size :: int
  elem_owner :: "nat \<Rightarrow> bool"

definition sizeof_channel_elem :: nat where
  "sizeof_channel_elem = 8"

definition JBPF_IO_STREAM_ID_LEN :: nat where
  "JBPF_IO_STREAM_ID_LEN = 16"

definition put_bytes :: "nat \<Rightarrow> bytes \<Rightarrow> (nat \<Rightarrow> u8) \<Rightarrow> nat \<Rightarrow> u8" where
  "put_bytes off w d = (\<lambda>i. if off \<le> i \<and> i < off + length w then w ! (i - off) else d i)"

definition get_bytes :: "nat \<Rightarrow> nat \<Rightarrow> (nat \<Rightarrow> u8) \<Rightarrow> bytes" where
  "get_bytes off n d = map (\<lambda>i. d (off + i)) [0..<n]"

definition chan_read :: "'r jbpf_io_channel \<Rightarrow> nat \<Rightarrow> nat \<Rightarrow> bytes" where
  "chan_read ch b n = get_bytes sizeof_channel_elem n (ioq_data (channel_ptr ch) b)"

definition chan_write :: "nat \<Rightarrow> bytes \<Rightarrow> 'r jbpf_io_channel \<Rightarrow> 'r jbpf_io_channel" where
  "chan_write b w ch = ch\<lparr>channel_ptr := ioq_store b (put_bytes sizeof_channel_elem w) (channel_ptr ch)\<rparr>"

definition jbpf_io_channel_reserve_buf ::
  "'r ck_ring_ops \<Rightarrow> int \<Rightarrow> 'r jbpf_io_channel \<Rightarrow> (nat option \<times> 'r jbpf_io_channel) option" where
  "jbpf_io_channel_reserve_buf ck tid ch =
    (case ch_type ch of
       JBPF_IO_CHANNEL_RINGBUF \<Rightarrow> Some (None, ch)
     | JBPF_IO_CHANNEL_QUEUE \<Rightarrow> do {
         (elem, ioq) \<leftarrow> jbpf_io_queue_reserve ck tid (channel_ptr ch);
         let ch = ch\<lparr>channel_ptr := ioq\<rparr>;
         (case elem of
            None \<Rightarrow> Some (None, ch)
          | Some b \<Rightarrow> Some (Some b, ch\<lparr>elem_owner := (elem_owner ch)(b := True)\<rparr>))
       })"

definition jbpf_io_channel_submit_buf ::
  "'r ck_ring_ops \<Rightarrow> int \<Rightarrow> 'r jbpf_io_channel \<Rightarrow> (int \<times> 'r jbpf_io_channel) option" where
  "jbpf_io_channel_submit_buf ck tid ch =
    (case ch_type ch of
       JBPF_IO_CHANNEL_RINGBUF \<Rightarrow> Some (- 1, ch)
     | JBPF_IO_CHANNEL_QUEUE \<Rightarrow> do {
         (r, ioq) \<leftarrow> jbpf_io_queue_enqueue ck tid (channel_ptr ch);
         Some (r, ch\<lparr>channel_ptr := ioq\<rparr>)
       })"

definition jbpf_io_channel_release_all_buf ::
  "'r ck_ring_ops \<Rightarrow> 'r jbpf_io_channel \<Rightarrow> 'r jbpf_io_channel option" where
  "jbpf_io_channel_release_all_buf ck ch = do {
     ioq \<leftarrow> jbpf_io_queue_release_all ck (channel_ptr ch);
     Some (ch\<lparr>channel_ptr := ioq\<rparr>)
   }"

definition jbpf_io_channel_release_buf ::
  "'r ck_ring_ops \<Rightarrow> nat \<Rightarrow> 'r jbpf_io_channel \<Rightarrow> 'r jbpf_io_channel option" where
  "jbpf_io_channel_release_buf ck b ch = do {
     ioq \<leftarrow> jbpf_io_queue_release ck (Some b) False (channel_ptr ch);
     Some (ch\<lparr>channel_ptr := ioq\<rparr>)
   }"

text \<open>\<open>size > elem_size\<close> compares a \<open>size_t\<close> with an \<open>int\<close>, so the latter is converted.\<close>

definition jbpf_io_channel_send_data ::
  "'r ck_ring_ops \<Rightarrow> int \<Rightarrow> bytes \<Rightarrow> 'r jbpf_io_channel \<Rightarrow> (int \<times> 'r jbpf_io_channel) option" where
  "jbpf_io_channel_send_data ck tid data ch =
    (case ch_type ch of
       JBPF_IO_CHANNEL_RINGBUF \<Rightarrow> Some (- 1, ch)
     | JBPF_IO_CHANNEL_QUEUE \<Rightarrow>
        if length data > c_size (ch_elem_size ch) then Some (- 1, ch)
        else do {
          (data_buf, ch) \<leftarrow> jbpf_io_channel_reserve_buf ck tid ch;
          (case data_buf of
             None \<Rightarrow> Some (- 1, ch)
           | Some b \<Rightarrow> jbpf_io_channel_submit_buf ck tid (chan_write b data ch))
        })"

text \<open>The loop that collects up to \<open>n\<close> buffers.\<close>

fun recv_loop :: "'r ck_ring_ops \<Rightarrow> nat \<Rightarrow> 'r jbpf_io_channel \<Rightarrow> nat list \<times> 'r jbpf_io_channel" where
  "recv_loop ck 0 ch = ([], ch)"
| "recv_loop ck (Suc n) ch =
    (case jbpf_io_queue_dequeue ck (channel_ptr ch) of
       (None, ioq) \<Rightarrow> ([], ch\<lparr>channel_ptr := ioq\<rparr>)
     | (Some b, ioq) \<Rightarrow> let (bs, ch') = recv_loop ck n (ch\<lparr>channel_ptr := ioq\<rparr>) in (b # bs, ch'))"

definition jbpf_io_channel_recv_data ::
  "'r ck_ring_ops \<Rightarrow> int \<Rightarrow> 'r jbpf_io_channel \<Rightarrow> int \<times> nat list \<times> 'r jbpf_io_channel" where
  "jbpf_io_channel_recv_data ck batch_size ch =
    (case ch_type ch of
       JBPF_IO_CHANNEL_QUEUE \<Rightarrow>
         let (bs, ch') = recv_loop ck (nat batch_size) ch in (int (length bs), bs, ch')
     | JBPF_IO_CHANNEL_RINGBUF \<Rightarrow> (- 1, [], ch))"

text \<open>The second component is what has been copied to the buffer of the caller.\<close>

definition jbpf_io_channel_recv_data_copy ::
  "'r ck_ring_ops \<Rightarrow> nat \<Rightarrow> 'r jbpf_io_channel \<Rightarrow> int \<times> bytes \<times> 'r jbpf_io_channel" where
  "jbpf_io_channel_recv_data_copy ck buf_size ch =
    (let data_size = c_size (ch_elem_size ch); (elem, ioq) = jbpf_io_queue_dequeue ck (channel_ptr ch);
         ch = ch\<lparr>channel_ptr := ioq\<rparr>
     in case elem of
          None \<Rightarrow> (- 1, [], ch)
        | Some b \<Rightarrow>
           if data_size > buf_size then (- 1, [], ch)
           else (1, chan_read ch b data_size, ch))"

definition jbpf_io_channel_share_data_ptr ::
  "nat option \<Rightarrow> 'r jbpf_io_channel \<Rightarrow> (nat option \<times> 'r jbpf_io_channel) option" where
  "jbpf_io_channel_share_data_ptr data_ptr ch =
    (case data_ptr of
       None \<Rightarrow> Some (None, ch)
     | Some b \<Rightarrow> do {
         (_, mp) \<leftarrow> jbpf_mbuf_share_data_ptr (ioq_mempool (channel_ptr ch)) (Some b);
         Some (Some b, ch\<lparr>channel_ptr := (channel_ptr ch)\<lparr>ioq_mempool := mp\<rparr>\<rparr>)
       })"

text \<open>The message of a buffer with the stream identifier of its channel in front; \<open>primary\<close> says on which
  side the caller is.  The bytes are the contents of the target buffer.\<close>

definition jbpf_io_channel_pack_msg ::
  "bool \<Rightarrow> nat \<Rightarrow> nat \<Rightarrow> 'r jbpf_io_channel \<Rightarrow> (int \<times> bytes) option" where
  "jbpf_io_channel_pack_msg primary b buf_len ch =
    (if \<not> elem_owner ch b then None
     else
       let serde = (if primary then primary_serde ch else secondary_serde ch) in
       case serialize serde of
         None \<Rightarrow> Some (- 1, [])
       | Some ser \<Rightarrow>
          if buf_len < JBPF_IO_STREAM_ID_LEN then Some (- 1, [])
          else
            let ser_buf_size = c_int (int buf_len - int JBPF_IO_STREAM_ID_LEN);
                (bytes_written, out) = ser (chan_read ch b (nat (ch_elem_size ch))) (ch_elem_size ch) ser_buf_size
            in if bytes_written > 0 then Some (int JBPF_IO_STREAM_ID_LEN + bytes_written, ch_stream_id ch @ out)
               else Some (- 2, ch_stream_id ch @ out))"

section \<open>Messages arrive once and in order\<close>

definition ch_inv ::
  "'r ck_ring_ops \<Rightarrow> ('r \<Rightarrow> nat list) \<Rightarrow> ('r \<Rightarrow> nat) \<Rightarrow> nat multiset \<Rightarrow> 'r jbpf_io_channel \<Rightarrow> bool" where
  "ch_inv ck q cp H ch \<longleftrightarrow> ioq_inv ck q cp H (channel_ptr ch) \<and> ch_type ch = JBPF_IO_CHANNEL_QUEUE
    \<and> 0 \<le> ch_elem_size ch \<and> ch_elem_size ch < 2 ^ 31"

lemma get_prefix:
  assumes "int (length w) \<le> n"
  shows "take (length w) (get_bytes off (nat n) (put_bytes off w d)) = w"
  by (rule nth_equalityI) (use assms in \<open>simp_all add: get_bytes_def put_bytes_def\<close>)

definition same_channel :: "'r jbpf_io_channel \<Rightarrow> 'r jbpf_io_channel \<Rightarrow> bool" where
  "same_channel ch ch' \<longleftrightarrow> ch_type ch' = ch_type ch \<and> ch_direction ch' = ch_direction ch
    \<and> primary_serde ch' = primary_serde ch \<and> secondary_serde ch' = secondary_serde ch
    \<and> ch_stream_id ch' = ch_stream_id ch \<and> ch_elem_size ch' = ch_elem_size ch"

lemma same_channel_refl [simp]: "same_channel ch ch"
  by (simp add: same_channel_def)

lemma same_channel_trans [trans]: "same_channel a b \<Longrightarrow> same_channel b c \<Longrightarrow> same_channel a c"
  by (simp add: same_channel_def)

lemma same_channel_upd [simp]:
  "same_channel ch (ch\<lparr>channel_ptr := x\<rparr>)" "same_channel ch (ch\<lparr>elem_owner := y\<rparr>)"
  "same_channel ch (ch\<lparr>elem_owner := y, channel_ptr := x\<rparr>)" "same_channel ch (ch\<lparr>channel_ptr := x, elem_owner := y\<rparr>)"
  by (simp_all add: same_channel_def)

lemma ch_inv_same: "ch_inv ck q cp H ch \<Longrightarrow> same_channel ch ch' \<Longrightarrow> ioq_inv ck q cp H' (channel_ptr ch')
    \<Longrightarrow> ch_inv ck q cp H' ch'"
  by (simp add: ch_inv_def same_channel_def)

lemma send_data_fits:
  assumes inv: "ch_inv ck q cp H ch" and w: "int (length w) \<le> ch_elem_size ch"
    and send: "ioq.send ck t (put_bytes sizeof_channel_elem w) (channel_ptr ch) = Some (r, ioq')"
  shows "\<exists>ch'. jbpf_io_channel_send_data ck t w ch = Some (r, ch') \<and> channel_ptr ch' = ioq' \<and> same_channel ch ch'"
proof -
  have "\<not> c_size (ch_elem_size ch) < length w"
    using inv w by (simp add: ch_inv_def c_size_def)
  then show ?thesis
    using inv send
    by (auto simp: jbpf_io_channel_send_data_def ioq.send_def ch_inv_def jbpf_io_channel_reserve_buf_def
        jbpf_io_channel_submit_buf_def chan_write_def split: bind_splits option.splits)
qed

text \<open>Histories of a channel.  The consumers remember the buffers they received and have not released,
  with the message they read in each; the log has every message received.\<close>

datatype ch_op = Ch_Send int bytes | Ch_Recv int | Ch_Release nat

type_synonym 'r ch_state = "'r jbpf_io_channel \<times> (nat \<times> bytes) list \<times> bytes list"

definition read_msg :: "'r jbpf_io_channel \<Rightarrow> nat \<Rightarrow> bytes" where
  "read_msg ch b = chan_read ch b (nat (ch_elem_size ch))"

fun ch_exec :: "'r ck_ring_ops \<Rightarrow> ch_op \<Rightarrow> 'r ch_state \<Rightarrow> (int \<times> 'r ch_state) option" where
  "ch_exec ck (Ch_Send t w) (ch, held, log) = do {
     (r, ch) \<leftarrow> jbpf_io_channel_send_data ck t w ch;
     Some (r, ch, held, log)
   }"
| "ch_exec ck (Ch_Recv n) (ch, held, log) =
    (let (r, bs, ch) = jbpf_io_channel_recv_data ck n ch in
     Some (r, ch, rev (map (\<lambda>b. (b, read_msg ch b)) bs) @ held, log @ map (read_msg ch) bs))"
| "ch_exec ck (Ch_Release b) (ch, held, log) =
    (case map_of held b of
       None \<Rightarrow> Some (0, ch, held, log)
     | Some d \<Rightarrow> do {
         ch \<leftarrow> jbpf_io_channel_release_buf ck b ch;
         Some (0, ch, remove1 (b, d) held, log)
       })"

primrec ch_run :: "'r ck_ring_ops \<Rightarrow> ch_op list \<Rightarrow> 'r ch_state \<Rightarrow> (int list \<times> 'r ch_state) option" where
  "ch_run ck [] st = Some ([], st)"
| "ch_run ck (p # ps) st = do {
     (r, st) \<leftarrow> ch_exec ck p st;
     (rs, st) \<leftarrow> ch_run ck ps st;
     Some (r # rs, st)
   }"

fun ch_sent :: "ch_op \<times> int \<Rightarrow> bytes list" where
  "ch_sent (Ch_Send t w, r) = (if r = 0 then [w] else [])"
| "ch_sent (_, r) = []"

fun ch_op_ok :: "ch_op \<Rightarrow> bool" where
  "ch_op_ok (Ch_Send t w) = (t < int JBPF_IO_MAX_NUM_THREADS)"
| "ch_op_ok _ = True"

text \<open>A history of the channel is one of its queue, seen through the bytes of the messages.\<close>

definition ch_hist ::
  "'r ck_ring_ops \<Rightarrow> ('r \<Rightarrow> nat list) \<Rightarrow> ('r \<Rightarrow> nat) \<Rightarrow> bytes list \<Rightarrow> 'r ch_state \<Rightarrow> bool" where
  "ch_hist ck q cp sent st \<longleftrightarrow> (case st of (ch, held, log) \<Rightarrow>
     \<exists>H. ch_inv ck q cp H ch \<and> list_all (\<lambda>w. int (length w) \<le> ch_elem_size ch) sent \<and>
     (\<exists>heldd logd. ioq.history_ok ck q cp (map (put_bytes sizeof_channel_elem) sent) (channel_ptr ch, heldd, logd)
       \<and> held = map (\<lambda>(b, d). (b, get_bytes sizeof_channel_elem (nat (ch_elem_size ch)) d)) heldd
       \<and> log = map (get_bytes sizeof_channel_elem (nat (ch_elem_size ch))) logd))"

lemma ch_histI:
  assumes "ch_inv ck q cp H ch" "list_all (\<lambda>w. int (length w) \<le> ch_elem_size ch) sent"
    "ioq.history_ok ck q cp (map (put_bytes sizeof_channel_elem) sent) (channel_ptr ch, heldd, logd)"
    "held = map (\<lambda>(b, d). (b, get_bytes sizeof_channel_elem (nat (ch_elem_size ch)) d)) heldd"
    "log = map (get_bytes sizeof_channel_elem (nat (ch_elem_size ch))) logd"
  shows "ch_hist ck q cp sent (ch, held, log)"
  unfolding ch_hist_def prod.case using assms by blast

lemma recv_loop_hist:
  assumes "ch_inv ck q cp H ch" "recv_loop ck n ch = (bs, ch')"
    "ioq.history_ok ck q cp sent (channel_ptr ch, heldd, logd)"
  shows "ch_inv ck q cp (mset bs + H) ch' \<and> same_channel ch ch' \<and> ioq_data (channel_ptr ch') = ioq_data (channel_ptr ch)
    \<and> ioq.history_ok ck q cp sent (channel_ptr ch',
        rev (map (\<lambda>b. (b, ioq_data (channel_ptr ch') b)) bs) @ heldd, logd @ map (ioq_data (channel_ptr ch')) bs)"
  using assms
proof (induction n arbitrary: ch H heldd logd bs)
  case (Suc n)
  have inv: "ioq_inv ck q cp H (channel_ptr ch)" using Suc.prems(1) by (simp add: ch_inv_def)
  show ?case
  proof (cases rule: ioq.receive_spec [OF inv])
    case (1 ioq')
    then have "bs = []" "ch' = ch\<lparr>channel_ptr := ioq'\<rparr>" using Suc.prems(2) by auto
    moreover have "ioq.history_ok ck q cp sent (ioq', heldd, logd)"
      using ioq.exec_ok [OF Suc.prems(3), of Q_Receive] 1(1) by simp
    ultimately show ?thesis
      using 1 Suc.prems(1) by (auto simp: ch_inv_def)
  next
    case (2 b ioq')
    let ?ch = "ch\<lparr>channel_ptr := ioq'\<rparr>"
    obtain bs' where bs: "recv_loop ck n ?ch = (bs', ch')" "bs = b # bs'"
      using Suc.prems(2) 2(1) by (auto split: prod.splits)
    have inv': "ch_inv ck q cp (add_mset b H) ?ch" using Suc.prems(1) 2(3) by (simp add: ch_inv_def)
    have "ioq.history_ok ck q cp sent (channel_ptr ?ch, (b, ioq_data ioq' b) # heldd, logd @ [ioq_data ioq' b])"
      using ioq.exec_ok [OF Suc.prems(3), of Q_Receive] 2(1) by simp
    from Suc.IH [OF inv' bs(1) this] show ?thesis
      using bs(2) 2(4) same_channel_trans [of ch ?ch ch'] by (auto simp: ac_simps)
  qed
qed simp

lemma ch_exec_ok:
  assumes hist: "ch_hist ck q cp sent st" and p: "ch_op_ok p"
  shows "\<exists>r st'. ch_exec ck p st = Some (r, st') \<and> ch_hist ck q cp (sent @ ch_sent (p, r)) st'
    \<and> same_channel (fst st) (fst st')"
proof -
  obtain ch held log where st: "st = (ch, held, log)" by (cases st)
  let ?get = "get_bytes sizeof_channel_elem (nat (ch_elem_size ch))"
  obtain H heldd logd where inv: "ch_inv ck q cp H ch" and fit: "list_all (\<lambda>w. int (length w) \<le> ch_elem_size ch) sent"
    and ok: "ioq.history_ok ck q cp (map (put_bytes sizeof_channel_elem) sent) (channel_ptr ch, heldd, logd)"
    and held: "held = map (\<lambda>(b, d). (b, ?get d)) heldd" and log: "log = map ?get logd"
    using hist by (auto simp: ch_hist_def st)
  show ?thesis
  proof (cases p)
    case (Ch_Send t w)
    have type: "ch_type ch = JBPF_IO_CHANNEL_QUEUE" using inv by (simp add: ch_inv_def)
    show ?thesis
    proof (cases "int (length w) \<le> ch_elem_size ch")
      case False
      then have "c_size (ch_elem_size ch) < length w" using inv by (auto simp: ch_inv_def c_size_def)
      then show ?thesis using Ch_Send hist type by (simp add: st jbpf_io_channel_send_data_def)
    next
      case True
      obtain r st' where
        e: "ioq.exec ck (Q_Send t (put_bytes sizeof_channel_elem w)) (channel_ptr ch, heldd, logd) = Some (r, st')"
        and h: "ioq.history_ok ck q cp (map (put_bytes sizeof_channel_elem) sent
          @ sent_by (Q_Send t (put_bytes sizeof_channel_elem w), r)) st'"
        using ioq.exec_ok [OF ok, of "Q_Send t (put_bytes sizeof_channel_elem w)"] p Ch_Send by auto
      then obtain ioq' where s: "ioq.send ck t (put_bytes sizeof_channel_elem w) (channel_ptr ch) = Some (r, ioq')"
        "st' = (ioq', heldd, logd)"
        by (auto split: bind_splits)
      obtain ch' where ch': "jbpf_io_channel_send_data ck t w ch = Some (r, ch')" "channel_ptr ch' = ioq'"
        "same_channel ch ch'"
        using send_data_fits [OF inv True s(1)] by blast
      have "ioq_inv ck q cp (mset (map fst heldd)) ioq'" using h s(2) by (simp add: ioq.history_ok_def)
      then have inv': "ch_inv ck q cp (mset (map fst heldd)) ch'"
        using ch_inv_same [OF inv ch'(3)] ch'(2) by simp
      have "ioq.history_ok ck q cp (map (put_bytes sizeof_channel_elem) (sent @ ch_sent (p, r))) (channel_ptr ch', heldd, logd)"
        using h s(2) ch'(2) Ch_Send by (simp split: if_splits)
      moreover have sz: "ch_elem_size ch' = ch_elem_size ch" using ch'(3) by (simp add: same_channel_def)
      moreover have "list_all (\<lambda>w. int (length w) \<le> ch_elem_size ch') (sent @ ch_sent (p, r))"
        using fit True Ch_Send sz by simp
      ultimately have "ch_hist ck q cp (sent @ ch_sent (p, r)) (ch', held, log)"
        using held log by (intro ch_histI [OF inv']) simp_all
      then show ?thesis using ch' Ch_Send by (simp add: st)
    qed
  next
    case (Ch_Recv n)
    obtain bs ch' where r: "recv_loop ck (nat n) ch = (bs, ch')" by (cases "recv_loop ck (nat n) ch")
    note h = recv_loop_hist [OF inv r ok]
    have sz: "ch_elem_size ch' = ch_elem_size ch" using h by (simp add: same_channel_def)
    have rd: "read_msg ch' b = ?get (ioq_data (channel_ptr ch') b)" for b
      by (simp add: read_msg_def chan_read_def sz)
    have "ch_hist ck q cp sent (ch', rev (map (\<lambda>b. (b, read_msg ch' b)) bs) @ held, log @ map (read_msg ch') bs)"
    proof (rule ch_histI)
      show "ch_inv ck q cp (mset bs + H) ch'" using h by blast
      show "list_all (\<lambda>w. int (length w) \<le> ch_elem_size ch') sent" using fit sz by simp
      show "ioq.history_ok ck q cp (map (put_bytes sizeof_channel_elem) sent) (channel_ptr ch',
        rev (map (\<lambda>b. (b, ioq_data (channel_ptr ch') b)) bs) @ heldd, logd @ map (ioq_data (channel_ptr ch')) bs)"
        using h by blast
    qed (simp_all add: held log sz rd rev_map)
    moreover have "ch_type ch = JBPF_IO_CHANNEL_QUEUE" using inv by (simp add: ch_inv_def)
    ultimately show ?thesis
      using Ch_Recv r h by (simp add: st jbpf_io_channel_recv_data_def)
  next
    case (Ch_Release b)
    have mo: "map_of held b = map_option ?get (map_of heldd b)"
      unfolding held by (induction heldd) auto
    show ?thesis
    proof (cases "map_of heldd b")
      case None
      then show ?thesis using Ch_Release hist mo by (simp add: st)
    next
      case (Some d)
      obtain r st' where e: "ioq.exec ck (Q_Release b) (channel_ptr ch, heldd, logd) = Some (r, st')"
        "ioq.history_ok ck q cp (map (put_bytes sizeof_channel_elem) sent) st'"
        using ioq.exec_ok [OF ok, of "Q_Release b"] by auto
      then obtain ioq' where s: "jbpf_io_queue_release ck (Some b) False (channel_ptr ch) = Some ioq'"
        "st' = (ioq', remove1 (b, d) heldd, logd)"
        using Some by (auto split: bind_splits)
      have "distinct (map fst heldd)" "(b, d) \<in> set heldd"
        using ok map_of_SomeD [OF Some] by (simp_all add: ioq.history_ok_def)
      then have rem: "remove1 (b, ?get d) held = map (\<lambda>(b, d). (b, ?get d)) (remove1 (b, d) heldd)"
        unfolding held
      proof (induction heldd)
        case (Cons x xs)
        show ?case
        proof (cases "x = (b, d)")
          case False
          then have mem: "(b, d) \<in> set xs" using Cons.prems(2) by simp
          then have "b \<in> fst ` set xs" by force
          then have "fst x \<noteq> b" using Cons.prems(1) by auto
          then show ?thesis using Cons False by (cases x) auto
        qed simp
      qed simp
      let ?ch = "ch\<lparr>channel_ptr := ioq'\<rparr>"
      have "ioq_inv ck q cp (mset (map fst (remove1 (b, d) heldd))) ioq'"
        using e(2) s(2) by (simp add: ioq.history_ok_def)
      then have "ch_inv ck q cp (mset (map fst (remove1 (b, d) heldd))) ?ch"
        using inv by (simp add: ch_inv_def)
      moreover have "ioq.history_ok ck q cp (map (put_bytes sizeof_channel_elem) sent)
          (channel_ptr ?ch, remove1 (b, d) heldd, logd)"
        using e(2) s(2) by simp
      ultimately have "ch_hist ck q cp sent (?ch, remove1 (b, ?get d) held, log)"
        using fit rem log by (intro ch_histI) simp_all
      then show ?thesis
        using Ch_Release mo Some s(1) by (simp add: st jbpf_io_channel_release_buf_def)
    qed
  qed
qed

lemma ch_run_ok:
  assumes "ch_hist ck q cp sent st" "list_all ch_op_ok ps"
  shows "\<exists>rs st'. ch_run ck ps st = Some (rs, st') \<and> ch_hist ck q cp (sent @ concat (map ch_sent (zip ps rs))) st'
    \<and> same_channel (fst st) (fst st')"
  using assms
proof (induction ps arbitrary: sent st)
  case (Cons p ps)
  obtain r st1 where 1: "ch_exec ck p st = Some (r, st1)" "ch_hist ck q cp (sent @ ch_sent (p, r)) st1"
    "same_channel (fst st) (fst st1)"
    using ch_exec_ok [OF Cons.prems(1), of p] Cons.prems(2) by auto
  then show ?case using Cons.IH [OF 1(2)] Cons.prems(2) same_channel_trans by fastforce
qed auto

lemma new_channel_hist:
  assumes "ck_ring_spec ck q cp" "0 \<le> n" "n + int JBPF_IO_MAX_NUM_THREADS < 2 ^ 30"
    "jbpf_io_queue_create ck ctx_ok alloc_ok ring_valid ring_ok n sz ty = (Some (channel_ptr ch), left)"
    "ch_type ch = JBPF_IO_CHANNEL_QUEUE" "0 \<le> ch_elem_size ch" "ch_elem_size ch < 2 ^ 31"
  shows "ch_inv ck q cp {#} ch" "ch_hist ck q cp [] (ch, [], [])"
proof -
  have "ioq_inv ck q cp {#} (channel_ptr ch)" "q (ioq_ring (channel_ptr ch)) = []"
    using queue_create_spec [OF assms(1-4)] by auto
  then show inv: "ch_inv ck q cp {#} ch" using assms(5-7) by (simp add: ch_inv_def)
  show "ch_hist ck q cp [] (ch, [], [])"
    using \<open>q (ioq_ring (channel_ptr ch)) = []\<close> inv
    by (intro ch_histI [OF inv, where heldd = "[]" and logd = "[]"]) (auto simp: ioq.history_ok_def ch_inv_def)
qed

text \<open>C6: On a channel whose queue has just been created, every sequence of sends by registered or
  unregistered threads, of receptions in batches and of releases runs without a fault; the messages
  received, followed by those still in the queue, are exactly those whose send returned 0, in that
  order; and a buffer that a consumer has received keeps its message until it is released.\<close>

theorem io_channel_fifo:
  assumes "ck_ring_spec ck q cp" and "0 \<le> n" and "n + int JBPF_IO_MAX_NUM_THREADS < 2 ^ 30"
    and "jbpf_io_queue_create ck ctx_ok alloc_ok ring_valid ring_ok n sz ty = (Some (channel_ptr ch), left)"
    and "ch_type ch = JBPF_IO_CHANNEL_QUEUE" and "0 \<le> ch_elem_size ch" and "ch_elem_size ch < 2 ^ 31"
    and "list_all ch_op_ok ps"
  shows "\<exists>rs ch' held log. ch_run ck ps (ch, [], []) = Some (rs, ch', held, log)
    \<and> list_all2 (\<lambda>w m. take (length w) m = w) (concat (map ch_sent (zip ps rs)))
        (log @ map (read_msg ch') (q (ioq_ring (channel_ptr ch'))))
    \<and> distinct (map fst held) \<and> (\<forall>(b, m) \<in> set held. read_msg ch' b = m)"
proof -
  obtain rs ch' held log where run: "ch_run ck ps (ch, [], []) = Some (rs, ch', held, log)"
    and h: "ch_hist ck q cp (concat (map ch_sent (zip ps rs))) (ch', held, log)"
    using ch_run_ok [OF new_channel_hist(2) [OF assms(1-7)] assms(8)] by auto
  let ?sent = "concat (map ch_sent (zip ps rs))"
  let ?get = "get_bytes sizeof_channel_elem (nat (ch_elem_size ch'))"
  obtain heldd logd where
    ok: "ioq.history_ok ck q cp (map (put_bytes sizeof_channel_elem) ?sent) (channel_ptr ch', heldd, logd)"
    and fit: "list_all (\<lambda>w. int (length w) \<le> ch_elem_size ch') ?sent"
    and held: "held = map (\<lambda>(b, d). (b, ?get d)) heldd" and log: "log = map ?get logd"
    using h by (auto simp: ch_hist_def)
  have rd: "read_msg ch' b = ?get (ioq_data (channel_ptr ch') b)" for b
    by (simp add: read_msg_def chan_read_def)
  then have rds: "map (read_msg ch') bs = map (\<lambda>b. ?get (ioq_data (channel_ptr ch') b)) bs" for bs
    by simp
  have "list_all2 (\<lambda>w d. \<exists>d0. d = put_bytes sizeof_channel_elem w d0) ?sent
      (logd @ map (ioq_data (channel_ptr ch')) (q (ioq_ring (channel_ptr ch'))))"
    using ok by (simp add: ioq.history_ok_def list_all2_map1)
  then have "list_all2 (\<lambda>w m. take (length w) m = w) ?sent
      (map ?get (logd @ map (ioq_data (channel_ptr ch')) (q (ioq_ring (channel_ptr ch')))))"
    unfolding list_all2_map2
  proof (rule list.rel_mono_strong)
    fix w d
    assume w: "w \<in> set ?sent" and "\<exists>d0. d = put_bytes sizeof_channel_elem w d0"
    moreover have "int (length w) \<le> ch_elem_size ch'" using fit w by (auto simp: list_all_iff)
    ultimately show "take (length w) (?get d) = w" by (auto simp: get_prefix)
  qed
  moreover have "distinct (map fst held)" "\<forall>(b, m) \<in> set held. read_msg ch' b = m"
    using ok unfolding held by (auto simp: ioq.history_ok_def comp_def case_prod_beta rd)
  ultimately show ?thesis
    using run by (simp add: log comp_def rds del: map_eq_conv)
qed

definition wit_channel :: "'r jbpf_io_queue_ctx \<Rightarrow> 'r jbpf_io_channel" where
  "wit_channel ioq = \<lparr> channel_ptr = ioq, ch_type = JBPF_IO_CHANNEL_QUEUE, ch_direction = JBPF_IO_CHANNEL_OUTPUT,
     primary_serde = \<lparr> serialize = None, deserialize = None \<rparr>, secondary_serde = \<lparr> serialize = None, deserialize = None \<rparr>,
     ch_stream_id = replicate 16 0, ch_elem_size = 4, elem_owner = (\<lambda>_. False) \<rparr>"

theorem io_channel_fifo_witness:
  "\<exists>ioq rs ch' held log. jbpf_io_queue_create list_ring True (\<lambda>_ _. True) (\<lambda>_. True) True 1 12 0 = (Some ioq, None)
    \<and> ch_run list_ring [Ch_Send 0 [1, 2], Ch_Send (- 1) [9], Ch_Send 1 [3], Ch_Recv 1, Ch_Send 0 [4], Ch_Release 0]
        (wit_channel ioq, [], []) = Some (rs, ch', held, log)
    \<and> list_all2 (\<lambda>w m. take (length w) m = w)
        (concat (map ch_sent (zip [Ch_Send 0 [1, 2], Ch_Send (- 1) [9], Ch_Send 1 [3], Ch_Recv 1, Ch_Send 0 [4], Ch_Release 0] rs)))
        (log @ map (read_msg ch') (fst (ioq_ring (channel_ptr ch'))))"
proof -
  obtain ioq where ioq: "jbpf_io_queue_create list_ring True (\<lambda>_ _. True) (\<lambda>_. True) True 1 12 0 = (Some ioq, None)"
    using queue_create_total [OF list_ring_spec, of 1 "\<lambda>_ _. True" "\<lambda>_. True" 12 0]
    by (auto simp: JBPF_IO_MAX_NUM_THREADS_def)
  have "\<exists>rs ch' held log. ch_run list_ring [Ch_Send 0 [1, 2], Ch_Send (- 1) [9], Ch_Send 1 [3], Ch_Recv 1, Ch_Send 0 [4], Ch_Release 0]
        (wit_channel ioq, [], []) = Some (rs, ch', held, log)
    \<and> list_all2 (\<lambda>w m. take (length w) m = w)
        (concat (map ch_sent (zip [Ch_Send 0 [1, 2], Ch_Send (- 1) [9], Ch_Send 1 [3], Ch_Recv 1, Ch_Send 0 [4], Ch_Release 0] rs)))
        (log @ map (read_msg ch') (fst (ioq_ring (channel_ptr ch'))))
    \<and> distinct (map fst held) \<and> (\<forall>(b, m) \<in> set held. read_msg ch' b = m)"
    by (rule io_channel_fifo [OF list_ring_spec, of 1 True "\<lambda>_ _. True" "\<lambda>_. True" True 12 0 "wit_channel ioq" None])
      (use ioq in \<open>simp_all add: wit_channel_def JBPF_IO_MAX_NUM_THREADS_def\<close>)
  then show ?thesis using ioq by blast
qed

section \<open>A single send, and receptions that copy\<close>

lemma send_data_inv:
  assumes inv: "ch_inv ck q cp H ch" and t: "t < int JBPF_IO_MAX_NUM_THREADS" and w: "int (length w) \<le> ch_elem_size ch"
  obtains (refused) ch' where "jbpf_io_channel_send_data ck t w ch = Some (- 1, ch')" "ch_inv ck q cp H ch'"
      "same_channel ch ch'" "q (ioq_ring (channel_ptr ch')) = q (ioq_ring (channel_ptr ch))"
      "0 \<le> t \<Longrightarrow> mine (channel_ptr ch) (nat t) = None
        \<and> card (ioq_used q H (channel_ptr ch)) = ioq_cap (channel_ptr ch)"
  | (sent) ch' b where "jbpf_io_channel_send_data ck t w ch = Some (0, ch')" "ch_inv ck q cp H ch'"
      "same_channel ch ch'" "q (ioq_ring (channel_ptr ch')) = q (ioq_ring (channel_ptr ch)) @ [b]"
      "0 \<le> t" "take (length w) (read_msg ch' b) = w"
      "mine (channel_ptr ch') = (mine (channel_ptr ch))(nat t := None)"
      "ioq_cap (channel_ptr ch') = ioq_cap (channel_ptr ch)"
      "mine (channel_ptr ch) (nat t) \<noteq> None \<or> card (ioq_used q H (channel_ptr ch)) < ioq_cap (channel_ptr ch)"
proof -
  have qinv: "ioq_inv ck q cp H (channel_ptr ch)" using inv by (simp add: ch_inv_def)
  let ?f = "put_bytes sizeof_channel_elem w"
  show thesis
  proof (cases rule: ioq.send_spec [OF qinv t, of ?f])
    case (1 ioq')
    obtain ch' where ch': "jbpf_io_channel_send_data ck t w ch = Some (- 1, ch')" "channel_ptr ch' = ioq'"
      "same_channel ch ch'"
      using send_data_fits [OF inv w 1(1)] by blast
    then show thesis
      using refused [of ch'] 1 ch_inv_same [OF inv ch'(3), of H] by (simp add: ioq.in_use_def ioq_used_def)
  next
    case (2 ioq' b d)
    obtain ch' where ch': "jbpf_io_channel_send_data ck t w ch = Some (0, ch')" "channel_ptr ch' = ioq'"
      "same_channel ch ch'"
      using send_data_fits [OF inv w 2(1)] by blast
    have "take (length w) (read_msg ch' b) = w"
      using ch'(2,3) 2(9) get_prefix [OF w] by (simp add: read_msg_def chan_read_def same_channel_def)
    then show thesis
      using sent [of ch' b] ch' 2 ch_inv_same [OF inv ch'(3), of H] by (simp add: ioq.in_use_def ioq_used_def)
  qed
qed

text \<open>A send returns 0 exactly when the message fits, the thread is registered, and the thread has a
  reserved buffer or some buffer of the pool is not in use; then exactly this message has been appended
  to the queue.  In every other case it returns -1 and the queue is unchanged.\<close>

theorem io_channel_send_branches:
  assumes "ch_inv ck q cp H ch" and "t < int JBPF_IO_MAX_NUM_THREADS"
  shows "\<exists>r ch'. jbpf_io_channel_send_data ck t w ch = Some (r, ch') \<and> ch_inv ck q cp H ch'
    \<and> (if int (length w) \<le> ch_elem_size ch \<and> 0 \<le> t
          \<and> (mine (channel_ptr ch) (nat t) \<noteq> None \<or> card (ioq_used q H (channel_ptr ch)) < ioq_cap (channel_ptr ch))
       then r = 0 \<and> (\<exists>b. q (ioq_ring (channel_ptr ch')) = q (ioq_ring (channel_ptr ch)) @ [b]
              \<and> take (length w) (read_msg ch' b) = w)
       else r = - 1 \<and> q (ioq_ring (channel_ptr ch')) = q (ioq_ring (channel_ptr ch)))"
proof (cases "int (length w) \<le> ch_elem_size ch")
  case True
  then show ?thesis
    by (cases rule: send_data_inv [OF assms True]) auto
next
  case False
  then have "c_size (ch_elem_size ch) < length w" using assms(1) by (auto simp: ch_inv_def c_size_def)
  then show ?thesis
    using assms(1) False by (simp add: jbpf_io_channel_send_data_def ch_inv_def)
qed

theorem io_channel_send_branches_witness:
  "\<exists>ioq r ch'. jbpf_io_queue_create list_ring True (\<lambda>_ _. True) (\<lambda>_. True) True 1 12 0 = (Some ioq, None)
    \<and> jbpf_io_channel_send_data list_ring 3 [1, 2, 3, 4, 5] (wit_channel ioq) = Some (r, ch') \<and> r = - 1"
proof -
  obtain ioq where ioq: "jbpf_io_queue_create list_ring True (\<lambda>_ _. True) (\<lambda>_. True) True 1 12 0 = (Some ioq, None)"
    using queue_create_total [OF list_ring_spec, of 1 "\<lambda>_ _. True" "\<lambda>_. True" 12 0]
    by (auto simp: JBPF_IO_MAX_NUM_THREADS_def)
  have "ch_inv list_ring fst snd {#} (wit_channel ioq)"
    by (rule new_channel_hist(1) [OF list_ring_spec, of 1 True "\<lambda>_ _. True" "\<lambda>_. True" True 12 0 _ None])
      (use ioq in \<open>simp_all add: wit_channel_def JBPF_IO_MAX_NUM_THREADS_def\<close>)
  from io_channel_send_branches [OF this, of 3 "[1, 2, 3, 4, 5]"] show ?thesis
    using ioq by (auto simp: wit_channel_def JBPF_IO_MAX_NUM_THREADS_def)
qed

text \<open>Rounds of a send and a reception that copies.\<close>

primrec copy_rounds ::
  "'r ck_ring_ops \<Rightarrow> int \<Rightarrow> bytes \<Rightarrow> nat \<Rightarrow> nat \<Rightarrow> 'r jbpf_io_channel \<Rightarrow> ((int \<times> int) list \<times> 'r jbpf_io_channel) option" where
  "copy_rounds ck t w sz 0 ch = Some ([], ch)"
| "copy_rounds ck t w sz (Suc n) ch = do {
     (r, ch) \<leftarrow> jbpf_io_channel_send_data ck t w ch;
     let (r', m, ch) = jbpf_io_channel_recv_data_copy ck sz ch;
     (rs, ch) \<leftarrow> copy_rounds ck t w sz n ch;
     Some ((r, r') # rs, ch)
   }"

lemma copy_round:
  assumes inv: "ch_inv ck q cp H ch" and t: "0 \<le> t" "t < int JBPF_IO_MAX_NUM_THREADS"
    and w: "int (length w) \<le> ch_elem_size ch" and sz: "ch_elem_size ch \<le> int sz"
    and q: "q (ioq_ring (channel_ptr ch)) = []" "mine (channel_ptr ch) = (\<lambda>_. None)"
    and lt: "card (set_mset H) < ioq_cap (channel_ptr ch)"
  obtains ch1 m ch2 b where "jbpf_io_channel_send_data ck t w ch = Some (0, ch1)"
    "jbpf_io_channel_recv_data_copy ck sz ch1 = (1, m, ch2)" "take (length w) m = w"
    "ch_inv ck q cp (add_mset b H) ch2" "b \<notin># H" "q (ioq_ring (channel_ptr ch2)) = []"
    "mine (channel_ptr ch2) = (\<lambda>_. None)" "ioq_cap (channel_ptr ch2) = ioq_cap (channel_ptr ch)" "same_channel ch ch2"
proof (cases rule: send_data_inv [OF inv t(2) w])
  case (1 ch')
  then show thesis using t(1) lt q by (simp add: ioq_used_def)
next
  case (2 ch1 b)
  have inv1: "ioq_inv ck q cp H (channel_ptr ch1)" using 2(2) by (simp add: ch_inv_def)
  show thesis
  proof (cases rule: ioq.receive_spec [OF inv1])
    case (1 ioq')
    then show thesis using 2(4) by simp
  next
    case rcv: (2 b' ioq')
    let ?ch2 = "ch1\<lparr>channel_ptr := ioq'\<rparr>"
    have b: "b' = b" "q (ioq_ring ioq') = []" using rcv(2) 2(4) q(1) by simp_all
    have size: "c_size (ch_elem_size ch1) = nat (ch_elem_size ch1)" "nat (ch_elem_size ch1) \<le> sz"
      using 2(2,3) sz by (simp_all add: ch_inv_def c_size_def same_channel_def)
    have "jbpf_io_channel_recv_data_copy ck sz ch1 = (1, read_msg ch1 b, ?ch2)"
      using rcv(1,4) b(1) size
      by (simp add: jbpf_io_channel_recv_data_copy_def read_msg_def chan_read_def)
    moreover have "ch_inv ck q cp (add_mset b H) ?ch2"
      using ch_inv_same [OF 2(2), of ?ch2 "add_mset b H"] rcv(3) b(1) by simp
    moreover have "same_channel ch ?ch2" using same_channel_trans [OF 2(3)] by simp
    moreover have "mine ioq' = (\<lambda>_. None)" using rcv(5) 2(7) q(2) by auto
    ultimately show thesis
      using that [of ch1 "read_msg ch1 b" ?ch2 b] 2 rcv b by simp
  qed
qed

lemma copy_rounds_spec:
  assumes "ch_inv ck q cp H ch" "0 \<le> t" "t < int JBPF_IO_MAX_NUM_THREADS"
    "int (length w) \<le> ch_elem_size ch" "ch_elem_size ch \<le> int sz"
    "q (ioq_ring (channel_ptr ch)) = []" "mine (channel_ptr ch) = (\<lambda>_. None)"
    "card (set_mset H) + n \<le> ioq_cap (channel_ptr ch)"
  shows "\<exists>ch' H'. copy_rounds ck t w sz n ch = Some (replicate n (0, 1), ch') \<and> ch_inv ck q cp H' ch'
    \<and> card (set_mset H') = card (set_mset H) + n \<and> q (ioq_ring (channel_ptr ch')) = []
    \<and> mine (channel_ptr ch') = (\<lambda>_. None) \<and> ioq_cap (channel_ptr ch') = ioq_cap (channel_ptr ch) \<and> same_channel ch ch'"
  using assms
proof (induction n arbitrary: ch H)
  case (Suc n)
  have "card (set_mset H) < ioq_cap (channel_ptr ch)" using Suc.prems(8) by simp
  from copy_round [OF Suc.prems(1-7) this] obtain ch1 m ch2 b where r:
    "jbpf_io_channel_send_data ck t w ch = Some (0, ch1)" "jbpf_io_channel_recv_data_copy ck sz ch1 = (1, m, ch2)"
    "ch_inv ck q cp (add_mset b H) ch2" "b \<notin># H" "q (ioq_ring (channel_ptr ch2)) = []"
    "mine (channel_ptr ch2) = (\<lambda>_. None)" "ioq_cap (channel_ptr ch2) = ioq_cap (channel_ptr ch)" "same_channel ch ch2" .
  have sz: "ch_elem_size ch2 = ch_elem_size ch" using r(8) by (simp add: same_channel_def)
  have "\<exists>ch' H'. copy_rounds ck t w sz n ch2 = Some (replicate n (0, 1), ch') \<and> ch_inv ck q cp H' ch'
    \<and> card (set_mset H') = card (set_mset (add_mset b H)) + n \<and> q (ioq_ring (channel_ptr ch')) = []
    \<and> mine (channel_ptr ch') = (\<lambda>_. None) \<and> ioq_cap (channel_ptr ch') = ioq_cap (channel_ptr ch2) \<and> same_channel ch2 ch'"
    using Suc.prems r sz by (intro Suc.IH) simp_all
  then show ?case using r same_channel_trans [OF r(8)] by auto
qed auto



end
