(* ===== verification/Io_Registry.thy ===== *)
theory Io_Registry
  imports Io_Channel Ck_Ht
begin

text \<open>
  The channels of an I/O context: the lists of input and output channels of
  \<open>src/io/jbpf_io_channel.c\<close>, each a hash table from stream identifiers and an array of slots, and the
  operations of \<open>src/io/jbpf_io.c\<close> that create, find and destroy channels.  A channel pointer is an
  address of \<open>chan_mem\<close>, where the channel is while it is allocated; the addresses that allocations
  return, the outcome of allocations, the loader of libraries and the hash table are parameters.
\<close>

section \<open>Stream identifiers as strings\<close>

text \<open>\<open>hex\<close> is indexed with \<open>(*pin >> 4) & 0xF\<close> of a character; the result is the code and the
  characters written, the terminating zero left out.\<close>

definition hex_digit :: "u8 \<Rightarrow> char" where
  "hex_digit n = ''0123456789abcdef'' ! unat (n AND 0xF)"

definition jbpf_io_tohex_str :: "bytes \<Rightarrow> nat \<Rightarrow> int \<times> string" where
  "jbpf_io_tohex_str inp outsz =
    (if outsz < length inp * 2 + 1 then (- 1, [])
     else (0, concat (map (\<lambda>c. [hex_digit (drop_bit 4 c), hex_digit c]) inp)))"

section \<open>The state\<close>

definition JBPF_IO_MAX_NUM_CHANNELS :: nat where
  "JBPF_IO_MAX_NUM_CHANNELS = 512"

definition JBPF_IO_MAX_DESCRIPTOR_SIZE :: nat where
  "JBPF_IO_MAX_DESCRIPTOR_SIZE = 1048560"

datatype jbpf_io_type = JBPF_IO_LOCAL_PRIMARY | JBPF_IO_IPC_PRIMARY | JBPF_IO_IPC_SECONDARY | JBPF_IO_UNKNOWN

text \<open>The lists of input and of output channels have the same fields: \<open>dl_ht\<close> is \<open>in_ht\<close> or \<open>out_ht\<close>,
  \<open>dl_array\<close> is \<open>in_array\<close> or \<open>out_array\<close>, \<open>dl_num\<close> is \<open>num_in_channels\<close> or \<open>num_out_channels\<close>.\<close>

record 'h jbpf_io_dir_list =
  dl_ht :: 'h
  dl_array :: "nat option list"
  dl_num :: int

text \<open>\<open>left_pools\<close> are pools that outlive the channel at an address, until the last of their buffers is
  released.\<close>

record ('h, 'r) jbpf_io_ctx =
  io_type :: jbpf_io_type
  in_channel_list :: "'h jbpf_io_dir_list"
  out_channel_list :: "'h jbpf_io_dir_list"
  chan_mem :: "nat \<Rightarrow> 'r jbpf_io_channel option"
  left_pools :: "(nat \<times> 'r jbpf_mempool) list"

record jbpf_io_channel_request =
  rq_elem_size :: u32
  rq_num_elems :: u32
  rq_direction :: nat
  rq_type :: jbpf_io_channel_type
  rq_stream_id :: bytes
  rq_descriptor :: bytes

text \<open>What is outside the sources: where the channel is allocated, if it is, whether the blocks of its
  queue are, and the loader: \<open>env_open\<close>, \<open>env_write\<close> and \<open>env_load\<close> are \<open>_jbpf_io_open_mem_fd\<close>,
  \<open>_jbpf_io_write_lib\<close> and \<open>_jbpf_io_load_lib\<close> with \<open>dlsym\<close>.\<close>

record io_env =
  env_chan :: "nat option"
  env_ctx_ok :: bool
  env_alloc :: "bool \<Rightarrow> pool_block \<Rightarrow> bool"
  env_ring_valid :: "nat \<Rightarrow> bool"
  env_ring_ok :: bool
  env_open :: "string \<Rightarrow> bool"
  env_write :: "bytes \<Rightarrow> bool"
  env_load :: "string \<Rightarrow> bytes \<Rightarrow> jbpf_io_serde option"

definition channel_list :: "bool \<Rightarrow> ('h, 'r) jbpf_io_ctx \<Rightarrow> 'h jbpf_io_dir_list" where
  "channel_list is_output ctx = (if is_output then out_channel_list ctx else in_channel_list ctx)"

definition upd_channel_list ::
  "bool \<Rightarrow> 'h jbpf_io_dir_list \<Rightarrow> ('h, 'r) jbpf_io_ctx \<Rightarrow> ('h, 'r) jbpf_io_ctx" where
  "upd_channel_list is_output dl ctx =
    (if is_output then ctx\<lparr>out_channel_list := dl\<rparr> else ctx\<lparr>in_channel_list := dl\<rparr>)"

section \<open>The operations\<close>

text \<open>The two allocations and the two tables of the lists of channels.\<close>

definition jbpf_io_channel_list_init ::
  "(bytes, nat, 'h) ck_ht_ops \<Rightarrow> bool \<Rightarrow> bool \<Rightarrow> ('h, 'r) jbpf_io_ctx \<Rightarrow> int \<times> ('h, 'r) jbpf_io_ctx" where
  "jbpf_io_channel_list_init ht in_ok out_ok ctx =
    (if io_type ctx \<noteq> JBPF_IO_IPC_PRIMARY \<and> io_type ctx \<noteq> JBPF_IO_LOCAL_PRIMARY then (- 1, ctx)
     else if \<not> in_ok then (- 1, ctx)
     else if \<not> out_ok then (- 1, ctx)
     else case ck_ht_init ht JBPF_IO_MAX_NUM_CHANNELS of
       None \<Rightarrow> (- 1, ctx)
     | Some h \<Rightarrow>
        (case ck_ht_init ht JBPF_IO_MAX_NUM_CHANNELS of
           None \<Rightarrow> (- 1, ctx)
         | Some h' \<Rightarrow>
            (0, ctx\<lparr>
              out_channel_list := \<lparr> dl_ht = h, dl_array = replicate JBPF_IO_MAX_NUM_CHANNELS None, dl_num = 0 \<rparr>,
              in_channel_list := \<lparr> dl_ht = h', dl_array = replicate JBPF_IO_MAX_NUM_CHANNELS None, dl_num = 0 \<rparr>\<rparr>)))"

definition jbpf_io_channel_exists ::
  "(bytes, nat, 'h) ck_ht_ops \<Rightarrow> ('h, 'r) jbpf_io_ctx \<Rightarrow> bytes \<Rightarrow> bool \<Rightarrow> nat option" where
  "jbpf_io_channel_exists ht ctx stream_id is_output = ck_ht_get ht (dl_ht (channel_list is_output ctx)) stream_id"

definition jbpf_io_load_serde :: "io_env \<Rightarrow> bytes \<Rightarrow> bytes \<Rightarrow> jbpf_io_serde option" where
  "jbpf_io_load_serde env stream_id lib =
    (if length lib > 0 then
       let name = ''serde_memfd_'' @ snd (jbpf_io_tohex_str stream_id (JBPF_IO_STREAM_ID_LEN * 3)) in
       if \<not> env_open env name then None
       else if \<not> env_write env lib then None
       else env_load env name lib
     else Some \<lparr> serialize = None, deserialize = None \<rparr>)"

text \<open>The loop that puts a channel in the first free slot.\<close>

fun take_slot :: "nat \<Rightarrow> nat option list \<Rightarrow> (nat option list) option" where
  "take_slot p [] = None"
| "take_slot p (None # xs) = Some (Some p # xs)"
| "take_slot p (Some x # xs) = map_option (Cons (Some x)) (take_slot p xs)"

definition add_channel ::
  "(bytes, nat, 'h) ck_ht_ops \<Rightarrow> nat \<Rightarrow> bytes \<Rightarrow> 'h jbpf_io_dir_list \<Rightarrow> 'h jbpf_io_dir_list" where
  "add_channel ht p stream_id dl =
    (let dl = dl\<lparr>dl_ht := snd (ck_ht_put ht (dl_ht dl) stream_id p)\<rparr> in
     case take_slot p (dl_array dl) of
       None \<Rightarrow> dl
     | Some xs \<Rightarrow> dl\<lparr>dl_array := xs, dl_num := dl_num dl + 1\<rparr>)"

text \<open>The part of the creation that follows the checks, for a channel allocated at \<open>p\<close>.\<close>

definition build_channel ::
  "(bytes, nat, 'h) ck_ht_ops \<Rightarrow> 'r ck_ring_ops \<Rightarrow> io_env \<Rightarrow> jbpf_io_channel_request \<Rightarrow> nat
    \<Rightarrow> ('h, 'r) jbpf_io_ctx \<Rightarrow> (nat option \<times> ('h, 'r) jbpf_io_ctx) option" where
  "build_channel ht ck env req p ctx =
    (let elem_sz = c_int (uint (rq_elem_size req) + int sizeof_channel_elem);
         is_output = (rq_direction req = JBPF_IO_CHANNEL_OUTPUT);
         (ioq, lost) = jbpf_io_queue_create ck (env_ctx_ok env) (env_alloc env) (env_ring_valid env) (env_ring_ok env)
           (c_int (uint (rq_num_elems req))) elem_sz (rq_direction req)
     in case ioq of
          None \<Rightarrow> Some (None, ctx\<lparr>left_pools := (case lost of None \<Rightarrow> [] | Some mp \<Rightarrow> [(p, mp)]) @ left_pools ctx\<rparr>)
        | Some ioq \<Rightarrow>
           (case jbpf_io_load_serde env (rq_stream_id req) (rq_descriptor req) of
              None \<Rightarrow> do {
                mp \<leftarrow> jbpf_io_queue_free ck ioq;
                Some (None, ctx\<lparr>left_pools := (if mp_freed mp then [] else [(p, mp)]) @ left_pools ctx\<rparr>)
              }
            | Some serde \<Rightarrow>
               let ch = \<lparr> channel_ptr = ioq, ch_type = JBPF_IO_CHANNEL_QUEUE, ch_direction = rq_direction req,
                      primary_serde = serde, secondary_serde = \<lparr> serialize = None, deserialize = None \<rparr>,
                      ch_stream_id = rq_stream_id req, ch_elem_size = c_int (uint (rq_elem_size req)),
                      elem_owner = (\<lambda>_. False) \<rparr>
               in Some (Some p, upd_channel_list is_output
                    (add_channel ht p (rq_stream_id req) (channel_list is_output ctx))
                    (ctx\<lparr>chan_mem := (chan_mem ctx)(p \<mapsto> ch)\<rparr>))))"

definition io_create_channel ::
  "(bytes, nat, 'h) ck_ht_ops \<Rightarrow> 'r ck_ring_ops \<Rightarrow> io_env \<Rightarrow> jbpf_io_channel_request
    \<Rightarrow> ('h, 'r) jbpf_io_ctx \<Rightarrow> (nat option \<times> ('h, 'r) jbpf_io_ctx) option" where
  "io_create_channel ht ck env req ctx =
    (if rq_direction req \<noteq> JBPF_IO_CHANNEL_INPUT \<and> rq_direction req \<noteq> JBPF_IO_CHANNEL_OUTPUT then Some (None, ctx)
     else
       let is_output = (rq_direction req = JBPF_IO_CHANNEL_OUTPUT) in
       if dl_num (channel_list is_output ctx) \<ge> int JBPF_IO_MAX_NUM_CHANNELS then Some (None, ctx)
       else if jbpf_io_channel_exists ht ctx (rq_stream_id req) is_output \<noteq> None then Some (None, ctx)
       else case env_chan env of
         None \<Rightarrow> Some (None, ctx)
       | Some p \<Rightarrow>
          if is_output \<and> (rq_type req = JBPF_IO_CHANNEL_QUEUE \<or> rq_type req = JBPF_IO_CHANNEL_RINGBUF)
             \<or> \<not> is_output \<and> rq_type req = JBPF_IO_CHANNEL_QUEUE
          then build_channel ht ck env req p ctx
          else Some (None, ctx))"

text \<open>The destructor that the epoch mechanism runs once no thread can see the channel.\<close>

definition io_channel_destructor ::
  "'r ck_ring_ops \<Rightarrow> nat \<Rightarrow> ('h, 'r) jbpf_io_ctx \<Rightarrow> ('h, 'r) jbpf_io_ctx option" where
  "io_channel_destructor ck p ctx = do {
     ch \<leftarrow> chan_mem ctx p;
     mp \<leftarrow> jbpf_io_queue_free ck (channel_ptr ch);
     Some (ctx\<lparr>chan_mem := (chan_mem ctx)(p := None),
       left_pools := (if mp_freed mp then [] else [(p, mp)]) @ left_pools ctx\<rparr>)
   }"

text \<open>The loop that clears the slot of a channel.\<close>

fun drop_slot :: "nat \<Rightarrow> nat option list \<Rightarrow> (nat option list) option" where
  "drop_slot p [] = None"
| "drop_slot p (x # xs) = (if x = Some p then Some (None # xs) else map_option (Cons x) (drop_slot p xs))"

definition remove_channel ::
  "(bytes, nat, 'h) ck_ht_ops \<Rightarrow> nat \<Rightarrow> bytes \<Rightarrow> 'h jbpf_io_dir_list \<Rightarrow> 'h jbpf_io_dir_list" where
  "remove_channel ht p stream_id dl =
    (let dl = (case drop_slot p (dl_array dl) of
         None \<Rightarrow> dl
       | Some xs \<Rightarrow> dl\<lparr>dl_array := xs, dl_num := dl_num dl - 1\<rparr>)
     in dl\<lparr>dl_ht := snd (ck_ht_remove ht (dl_ht dl) stream_id)\<rparr>)"

text \<open>\<open>jbpf_io_destroy_out_channel\<close> and \<open>jbpf_io_destroy_in_channel\<close>.\<close>

definition jbpf_io_destroy_dir_channel ::
  "(bytes, nat, 'h) ck_ht_ops \<Rightarrow> 'r ck_ring_ops \<Rightarrow> bool \<Rightarrow> nat \<Rightarrow> ('h, 'r) jbpf_io_ctx
    \<Rightarrow> ('h, 'r) jbpf_io_ctx option" where
  "jbpf_io_destroy_dir_channel ht ck is_output p ctx = do {
     ch \<leftarrow> chan_mem ctx p;
     let ctx = upd_channel_list is_output (remove_channel ht p (ch_stream_id ch) (channel_list is_output ctx)) ctx;
     io_channel_destructor ck p ctx
   }"

text \<open>The operations for the clients of a local primary.  For the other kinds of context the calls are
  requests to a control thread, \<open>ipc_create\<close>, \<open>ipc_destroy\<close> and \<open>ipc_find\<close>.\<close>

definition jbpf_io_create_channel ::
  "(bytes, nat, 'h) ck_ht_ops \<Rightarrow> 'r ck_ring_ops
    \<Rightarrow> (jbpf_io_channel_request \<Rightarrow> ('h, 'r) jbpf_io_ctx \<Rightarrow> (nat option \<times> ('h, 'r) jbpf_io_ctx) option)
    \<Rightarrow> io_env \<Rightarrow> nat \<Rightarrow> jbpf_io_channel_type \<Rightarrow> int \<Rightarrow> int \<Rightarrow> bytes \<Rightarrow> bytes
    \<Rightarrow> ('h, 'r) jbpf_io_ctx \<Rightarrow> (nat option \<times> ('h, 'r) jbpf_io_ctx) option" where
  "jbpf_io_create_channel ht ck ipc_create env direction type num_el elem_sz stream_id descriptor ctx =
    (let req = \<lparr> rq_elem_size = word_of_int elem_sz, rq_num_elems = word_of_int num_el, rq_direction = direction,
           rq_type = type, rq_stream_id = stream_id, rq_descriptor = descriptor \<rparr>
     in case io_type ctx of
          JBPF_IO_IPC_PRIMARY \<Rightarrow> ipc_create req ctx
        | JBPF_IO_IPC_SECONDARY \<Rightarrow> ipc_create req ctx
        | JBPF_IO_LOCAL_PRIMARY \<Rightarrow>
            if length descriptor > JBPF_IO_MAX_DESCRIPTOR_SIZE then Some (None, ctx)
            else io_create_channel ht ck env req ctx
        | JBPF_IO_UNKNOWN \<Rightarrow> Some (None, ctx))"

definition jbpf_io_destroy_channel ::
  "(bytes, nat, 'h) ck_ht_ops \<Rightarrow> 'r ck_ring_ops
    \<Rightarrow> (nat \<Rightarrow> ('h, 'r) jbpf_io_ctx \<Rightarrow> ('h, 'r) jbpf_io_ctx option)
    \<Rightarrow> nat \<Rightarrow> ('h, 'r) jbpf_io_ctx \<Rightarrow> ('h, 'r) jbpf_io_ctx option" where
  "jbpf_io_destroy_channel ht ck ipc_destroy p ctx = do {
     ch \<leftarrow> chan_mem ctx p;
     ch \<leftarrow> jbpf_io_channel_release_all_buf ck ch;
     let ctx = ctx\<lparr>chan_mem := (chan_mem ctx)(p \<mapsto> ch)\<rparr>;
     (case io_type ctx of
        JBPF_IO_IPC_PRIMARY \<Rightarrow> ipc_destroy p ctx
      | JBPF_IO_IPC_SECONDARY \<Rightarrow> ipc_destroy p ctx
      | JBPF_IO_LOCAL_PRIMARY \<Rightarrow>
          if ch_direction ch = JBPF_IO_CHANNEL_OUTPUT then jbpf_io_destroy_dir_channel ht ck True p ctx
          else if ch_direction ch = JBPF_IO_CHANNEL_INPUT then jbpf_io_destroy_dir_channel ht ck False p ctx
          else Some ctx
      | JBPF_IO_UNKNOWN \<Rightarrow> Some ctx)
   }"

definition jbpf_io_find_channel ::
  "(bytes, nat, 'h) ck_ht_ops \<Rightarrow> (bytes \<Rightarrow> bool \<Rightarrow> nat option) \<Rightarrow> bytes \<Rightarrow> bool
    \<Rightarrow> ('h, 'r) jbpf_io_ctx \<Rightarrow> nat option" where
  "jbpf_io_find_channel ht ipc_find stream_id is_output ctx =
    (case io_type ctx of
       JBPF_IO_IPC_PRIMARY \<Rightarrow> jbpf_io_channel_exists ht ctx stream_id is_output
     | JBPF_IO_LOCAL_PRIMARY \<Rightarrow> jbpf_io_channel_exists ht ctx stream_id is_output
     | JBPF_IO_IPC_SECONDARY \<Rightarrow> ipc_find stream_id is_output
     | JBPF_IO_UNKNOWN \<Rightarrow> None)"

text \<open>A message for the input channel of a stream.\<close>

definition jbpf_io_channel_send_msg ::
  "(bytes, nat, 'h) ck_ht_ops \<Rightarrow> 'r ck_ring_ops \<Rightarrow> int \<Rightarrow> bytes \<Rightarrow> bytes \<Rightarrow> ('h, 'r) jbpf_io_ctx
    \<Rightarrow> (int \<times> ('h, 'r) jbpf_io_ctx) option" where
  "jbpf_io_channel_send_msg ht ck tid stream_id data ctx =
    (if io_type ctx = JBPF_IO_IPC_SECONDARY then Some (- 1, ctx)
     else case ck_ht_get ht (dl_ht (in_channel_list ctx)) stream_id of
       None \<Rightarrow> Some (- 1, ctx)
     | Some p \<Rightarrow> do {
         ch \<leftarrow> chan_mem ctx p;
         (r, ch) \<leftarrow> jbpf_io_channel_send_data ck tid data ch;
         Some (r, ctx\<lparr>chan_mem := (chan_mem ctx)(p \<mapsto> ch)\<rparr>)
       })"

definition JBPF_IO_BUFS_BATCH_SIZE :: int where
  "JBPF_IO_BUFS_BATCH_SIZE = 10"

text \<open>The poll of the output channels, slot by slot: up to ten buffers of each go to the handler, with the
  channel and the state \<open>u\<close> of the handler.\<close>

fun poll_slots ::
  "'r ck_ring_ops \<Rightarrow> (nat \<Rightarrow> nat list \<Rightarrow> 'u \<times> ('h, 'r) jbpf_io_ctx \<Rightarrow> ('u \<times> ('h, 'r) jbpf_io_ctx) option)
    \<Rightarrow> nat option list \<Rightarrow> 'u \<times> ('h, 'r) jbpf_io_ctx \<Rightarrow> ('u \<times> ('h, 'r) jbpf_io_ctx) option" where
  "poll_slots ck handler [] (u, ctx) = Some (u, ctx)"
| "poll_slots ck handler (None # ps) (u, ctx) = poll_slots ck handler ps (u, ctx)"
| "poll_slots ck handler (Some p # ps) (u, ctx) = do {
     ch \<leftarrow> chan_mem ctx p;
     let (recv, bs, ch) = jbpf_io_channel_recv_data ck JBPF_IO_BUFS_BATCH_SIZE ch;
     let ctx = ctx\<lparr>chan_mem := (chan_mem ctx)(p \<mapsto> ch)\<rparr>;
     st \<leftarrow> (if recv > 0 then handler p bs (u, ctx) else Some (u, ctx));
     poll_slots ck handler ps st
   }"

definition jbpf_io_channel_handle_out_bufs ::
  "'r ck_ring_ops \<Rightarrow> (nat \<Rightarrow> nat list \<Rightarrow> 'u \<times> ('h, 'r) jbpf_io_ctx \<Rightarrow> ('u \<times> ('h, 'r) jbpf_io_ctx) option)
    \<Rightarrow> 'u \<times> ('h, 'r) jbpf_io_ctx \<Rightarrow> ('u \<times> ('h, 'r) jbpf_io_ctx) option" where
  "jbpf_io_channel_handle_out_bufs ck handler st =
    (if io_type (snd st) = JBPF_IO_IPC_SECONDARY then Some st
     else poll_slots ck handler (dl_array (out_channel_list (snd st))) st)"

text \<open>The handler of the core library: the callback of the application sees the messages, then the
  buffers are released.\<close>

fun release_bufs ::
  "'r ck_ring_ops \<Rightarrow> nat \<Rightarrow> nat list \<Rightarrow> ('h, 'r) jbpf_io_ctx \<Rightarrow> ('h, 'r) jbpf_io_ctx option" where
  "release_bufs ck p [] ctx = Some ctx"
| "release_bufs ck p (b # bs) ctx = do {
     ch \<leftarrow> chan_mem ctx p;
     ch \<leftarrow> jbpf_io_channel_release_buf ck b ch;
     release_bufs ck p bs (ctx\<lparr>chan_mem := (chan_mem ctx)(p \<mapsto> ch)\<rparr>)
   }"

definition jbpf_process_output_data ::
  "'r ck_ring_ops \<Rightarrow> (bytes \<Rightarrow> bytes list \<Rightarrow> 'u \<Rightarrow> 'u) \<Rightarrow> nat \<Rightarrow> nat list
    \<Rightarrow> 'u \<times> ('h, 'r) jbpf_io_ctx \<Rightarrow> ('u \<times> ('h, 'r) jbpf_io_ctx) option" where
  "jbpf_process_output_data ck output_cb p bs st = do {
     let (u, ctx) = st;
     ch \<leftarrow> chan_mem ctx p;
     let u = output_cb (ch_stream_id ch) (map (read_msg ch) bs) u;
     ctx \<leftarrow> release_bufs ck p bs ctx;
     Some (u, ctx)
   }"

definition jbpf_handle_out_bufs ::
  "'r ck_ring_ops \<Rightarrow> (bytes \<Rightarrow> bytes list \<Rightarrow> 'u \<Rightarrow> 'u) \<Rightarrow> 'u \<times> ('h, 'r) jbpf_io_ctx
    \<Rightarrow> ('u \<times> ('h, 'r) jbpf_io_ctx) option" where
  "jbpf_handle_out_bufs ck output_cb st =
    (if io_type (snd st) = JBPF_IO_IPC_SECONDARY then Some st
     else jbpf_io_channel_handle_out_bufs ck (jbpf_process_output_data ck output_cb) st)"

text \<open>The decoding of a message: the buffer it is in, no buffer, or, without a deserialiser, a pointer
  that has never been set.\<close>

datatype unpack_result = Unpack_Null | Unpack_Buf nat | Unpack_Uninit

definition jbpf_io_channel_unpack_msg ::
  "(bytes, nat, 'h) ck_ht_ops \<Rightarrow> 'r ck_ring_ops \<Rightarrow> (bytes \<Rightarrow> bool \<Rightarrow> nat option) \<Rightarrow> int \<Rightarrow> bytes
    \<Rightarrow> ('h, 'r) jbpf_io_ctx \<Rightarrow> (unpack_result \<times> ('h, 'r) jbpf_io_ctx) option" where
  "jbpf_io_channel_unpack_msg ht ck ipc_find tid in_data ctx =
    (if length in_data < JBPF_IO_STREAM_ID_LEN then None
     else
       let stream_id = take JBPF_IO_STREAM_ID_LEN in_data;
           found = (case jbpf_io_find_channel ht ipc_find stream_id True ctx of
               Some p \<Rightarrow> Some p
             | None \<Rightarrow> jbpf_io_find_channel ht ipc_find stream_id False ctx)
       in case found of
            None \<Rightarrow> Some (Unpack_Null, ctx)
          | Some p \<Rightarrow> do {
              ch \<leftarrow> chan_mem ctx p;
              let serde = (if io_type ctx = JBPF_IO_IPC_PRIMARY \<or> io_type ctx = JBPF_IO_LOCAL_PRIMARY
                           then primary_serde ch else secondary_serde ch);
              (case deserialize serde of
                 None \<Rightarrow> Some (Unpack_Uninit, ctx)
               | Some des \<Rightarrow> do {
                   (buf, ch) \<leftarrow> jbpf_io_channel_reserve_buf ck tid ch;
                   (case buf of
                      None \<Rightarrow> Some (Unpack_Null, ctx\<lparr>chan_mem := (chan_mem ctx)(p \<mapsto> ch)\<rparr>)
                    | Some b \<Rightarrow>
                       let payload_size = c_int (int (length in_data) - int JBPF_IO_STREAM_ID_LEN);
                           (decode_succ, out) = des (drop JBPF_IO_STREAM_ID_LEN in_data) payload_size (ch_elem_size ch);
                           ch = chan_write b out ch
                       in if decode_succ \<noteq> 0
                          then Some (Unpack_Buf b, ctx\<lparr>chan_mem := (chan_mem ctx)(p \<mapsto> ch)\<rparr>)
                          else do {
                            ch \<leftarrow> jbpf_io_channel_release_buf ck b ch;
                            Some (Unpack_Null, ctx\<lparr>chan_mem := (chan_mem ctx)(p \<mapsto> ch)\<rparr>)
                          })
                 })
            })"

section \<open>The lists agree with the channels\<close>

definition slots :: "nat option list \<Rightarrow> nat list" where
  "slots xs = map the (filter (\<lambda>x. x \<noteq> None) xs)"

lemma slots_simps [simp]: "slots [] = []" "slots (None # xs) = slots xs" "slots (Some p # xs) = p # slots xs"
  by (simp_all add: slots_def)

lemma slots_replicate_None [simp]: "slots (replicate n None) = []"
  by (induction n) simp_all

lemma take_slot_None: "take_slot p xs = None \<longleftrightarrow> length (slots xs) = length xs"
proof (induction p xs rule: take_slot.induct)
  case (2 p xs)
  have "length (slots xs) \<le> length xs" by (simp add: slots_def)
  then show ?case by simp
qed auto

lemma take_slot_Some:
  "take_slot p xs = Some ys \<Longrightarrow> length ys = length xs \<and> mset (slots ys) = add_mset p (mset (slots xs))"
  by (induction p xs arbitrary: ys rule: take_slot.induct) auto

lemma drop_slot_Some:
  "p \<in> set (slots xs) \<Longrightarrow> \<exists>ys. drop_slot p xs = Some ys \<and> length ys = length xs
     \<and> mset (slots xs) = add_mset p (mset (slots ys))"
proof (induction xs)
  case (Cons x xs)
  show ?case
  proof (cases x)
    case None
    then show ?thesis using Cons by auto
  next
    case (Some p')
    then show ?thesis using Cons by (cases "p' = p") auto
  qed
qed simp

definition dl_inv ::
  "(bytes, nat, 'h) ck_ht_ops \<Rightarrow> bool \<Rightarrow> (nat \<Rightarrow> 'r jbpf_io_channel option) \<Rightarrow> 'h jbpf_io_dir_list \<Rightarrow> bool" where
  "dl_inv ht out mem dl \<longleftrightarrow>
    length (dl_array dl) = JBPF_IO_MAX_NUM_CHANNELS \<and> distinct (slots (dl_array dl))
    \<and> dl_num dl = int (length (slots (dl_array dl)))
    \<and> (\<forall>p. p \<in> set (slots (dl_array dl)) \<longleftrightarrow> (\<exists>ch. mem p = Some ch \<and> (ch_direction ch = JBPF_IO_CHANNEL_OUTPUT) = out))
    \<and> (\<forall>sid p. ck_ht_get ht (dl_ht dl) sid = Some p \<longleftrightarrow>
         (\<exists>ch. mem p = Some ch \<and> (ch_direction ch = JBPF_IO_CHANNEL_OUTPUT) = out \<and> ch_stream_id ch = sid))"

definition mem_inv ::
  "'r ck_ring_ops \<Rightarrow> ('r \<Rightarrow> nat list) \<Rightarrow> ('r \<Rightarrow> nat) \<Rightarrow> (nat \<Rightarrow> nat multiset) \<Rightarrow> (nat \<Rightarrow> 'r jbpf_io_channel option) \<Rightarrow> bool" where
  "mem_inv ck q cp H mem \<longleftrightarrow> (\<forall>p ch. mem p = Some ch \<longrightarrow> ch_inv ck q cp (H p) ch
    \<and> (ch_direction ch = JBPF_IO_CHANNEL_OUTPUT \<or> ch_direction ch = JBPF_IO_CHANNEL_INPUT))"

text \<open>\<open>H p\<close> are the references that the consumers of the channel at \<open>p\<close> hold.\<close>

definition reg_inv ::
  "(bytes, nat, 'h) ck_ht_ops \<Rightarrow> 'r ck_ring_ops \<Rightarrow> ('r \<Rightarrow> nat list) \<Rightarrow> ('r \<Rightarrow> nat) \<Rightarrow> (nat \<Rightarrow> nat multiset)
    \<Rightarrow> ('h, 'r) jbpf_io_ctx \<Rightarrow> bool" where
  "reg_inv ht ck q cp H ctx \<longleftrightarrow> (\<forall>out. dl_inv ht out (chan_mem ctx) (channel_list out ctx)) \<and> mem_inv ck q cp H (chan_mem ctx)"

lemma channel_list_upd [simp]:
  "channel_list out (upd_channel_list out' dl ctx) = (if out = out' then dl else channel_list out ctx)"
  "chan_mem (upd_channel_list out' dl ctx) = chan_mem ctx"
  "left_pools (upd_channel_list out' dl ctx) = left_pools ctx"
  "io_type (upd_channel_list out' dl ctx) = io_type ctx"
  by (auto simp: channel_list_def upd_channel_list_def)

lemma channel_list_other [simp]:
  "channel_list out (ctx\<lparr>chan_mem := m\<rparr>) = channel_list out ctx"
  "channel_list out (ctx\<lparr>left_pools := l\<rparr>) = channel_list out ctx"
  "channel_list out (ctx\<lparr>chan_mem := m, left_pools := l\<rparr>) = channel_list out ctx"
  by (auto simp: channel_list_def)

text \<open>Traffic on a channel keeps the lists: only the queue and the marks of the elements change.\<close>

lemma dl_inv_same:
  assumes "dl_inv ht out mem dl" "mem p = Some ch" "same_channel ch ch'"
  shows "dl_inv ht out (mem(p \<mapsto> ch')) dl"
proof -
  have "(\<exists>c. (mem(p \<mapsto> ch')) x = Some c \<and> P (ch_direction c) (ch_stream_id c))
      \<longleftrightarrow> (\<exists>c. mem x = Some c \<and> P (ch_direction c) (ch_stream_id c))" for x P
    using assms(2,3) by (auto simp: same_channel_def)
  from this [of _ "\<lambda>d s. (d = JBPF_IO_CHANNEL_OUTPUT) = out"] this [of _ "\<lambda>d s. (d = JBPF_IO_CHANNEL_OUTPUT) = out \<and> s = _"]
  show ?thesis using assms(1) unfolding dl_inv_def by simp
qed

lemma reg_inv_traffic:
  assumes "reg_inv ht ck q cp H ctx" "chan_mem ctx p = Some ch" "same_channel ch ch'" "ch_inv ck q cp H' ch'"
  shows "reg_inv ht ck q cp (H(p := H')) (ctx\<lparr>chan_mem := (chan_mem ctx)(p \<mapsto> ch')\<rparr>)"
  using assms dl_inv_same [of ht _ "chan_mem ctx" _ p, OF _ assms(2,3)]
  by (auto simp: reg_inv_def mem_inv_def same_channel_def)

lemma dl_inv_add:
  assumes ht: "ck_ht_spec ht" and inv: "dl_inv ht out mem dl" and p: "mem p = None"
    and ch: "(ch_direction ch = JBPF_IO_CHANNEL_OUTPUT) = out"
    and free: "ck_ht_get ht (dl_ht dl) (ch_stream_id ch) = None" "fst (ck_ht_put ht (dl_ht dl) (ch_stream_id ch) p)"
    and room: "dl_num dl < int JBPF_IO_MAX_NUM_CHANNELS"
  shows "dl_inv ht out (mem(p \<mapsto> ch)) (add_channel ht p (ch_stream_id ch) dl)"
proof -
  obtain h where put: "ck_ht_put ht (dl_ht dl) (ch_stream_id ch) p = (True, h)"
    using free(2) by (cases "ck_ht_put ht (dl_ht dl) (ch_stream_id ch) p") auto
  have h: "ck_ht_get ht h = (ck_ht_get ht (dl_ht dl))(ch_stream_id ch \<mapsto> p)"
    using ht_put [OF ht put] by simp
  have "take_slot p (dl_array dl) \<noteq> None"
    using inv room by (auto simp: dl_inv_def take_slot_None)
  then obtain xs where xs: "take_slot p (dl_array dl) = Some xs" by blast
  have len: "length xs = length (dl_array dl)" and ms: "mset (slots xs) = add_mset p (mset (slots (dl_array dl)))"
    using take_slot_Some [OF xs] by auto
  have nin: "p \<notin> set (slots (dl_array dl))" using inv p by (auto simp: dl_inv_def)
  have "distinct (slots xs)" "set (slots xs) = insert p (set (slots (dl_array dl)))"
    "length (slots xs) = Suc (length (slots (dl_array dl)))"
    using mset_eq_imp_distinct_iff [of "slots xs" "p # slots (dl_array dl)"] mset_eq_setD [of "slots xs" "p # slots (dl_array dl)"]
      mset_eq_length [of "slots xs" "p # slots (dl_array dl)"] ms inv nin by (auto simp: dl_inv_def)
  moreover have "add_channel ht p (ch_stream_id ch) dl = dl\<lparr>dl_ht := h, dl_array := xs, dl_num := dl_num dl + 1\<rparr>"
    using put xs by (simp add: add_channel_def)
  moreover have "ck_ht_get ht (dl_ht dl) sid \<noteq> Some p" for sid
    using inv p by (auto simp: dl_inv_def)
  moreover have "ch_stream_id c \<noteq> ch_stream_id ch"
    if "mem x = Some c" "(ch_direction c = JBPF_IO_CHANNEL_OUTPUT) = out" for x c
    using that inv free(1) unfolding dl_inv_def by (metis option.distinct(1))
  ultimately show ?thesis
    using inv p ch len unfolding dl_inv_def by (auto simp: h split: if_splits)
qed

lemma dl_inv_remove:
  assumes ht: "ck_ht_spec ht" and inv: "dl_inv ht out mem dl" and p: "mem p = Some ch"
    and ch: "(ch_direction ch = JBPF_IO_CHANNEL_OUTPUT) = out"
  shows "dl_inv ht out (mem(p := None)) (remove_channel ht p (ch_stream_id ch) dl)"
proof -
  obtain r h where rem: "ck_ht_remove ht (dl_ht dl) (ch_stream_id ch) = (r, h)"
    by (cases "ck_ht_remove ht (dl_ht dl) (ch_stream_id ch)")
  have h: "ck_ht_get ht h = (ck_ht_get ht (dl_ht dl))(ch_stream_id ch := None)"
    using ht_remove [OF ht rem] by simp
  have "p \<in> set (slots (dl_array dl))" using inv p ch by (auto simp: dl_inv_def)
  then obtain ys where ys: "drop_slot p (dl_array dl) = Some ys" "length ys = length (dl_array dl)"
    "mset (slots (dl_array dl)) = add_mset p (mset (slots ys))"
    using drop_slot_Some by blast
  have ys': "distinct (p # slots ys)" "set (slots (dl_array dl)) = insert p (set (slots ys))"
    "length (slots (dl_array dl)) = Suc (length (slots ys))"
    using mset_eq_imp_distinct_iff [of "slots (dl_array dl)" "p # slots ys"] mset_eq_setD [of "slots (dl_array dl)" "p # slots ys"]
      mset_eq_length [of "slots (dl_array dl)" "p # slots ys"] ys(3) inv by (auto simp: dl_inv_def)
  have eq: "remove_channel ht p (ch_stream_id ch) dl = dl\<lparr>dl_ht := h, dl_array := ys, dl_num := dl_num dl - 1\<rparr>"
    using rem ys(1) by (simp add: remove_channel_def)
  let ?dir = "\<lambda>c. (ch_direction c = JBPF_IO_CHANNEL_OUTPUT) = out"
  have len: "length (dl_array dl) = JBPF_IO_MAX_NUM_CHANNELS" and num: "dl_num dl = int (length (slots (dl_array dl)))"
    and arr: "\<And>x. x \<in> set (slots (dl_array dl)) \<longleftrightarrow> (\<exists>c. mem x = Some c \<and> ?dir c)"
    and get: "\<And>sid x. ck_ht_get ht (dl_ht dl) sid = Some x \<longleftrightarrow> (\<exists>c. mem x = Some c \<and> ?dir c \<and> ch_stream_id c = sid)"
    using inv unfolding dl_inv_def by blast+
  have getp: "ck_ht_get ht (dl_ht dl) (ch_stream_id ch) = Some p" unfolding get using p ch by blast
  show ?thesis
    unfolding dl_inv_def eq
  proof (intro conjI allI)
    show "x \<in> set (slots (dl_array (dl\<lparr>dl_ht := h, dl_array := ys, dl_num := dl_num dl - 1\<rparr>)))
        \<longleftrightarrow> (\<exists>c. (mem(p := None)) x = Some c \<and> ?dir c)" for x
      using arr [of x] ys'(1,2) by (cases "x = p") auto
    show "ck_ht_get ht (dl_ht (dl\<lparr>dl_ht := h, dl_array := ys, dl_num := dl_num dl - 1\<rparr>)) sid = Some x
        \<longleftrightarrow> (\<exists>c. (mem(p := None)) x = Some c \<and> ?dir c \<and> ch_stream_id c = sid)" for sid x
    proof (cases "sid = ch_stream_id ch")
      case True
      then have "x = p" if "\<exists>c. mem x = Some c \<and> ?dir c \<and> ch_stream_id c = sid"
        using that get [of sid x] getp by simp
      then show ?thesis using True by (auto simp: h)
    next
      case False
      then have "ck_ht_get ht (dl_ht dl) sid \<noteq> Some p" unfolding get using p by auto
      then show ?thesis using False get [of sid x] by (cases "x = p") (auto simp: h)
    qed
  qed (use ys ys' len num in simp_all)
qed

lemma dl_inv_other:
  assumes "dl_inv ht out mem dl" "mem p = None \<or> (\<exists>ch. mem p = Some ch \<and> (ch_direction ch = JBPF_IO_CHANNEL_OUTPUT) \<noteq> out)"
    "c = None \<or> (\<exists>ch. c = Some ch \<and> (ch_direction ch = JBPF_IO_CHANNEL_OUTPUT) \<noteq> out)"
  shows "dl_inv ht out (mem(p := c)) dl"
proof -
  have "(\<exists>c'. (mem(p := c)) x = Some c' \<and> (ch_direction c' = JBPF_IO_CHANNEL_OUTPUT) = out \<and> P c')
      \<longleftrightarrow> (\<exists>c'. mem x = Some c' \<and> (ch_direction c' = JBPF_IO_CHANNEL_OUTPUT) = out \<and> P c')" for x P
    using assms(2,3) by (cases "x = p") auto
  from this [of _ "\<lambda>_. True"] this [of _ "\<lambda>c. ch_stream_id c = _"]
  show ?thesis using assms(1) unfolding dl_inv_def by simp
qed

section \<open>The operations keep the registry\<close>

lemma create_channel_cases:
  "io_create_channel ht ck env req ctx = Some (None, ctx)
   \<or> (\<exists>p. (rq_direction req = JBPF_IO_CHANNEL_INPUT \<or> rq_direction req = JBPF_IO_CHANNEL_OUTPUT)
        \<and> dl_num (channel_list (rq_direction req = JBPF_IO_CHANNEL_OUTPUT) ctx) < int JBPF_IO_MAX_NUM_CHANNELS
        \<and> jbpf_io_channel_exists ht ctx (rq_stream_id req) (rq_direction req = JBPF_IO_CHANNEL_OUTPUT) = None
        \<and> env_chan env = Some p \<and> io_create_channel ht ck env req ctx = build_channel ht ck env req p ctx)"
  by (cases "env_chan env") (simp_all add: io_create_channel_def Let_def not_le)

lemma create_channel_spec:
  assumes ht: "ck_ht_spec ht" and put: "\<And>h k v. ck_ht_get ht h k = None \<Longrightarrow> fst (ck_ht_put ht h k v)"
    and ck: "ck_ring_spec ck q cp" and inv: "reg_inv ht ck q cp H ctx"
    and fresh: "\<And>p. env_chan env = Some p \<Longrightarrow> chan_mem ctx p = None"
    and n: "uint (rq_num_elems req) + int JBPF_IO_MAX_NUM_THREADS < 2 ^ 30" and sz: "uint (rq_elem_size req) < 2 ^ 31"
  shows "\<exists>x ctx'. io_create_channel ht ck env req ctx = Some (x, ctx') \<and> io_type ctx' = io_type ctx
    \<and> (case x of
         None \<Rightarrow> reg_inv ht ck q cp H ctx' \<and> chan_mem ctx' = chan_mem ctx \<and> in_channel_list ctx' = in_channel_list ctx
           \<and> out_channel_list ctx' = out_channel_list ctx
       | Some p \<Rightarrow> reg_inv ht ck q cp (H(p := {#})) ctx' \<and> env_chan env = Some p \<and> left_pools ctx' = left_pools ctx
           \<and> jbpf_io_channel_exists ht ctx (rq_stream_id req) (rq_direction req = JBPF_IO_CHANNEL_OUTPUT) = None
           \<and> (\<exists>ch. chan_mem ctx' = (chan_mem ctx)(p \<mapsto> ch) \<and> ch_stream_id ch = rq_stream_id req
                \<and> ch_direction ch = rq_direction req \<and> ch_elem_size ch = uint (rq_elem_size req)
                \<and> q (ioq_ring (channel_ptr ch)) = []))"
proof -
  let ?out = "rq_direction req = JBPF_IO_CHANNEL_OUTPUT"
  let ?dl = "channel_list ?out ctx"
  consider (no) "io_create_channel ht ck env req ctx = Some (None, ctx)"
    | (go) p where "rq_direction req = JBPF_IO_CHANNEL_INPUT \<or> ?out" "dl_num ?dl < int JBPF_IO_MAX_NUM_CHANNELS"
        "jbpf_io_channel_exists ht ctx (rq_stream_id req) ?out = None" "env_chan env = Some p"
        "io_create_channel ht ck env req ctx = build_channel ht ck env req p ctx"
    using create_channel_cases [of ht ck env req ctx] by blast
  then show ?thesis
  proof cases
    case no
    then show ?thesis using inv by simp
  next
    case go
    let ?sz = "c_int (uint (rq_elem_size req) + int sizeof_channel_elem)"
    have cn: "c_int (uint (rq_num_elems req)) = uint (rq_num_elems req)"
      using n by (intro c_int_id) (auto intro: order_trans [of _ 0])
    have cs: "c_int (uint (rq_elem_size req)) = uint (rq_elem_size req)"
      using sz by (intro c_int_id) (auto intro: order_trans [of _ 0])
    obtain x lost where qc: "jbpf_io_queue_create ck (env_ctx_ok env) (env_alloc env) (env_ring_valid env) (env_ring_ok env)
        (uint (rq_num_elems req)) ?sz (rq_direction req) = (x, lost)" by fastforce
    note c = go(5) [unfolded build_channel_def Let_def, unfolded cn qc prod.case]
    have keep: "reg_inv ht ck q cp H (ctx\<lparr>left_pools := l\<rparr>)" for l
      using inv by (simp add: reg_inv_def)
    show ?thesis
    proof (cases x)
      case None
      then show ?thesis using keep unfolding c by simp
    next
      case (Some ioq)
      have new: "ioq_inv ck q cp {#} ioq" "reserved ioq = []" "q (ioq_ring ioq) = []"
        using queue_create_spec [OF ck _ n qc [unfolded Some]] by auto
      show ?thesis
      proof (cases "jbpf_io_load_serde env (rq_stream_id req) (rq_descriptor req)")
        case None
        obtain mp where mp: "jbpf_io_queue_free ck ioq = Some mp" "mp_freed mp"
          using queue_free_spec [OF new(1)] new(2) by auto
        have "io_create_channel ht ck env req ctx = Some (None, ctx)"
          using None Some mp unfolding c by simp
        then show ?thesis using inv by simp
      next
        case serde: (Some sd)
        let ?ch = "\<lparr> channel_ptr = ioq, ch_type = JBPF_IO_CHANNEL_QUEUE, ch_direction = rq_direction req,
             primary_serde = sd, secondary_serde = \<lparr> serialize = None, deserialize = None \<rparr>,
             ch_stream_id = rq_stream_id req, ch_elem_size = c_int (uint (rq_elem_size req)), elem_owner = (\<lambda>_. False) \<rparr>"
        let ?mem = "(chan_mem ctx)(p \<mapsto> ?ch)"
        let ?ctx = "upd_channel_list ?out (add_channel ht p (rq_stream_id req) ?dl) (ctx\<lparr>chan_mem := ?mem\<rparr>)"
        have eq: "io_create_channel ht ck env req ctx = Some (Some p, ?ctx)"
          using serde Some unfolding c by simp
        have free: "ck_ht_get ht (dl_ht ?dl) (rq_stream_id req) = None"
          using go(3) by (simp add: jbpf_io_channel_exists_def)
        have p: "chan_mem ctx p = None" by (rule fresh [OF go(4)])
        have "dl_inv ht ?out ?mem (add_channel ht p (ch_stream_id ?ch) ?dl)"
          using inv go(2) free put [OF free] p by (intro dl_inv_add [OF ht]) (simp_all add: reg_inv_def)
        moreover have "dl_inv ht (\<not> ?out) ?mem (channel_list (\<not> ?out) ctx)"
          using inv p by (intro dl_inv_other) (auto simp: reg_inv_def)
        ultimately have "dl_inv ht out ?mem (channel_list out ?ctx)" for out
          by (cases "out = ?out") auto
        moreover have "mem_inv ck q cp (H(p := {#})) ?mem"
          using inv new(1) go(1) sz cs by (auto simp: reg_inv_def mem_inv_def ch_inv_def)
        ultimately have "reg_inv ht ck q cp (H(p := {#})) ?ctx"
          unfolding reg_inv_def by simp
        moreover have "\<exists>ch. chan_mem ?ctx = (chan_mem ctx)(p \<mapsto> ch) \<and> ch_stream_id ch = rq_stream_id req
            \<and> ch_direction ch = rq_direction req \<and> ch_elem_size ch = uint (rq_elem_size req)
            \<and> q (ioq_ring (channel_ptr ch)) = []"
          using new(3) cs by (intro exI [of _ ?ch]) simp
        ultimately show ?thesis using eq go(3,4) by simp
      qed
    qed
  qed
qed

lemma destroy_channel_spec:
  assumes ht: "ck_ht_spec ht" and inv: "reg_inv ht ck q cp H ctx" and p: "chan_mem ctx p = Some ch"
    and type: "io_type ctx = JBPF_IO_LOCAL_PRIMARY"
  shows "\<exists>ctx'. jbpf_io_destroy_channel ht ck ipc p ctx = Some ctx' \<and> reg_inv ht ck q cp H ctx' \<and> io_type ctx' = io_type ctx
    \<and> chan_mem ctx' = (chan_mem ctx)(p := None)
    \<and> (if H p = {#} then left_pools ctx' = left_pools ctx
       else \<exists>mp. left_pools ctx' = (p, mp) # left_pools ctx \<and> \<not> mp_freed mp)"
proof -
  have ci: "ch_inv ck q cp (H p) ch" and dir: "ch_direction ch = JBPF_IO_CHANNEL_OUTPUT \<or> ch_direction ch = JBPF_IO_CHANNEL_INPUT"
    using inv p by (auto simp: reg_inv_def mem_inv_def)
  have qi: "ioq_inv ck q cp (H p) (channel_ptr ch)" using ci by (simp add: ch_inv_def)
  obtain ioq where ioq: "jbpf_io_queue_release_all ck (channel_ptr ch) = Some ioq" "ioq_inv ck q cp (H p) ioq" "reserved ioq = []"
    using release_all_spec [OF qi] by blast
  obtain mp where mp: "jbpf_io_queue_free ck ioq = Some mp" "mp_freed mp \<longleftrightarrow> H p = {#}"
    using queue_free_spec [OF ioq(2)] ioq(3) by auto
  let ?ch = "ch\<lparr>channel_ptr := ioq\<rparr>"
  let ?out = "ch_direction ch = JBPF_IO_CHANNEL_OUTPUT"
  let ?ctx = "ctx\<lparr>chan_mem := (chan_mem ctx)(p \<mapsto> ?ch)\<rparr>"
  let ?dl = "remove_channel ht p (ch_stream_id ch) (channel_list ?out ctx)"
  let ?fin = "(upd_channel_list ?out ?dl ?ctx)\<lparr>chan_mem := (chan_mem ctx)(p := None),
      left_pools := (if mp_freed mp then [] else [(p, mp)]) @ left_pools ctx\<rparr>"
  have ds: "jbpf_io_destroy_dir_channel ht ck ?out p ?ctx = Some ?fin"
    using mp(1) by (simp add: jbpf_io_destroy_dir_channel_def io_channel_destructor_def)
  have fin: "jbpf_io_destroy_channel ht ck ipc p ctx = Some ?fin"
  proof (cases ?out)
    case True
    then show ?thesis using p ioq(1) type ds by (simp add: jbpf_io_destroy_channel_def jbpf_io_channel_release_all_buf_def)
  next
    case False
    then have "ch_direction ch = JBPF_IO_CHANNEL_INPUT" using dir by simp
    then show ?thesis using p ioq(1) type ds False
      by (simp add: jbpf_io_destroy_channel_def jbpf_io_channel_release_all_buf_def JBPF_IO_CHANNEL_INPUT_def
          JBPF_IO_CHANNEL_OUTPUT_def)
  qed
  have "dl_inv ht ?out ((chan_mem ctx)(p := None)) ?dl"
    using inv p by (intro dl_inv_remove [OF ht]) (auto simp: reg_inv_def)
  moreover have "dl_inv ht (\<not> ?out) ((chan_mem ctx)(p := None)) (channel_list (\<not> ?out) ctx)"
    using inv p by (intro dl_inv_other) (auto simp: reg_inv_def)
  ultimately have "dl_inv ht out ((chan_mem ctx)(p := None)) (channel_list out ?fin)" for out
    by (cases "out = ?out") auto
  moreover have "mem_inv ck q cp H ((chan_mem ctx)(p := None))"
    using inv by (auto simp: reg_inv_def mem_inv_def)
  ultimately have "reg_inv ht ck q cp H ?fin" unfolding reg_inv_def by simp
  then show ?thesis using fin mp(2) by auto
qed

lemma send_any:
  assumes ci: "ch_inv ck q cp H ch" and t: "t < int JBPF_IO_MAX_NUM_THREADS"
  obtains r ch' where "jbpf_io_channel_send_data ck t w ch = Some (r, ch')" "ch_inv ck q cp H ch'" "same_channel ch ch'"
proof (cases "int (length w) \<le> ch_elem_size ch")
  case True
  show thesis by (cases rule: send_data_inv [OF ci t True]) (use that in blast)+
next
  case False
  then have "c_size (ch_elem_size ch) < length w" using ci by (auto simp: ch_inv_def c_size_def)
  then show thesis using that [of "- 1" ch] ci by (simp add: jbpf_io_channel_send_data_def ch_inv_def)
qed

lemma reg_inv_live:
  assumes "reg_inv ht ck q cp H ctx" "chan_mem ctx p = Some ch"
  shows "ch_inv ck q cp (H p) ch"
  using assms by (auto simp: reg_inv_def mem_inv_def)

lemma reg_inv_get:
  assumes "reg_inv ht ck q cp H ctx"
  shows "ck_ht_get ht (dl_ht (channel_list out ctx)) sid = Some p \<longleftrightarrow>
    (\<exists>ch. chan_mem ctx p = Some ch \<and> (ch_direction ch = JBPF_IO_CHANNEL_OUTPUT) = out \<and> ch_stream_id ch = sid)"
  using assms unfolding reg_inv_def dl_inv_def by blast

lemma send_msg_spec:
  assumes inv: "reg_inv ht ck q cp H ctx" and t: "t < int JBPF_IO_MAX_NUM_THREADS"
  shows "\<exists>r ctx'. jbpf_io_channel_send_msg ht ck t sid w ctx = Some (r, ctx') \<and> reg_inv ht ck q cp H ctx' \<and> io_type ctx' = io_type ctx"
proof (cases "io_type ctx = JBPF_IO_IPC_SECONDARY \<or> ck_ht_get ht (dl_ht (in_channel_list ctx)) sid = None")
  case True
  then show ?thesis using inv by (auto simp: jbpf_io_channel_send_msg_def)
next
  case False
  then obtain p where p: "ck_ht_get ht (dl_ht (in_channel_list ctx)) sid = Some p" by auto
  then obtain ch where ch: "chan_mem ctx p = Some ch"
    using reg_inv_get [OF inv, of False sid p] by (auto simp: channel_list_def)
  obtain r ch' where r: "jbpf_io_channel_send_data ck t w ch = Some (r, ch')" "ch_inv ck q cp (H p) ch'" "same_channel ch ch'"
    by (rule send_any [OF reg_inv_live [OF inv ch] t])
  have "reg_inv ht ck q cp (H(p := H p)) (ctx\<lparr>chan_mem := (chan_mem ctx)(p \<mapsto> ch')\<rparr>)"
    by (rule reg_inv_traffic [OF inv ch r(3,2)])
  then show ?thesis
    using False p ch r(1) by (auto simp: jbpf_io_channel_send_msg_def)
qed

section \<open>Polling the output channels\<close>

lemma recv_loop_spec:
  assumes "ch_inv ck q cp H ch"
  shows "\<exists>ch'. recv_loop ck n ch = (take n (q (ioq_ring (channel_ptr ch))), ch')
    \<and> ch_inv ck q cp (mset (take n (q (ioq_ring (channel_ptr ch)))) + H) ch' \<and> same_channel ch ch'
    \<and> q (ioq_ring (channel_ptr ch')) = drop n (q (ioq_ring (channel_ptr ch)))
    \<and> ioq_data (channel_ptr ch') = ioq_data (channel_ptr ch)"
  using assms
proof (induction n arbitrary: ch H)
  case (Suc n)
  have inv: "ioq_inv ck q cp H (channel_ptr ch)" using Suc.prems by (simp add: ch_inv_def)
  show ?case
  proof (cases rule: ioq.receive_spec [OF inv])
    case (1 ioq')
    then show ?thesis using Suc.prems by (auto simp: ch_inv_def)
  next
    case (2 b ioq')
    let ?ch = "ch\<lparr>channel_ptr := ioq'\<rparr>"
    have "ch_inv ck q cp (add_mset b H) ?ch" using Suc.prems 2(3) by (simp add: ch_inv_def)
    from Suc.IH [OF this] show ?thesis using 2 same_channel_trans [of ch ?ch] by fastforce
  qed
qed simp

lemma release_bufs_spec:
  assumes "chan_mem ctx p = Some ch" "ch_inv ck q cp (mset bs + H) ch"
  shows "\<exists>ch'. release_bufs ck p bs ctx = Some (ctx\<lparr>chan_mem := (chan_mem ctx)(p \<mapsto> ch')\<rparr>)
    \<and> ch_inv ck q cp H ch' \<and> same_channel ch ch' \<and> q (ioq_ring (channel_ptr ch')) = q (ioq_ring (channel_ptr ch))
    \<and> ioq_data (channel_ptr ch') = ioq_data (channel_ptr ch)"
  using assms
proof (induction bs arbitrary: ctx ch)
  case Nil
  then show ?case by (intro exI [of _ ch]) (simp add: fun_upd_idem)
next
  case (Cons b bs)
  have "ioq_inv ck q cp (add_mset b (mset bs + H)) (channel_ptr ch)" using Cons.prems(2) by (simp add: ch_inv_def)
  from queue_release_spec [OF this, of b] obtain ioq where ioq:
    "jbpf_io_queue_release ck (Some b) False (channel_ptr ch) = Some ioq" "ioq_inv ck q cp (mset bs + H) ioq"
    "q (ioq_ring ioq) = q (ioq_ring (channel_ptr ch))" "ioq_data ioq = ioq_data (channel_ptr ch)" by auto
  let ?ch = "ch\<lparr>channel_ptr := ioq\<rparr>"
  have "ch_inv ck q cp (mset bs + H) ?ch" using Cons.prems(2) ioq(2) by (simp add: ch_inv_def)
  moreover let ?ctx = "ctx\<lparr>chan_mem := (chan_mem ctx)(p \<mapsto> ?ch)\<rparr>"
  have "chan_mem ?ctx p = Some ?ch" by simp
  ultimately obtain ch' where ch': "release_bufs ck p bs ?ctx = Some (?ctx\<lparr>chan_mem := (chan_mem ?ctx)(p \<mapsto> ch')\<rparr>)"
    "ch_inv ck q cp H ch'" "same_channel ?ch ch'" "q (ioq_ring (channel_ptr ch')) = q (ioq_ring (channel_ptr ?ch))"
    "ioq_data (channel_ptr ch') = ioq_data (channel_ptr ?ch)" using Cons.IH by blast
  have "same_channel ch ch'" using ch'(3) by (simp add: same_channel_def)
  then show ?case
    using Cons.prems(1) ioq ch' by (intro exI [of _ ch']) (simp add: jbpf_io_channel_release_buf_def del: fun_upd_apply)
qed

text \<open>The messages that wait in a channel, as its consumers will read them.\<close>

definition pending :: "('r \<Rightarrow> nat list) \<Rightarrow> 'r jbpf_io_channel \<Rightarrow> bytes list" where
  "pending q ch = map (read_msg ch) (q (ioq_ring (channel_ptr ch)))"

lemma pending_same:
  assumes "same_channel ch ch'" "ioq_data (channel_ptr ch') = ioq_data (channel_ptr ch)"
    "q (ioq_ring (channel_ptr ch')) = drop n (q (ioq_ring (channel_ptr ch)))"
  shows "pending q ch' = drop n (pending q ch)"
proof -
  have "read_msg ch' b = read_msg ch b" for b
    using assms(1,2) by (simp add: read_msg_def chan_read_def same_channel_def)
  then show ?thesis using assms(3) by (simp add: pending_def drop_map)
qed

text \<open>An application that appends the messages to a log for each stream.\<close>

definition log_cb :: "bytes \<Rightarrow> bytes list \<Rightarrow> (bytes \<Rightarrow> bytes list) \<Rightarrow> bytes \<Rightarrow> bytes list" where
  "log_cb sid ms u = u(sid := u sid @ ms)"

lemma poll_slot:
  assumes inv: "reg_inv ht ck q cp H ctx" and ch: "chan_mem ctx p = Some ch"
  obtains ch' where
    "poll_slots ck (jbpf_process_output_data ck log_cb) (Some p # ps) (u, ctx)
      = poll_slots ck (jbpf_process_output_data ck log_cb) ps
          (log_cb (ch_stream_id ch) (take 10 (pending q ch)) u, ctx\<lparr>chan_mem := (chan_mem ctx)(p \<mapsto> ch')\<rparr>)"
    "same_channel ch ch'" "pending q ch' = drop 10 (pending q ch)"
    "reg_inv ht ck q cp H (ctx\<lparr>chan_mem := (chan_mem ctx)(p \<mapsto> ch')\<rparr>)"
proof -
  let ?r = "q (ioq_ring (channel_ptr ch))"
  have ci: "ch_inv ck q cp (H p) ch" using inv ch by (auto simp: reg_inv_def mem_inv_def)
  obtain ch1 where 1: "recv_loop ck 10 ch = (take 10 ?r, ch1)" "ch_inv ck q cp (mset (take 10 ?r) + H p) ch1"
    "same_channel ch ch1" "q (ioq_ring (channel_ptr ch1)) = drop 10 ?r" "ioq_data (channel_ptr ch1) = ioq_data (channel_ptr ch)"
    using recv_loop_spec [OF ci, of 10] by blast
  have rd: "read_msg ch1 b = read_msg ch b" for b
    using 1(3,5) by (simp add: read_msg_def chan_read_def same_channel_def)
  have recv: "jbpf_io_channel_recv_data ck JBPF_IO_BUFS_BATCH_SIZE ch = (int (length (take 10 ?r)), take 10 ?r, ch1)"
    using ci 1(1) by (simp add: jbpf_io_channel_recv_data_def JBPF_IO_BUFS_BATCH_SIZE_def ch_inv_def)
  let ?ctx1 = "ctx\<lparr>chan_mem := (chan_mem ctx)(p \<mapsto> ch1)\<rparr>"
  obtain ch2 where 2: "release_bufs ck p (take 10 ?r) ?ctx1 = Some (?ctx1\<lparr>chan_mem := (chan_mem ?ctx1)(p \<mapsto> ch2)\<rparr>)"
    "ch_inv ck q cp (H p) ch2" "same_channel ch1 ch2" "q (ioq_ring (channel_ptr ch2)) = drop 10 ?r"
    "ioq_data (channel_ptr ch2) = ioq_data (channel_ptr ch)"
    using release_bufs_spec [of ?ctx1 p ch1 ck q cp "take 10 ?r" "H p"] 1 by auto
  have tk: "take 10 (pending q ch) = map (read_msg ch1) (take 10 ?r)"
    using rd by (simp add: pending_def take_map)
  have same: "same_channel ch ch2" using 1(3) 2(3) by (rule same_channel_trans)
  have step: "poll_slots ck (jbpf_process_output_data ck log_cb) (Some p # ps) (u, ctx)
      = poll_slots ck (jbpf_process_output_data ck log_cb) ps
          (log_cb (ch_stream_id ch) (take 10 (pending q ch)) u, ctx\<lparr>chan_mem := (chan_mem ctx)(p \<mapsto> (if ?r = [] then ch1 else ch2))\<rparr>)"
  proof (cases "?r = []")
    case True
    then show ?thesis using ch recv by (simp add: pending_def log_cb_def)
  next
    case False
    then have "int (length (take 10 ?r)) > 0" by simp
    moreover have "ch_stream_id ch1 = ch_stream_id ch" using 1(3) by (simp add: same_channel_def)
    ultimately show ?thesis
      using ch recv 2(1) tk by (simp add: jbpf_process_output_data_def)
  qed
  show thesis
  proof (cases "?r = []")
    case True
    have "reg_inv ht ck q cp (H(p := H p)) ?ctx1"
      using reg_inv_traffic [OF inv ch 1(3), of "H p"] 1(2) True by simp
    moreover have "pending q ch1 = drop 10 (pending q ch)" by (rule pending_same [OF 1(3,5,4)])
    ultimately show thesis using that [of ch1] step True 1(3) by simp
  next
    case False
    have "reg_inv ht ck q cp (H(p := H p)) (ctx\<lparr>chan_mem := (chan_mem ctx)(p \<mapsto> ch2)\<rparr>)"
      by (rule reg_inv_traffic [OF inv ch same 2(2)])
    moreover have "pending q ch2 = drop 10 (pending q ch)" by (rule pending_same [OF same 2(5,4)])
    ultimately show thesis using that [of ch2] step False same by simp
  qed
qed

text \<open>The messages that wait in the output channel of a stream.\<close>

definition out_pending ::
  "(bytes, nat, 'h) ck_ht_ops \<Rightarrow> ('r \<Rightarrow> nat list) \<Rightarrow> ('h, 'r) jbpf_io_ctx \<Rightarrow> bytes \<Rightarrow> bytes list" where
  "out_pending ht q ctx sid =
    (case ck_ht_get ht (dl_ht (out_channel_list ctx)) sid of
       None \<Rightarrow> []
     | Some p \<Rightarrow> (case chan_mem ctx p of None \<Rightarrow> [] | Some ch \<Rightarrow> pending q ch))"

lemma out_pending_live:
  assumes "reg_inv ht ck q cp H ctx" "chan_mem ctx p = Some ch" "ch_direction ch = JBPF_IO_CHANNEL_OUTPUT"
  shows "out_pending ht q ctx (ch_stream_id ch) = pending q ch"
  using reg_inv_get [OF assms(1), of True "ch_stream_id ch" p] assms(2,3)
  by (simp add: out_pending_def channel_list_def)

lemma out_pending_upd:
  assumes inv: "reg_inv ht ck q cp H ctx" and p: "chan_mem ctx p = Some ch" "ch_direction ch = JBPF_IO_CHANNEL_OUTPUT"
  shows "out_pending ht q (ctx\<lparr>chan_mem := (chan_mem ctx)(p \<mapsto> ch')\<rparr>) =
    (out_pending ht q ctx)(ch_stream_id ch := pending q ch')"
proof
  fix sid
  show "out_pending ht q (ctx\<lparr>chan_mem := (chan_mem ctx)(p \<mapsto> ch')\<rparr>) sid =
      ((out_pending ht q ctx)(ch_stream_id ch := pending q ch')) sid"
  proof (cases "sid = ch_stream_id ch")
    case True
    then show ?thesis using reg_inv_get [OF inv, of True sid p] p by (simp add: out_pending_def channel_list_def)
  next
    case False
    then have "ck_ht_get ht (dl_ht (out_channel_list ctx)) sid \<noteq> Some p"
      using reg_inv_get [OF inv, of True sid p] p by (simp add: channel_list_def)
    then show ?thesis using False by (auto simp: out_pending_def split: option.splits)
  qed
qed

text \<open>One round of polls serves each of the streams \<open>S\<close> of its slots once.\<close>

definition served :: "(bytes \<Rightarrow> bytes list) \<Rightarrow> bytes set \<Rightarrow> nat \<Rightarrow> (bytes \<Rightarrow> bytes list) \<Rightarrow> bytes \<Rightarrow> bytes list" where
  "served w S n u sid = (if sid \<in> S then u sid @ take n (w sid) else u sid)"

definition unserved :: "(bytes \<Rightarrow> bytes list) \<Rightarrow> bytes set \<Rightarrow> nat \<Rightarrow> bytes \<Rightarrow> bytes list" where
  "unserved w S n sid = (if sid \<in> S then drop n (w sid) else w sid)"

definition sids :: "('h, 'r) jbpf_io_ctx \<Rightarrow> nat list \<Rightarrow> bytes set" where
  "sids ctx ps = {sid. \<exists>p \<in> set ps. \<exists>ch. chan_mem ctx p = Some ch \<and> ch_stream_id ch = sid}"

lemma poll_slots_spec:
  assumes "reg_inv ht ck q cp H ctx" "distinct (slots ps)"
    "\<forall>p \<in> set (slots ps). \<exists>ch. chan_mem ctx p = Some ch \<and> ch_direction ch = JBPF_IO_CHANNEL_OUTPUT"
  shows "\<exists>ctx'. poll_slots ck (jbpf_process_output_data ck log_cb) ps (u, ctx)
      = Some (served (out_pending ht q ctx) (sids ctx (slots ps)) 10 u, ctx') \<and> reg_inv ht ck q cp H ctx'
    \<and> out_pending ht q ctx' = unserved (out_pending ht q ctx) (sids ctx (slots ps)) 10
    \<and> io_type ctx' = io_type ctx \<and> out_channel_list ctx' = out_channel_list ctx"
  using assms
proof (induction ps arbitrary: u ctx)
  case Nil
  then show ?case by (simp add: sids_def served_def [abs_def] unserved_def [abs_def])
next
  case (Cons x ps)
  show ?case
  proof (cases x)
    case None
    then show ?thesis using Cons by simp
  next
    case (Some p)
    obtain ch where ch: "chan_mem ctx p = Some ch" "ch_direction ch = JBPF_IO_CHANNEL_OUTPUT"
      using Cons.prems(3) Some by auto
    obtain ch' where st: "poll_slots ck (jbpf_process_output_data ck log_cb) (Some p # ps) (u, ctx)
        = poll_slots ck (jbpf_process_output_data ck log_cb) ps
            (log_cb (ch_stream_id ch) (take 10 (pending q ch)) u, ctx\<lparr>chan_mem := (chan_mem ctx)(p \<mapsto> ch')\<rparr>)"
      "same_channel ch ch'" "pending q ch' = drop 10 (pending q ch)"
      "reg_inv ht ck q cp H (ctx\<lparr>chan_mem := (chan_mem ctx)(p \<mapsto> ch')\<rparr>)"
      using poll_slot [OF Cons.prems(1) ch(1)] by metis
    let ?ctx = "ctx\<lparr>chan_mem := (chan_mem ctx)(p \<mapsto> ch')\<rparr>"
    let ?sid = "ch_stream_id ch"
    let ?u = "log_cb ?sid (take 10 (pending q ch)) u"
    have notin: "p \<notin> set (slots ps)" using Cons.prems(2) Some by simp
    have "\<forall>p \<in> set (slots ps). \<exists>ch. chan_mem ?ctx p = Some ch \<and> ch_direction ch = JBPF_IO_CHANNEL_OUTPUT"
      using Cons.prems(3) Some notin by auto
    then obtain ctx' where ctx': "poll_slots ck (jbpf_process_output_data ck log_cb) ps (?u, ?ctx)
        = Some (served (out_pending ht q ?ctx) (sids ?ctx (slots ps)) 10 ?u, ctx')" "reg_inv ht ck q cp H ctx'"
      "out_pending ht q ctx' = unserved (out_pending ht q ?ctx) (sids ?ctx (slots ps)) 10"
      "io_type ctx' = io_type ?ctx" "out_channel_list ctx' = out_channel_list ?ctx"
      using Cons.IH [OF st(4)] Cons.prems(2) Some by fastforce
    have S: "sids ?ctx (slots ps) = sids ctx (slots ps)" "sids ctx (slots (x # ps)) = insert ?sid (sids ctx (slots ps))"
      using notin Some ch(1) by (auto simp: sids_def)
    have no: "?sid \<notin> sids ctx (slots ps)"
    proof
      assume "?sid \<in> sids ctx (slots ps)"
      then obtain p' c where c: "p' \<in> set (slots ps)" "chan_mem ctx p' = Some c" "ch_stream_id c = ?sid"
        by (auto simp: sids_def)
      moreover have "ch_direction c = JBPF_IO_CHANNEL_OUTPUT" using Cons.prems(3) Some c(1,2) by auto
      ultimately have "p' = p"
        using reg_inv_get [OF Cons.prems(1), of True ?sid p] reg_inv_get [OF Cons.prems(1), of True ?sid p'] ch by simp
      then show False using c(1) notin by simp
    qed
    have w: "out_pending ht q ctx ?sid = pending q ch" by (rule out_pending_live [OF Cons.prems(1) ch])
    have "served (out_pending ht q ?ctx) (sids ?ctx (slots ps)) 10 ?u = served (out_pending ht q ctx) (sids ctx (slots (x # ps))) 10 u"
      using no w unfolding S out_pending_upd [OF Cons.prems(1) ch] by (auto simp: served_def log_cb_def fun_eq_iff)
    moreover have "unserved (out_pending ht q ?ctx) (sids ?ctx (slots ps)) 10 = unserved (out_pending ht q ctx) (sids ctx (slots (x # ps))) 10"
      using no w st(3) unfolding S out_pending_upd [OF Cons.prems(1) ch] by (auto simp: unserved_def fun_eq_iff)
    ultimately show ?thesis using Some st(1) ctx' by simp
  qed
qed

lemma handle_out_bufs_spec:
  assumes inv: "reg_inv ht ck q cp H ctx" and ty: "io_type ctx = JBPF_IO_LOCAL_PRIMARY"
  shows "\<exists>u' ctx'. jbpf_handle_out_bufs ck log_cb (u, ctx) = Some (u', ctx') \<and> reg_inv ht ck q cp H ctx'
    \<and> (\<forall>sid. u' sid = u sid @ take 10 (out_pending ht q ctx sid) \<and> out_pending ht q ctx' sid = drop 10 (out_pending ht q ctx sid))
    \<and> io_type ctx' = JBPF_IO_LOCAL_PRIMARY"
proof -
  let ?S = "sids ctx (slots (dl_array (out_channel_list ctx)))"
  have dl: "dl_inv ht True (chan_mem ctx) (out_channel_list ctx)"
    using inv by (auto simp: reg_inv_def channel_list_def dest: spec [of _ True])
  then obtain ctx' where ctx': "poll_slots ck (jbpf_process_output_data ck log_cb) (dl_array (out_channel_list ctx)) (u, ctx)
      = Some (served (out_pending ht q ctx) ?S 10 u, ctx')" "reg_inv ht ck q cp H ctx'"
    "out_pending ht q ctx' = unserved (out_pending ht q ctx) ?S 10" "io_type ctx' = io_type ctx"
    using poll_slots_spec [OF inv, of "dl_array (out_channel_list ctx)" u] by (auto simp: dl_inv_def)
  have "out_pending ht q ctx sid = []" if "sid \<notin> ?S" for sid
  proof (cases "ck_ht_get ht (dl_ht (out_channel_list ctx)) sid")
    case (Some p)
    then show ?thesis using that dl unfolding dl_inv_def sids_def by fastforce
  qed (simp add: out_pending_def)
  then show ?thesis
    using ctx' ty by (auto simp: jbpf_handle_out_bufs_def jbpf_io_channel_handle_out_bufs_def served_def unserved_def)
qed

section \<open>Histories\<close>

text \<open>The requests of the applications and of the codelets, in any order: a codelet outputs to a channel it has
  a pointer to, and \<open>Reg_Poll\<close> is a poll of the output channels that logs the messages.  A creation at
  an address in use and requests on a channel that is not there do not happen.\<close>

datatype reg_op =
    Reg_Create io_env nat jbpf_io_channel_type int int bytes bytes
  | Reg_Destroy nat
  | Reg_Send int bytes bytes
  | Reg_Output int nat bytes
  | Reg_Poll

type_synonym ('h, 'r) reg_state = "(bytes \<Rightarrow> bytes list) \<times> ('h, 'r) jbpf_io_ctx"

fun reg_exec :: "(bytes, nat, 'h) ck_ht_ops \<Rightarrow> 'r ck_ring_ops \<Rightarrow> reg_op \<Rightarrow> ('h, 'r) reg_state \<Rightarrow> ('h, 'r) reg_state option" where
  "reg_exec ht ck (Reg_Create env direction type num_el elem_sz sid descriptor) (u, ctx) =
    (if Option.bind (env_chan env) (chan_mem ctx) \<noteq> None then Some (u, ctx)
     else do {
       (_, ctx) \<leftarrow> jbpf_io_create_channel ht ck (\<lambda>_ _. None) env direction type num_el elem_sz sid descriptor ctx;
       Some (u, ctx)
     })"
| "reg_exec ht ck (Reg_Destroy p) (u, ctx) =
    (if chan_mem ctx p = None then Some (u, ctx)
     else do {
       ctx \<leftarrow> jbpf_io_destroy_channel ht ck (\<lambda>_ _. None) p ctx;
       Some (u, ctx)
     })"
| "reg_exec ht ck (Reg_Send t sid w) (u, ctx) = do {
     (_, ctx) \<leftarrow> jbpf_io_channel_send_msg ht ck t sid w ctx;
     Some (u, ctx)
   }"
| "reg_exec ht ck (Reg_Output t p w) (u, ctx) =
    (case chan_mem ctx p of
       None \<Rightarrow> Some (u, ctx)
     | Some ch \<Rightarrow> do {
         (_, ch) \<leftarrow> jbpf_io_channel_send_data ck t w ch;
         Some (u, ctx\<lparr>chan_mem := (chan_mem ctx)(p \<mapsto> ch)\<rparr>)
       })"
| "reg_exec ht ck Reg_Poll (u, ctx) = jbpf_handle_out_bufs ck log_cb (u, ctx)"

primrec reg_run :: "(bytes, nat, 'h) ck_ht_ops \<Rightarrow> 'r ck_ring_ops \<Rightarrow> reg_op list \<Rightarrow> ('h, 'r) reg_state \<Rightarrow> ('h, 'r) reg_state option" where
  "reg_run ht ck [] st = Some st"
| "reg_run ht ck (p # ps) st = Option.bind (reg_exec ht ck p st) (reg_run ht ck ps)"

fun reg_op_ok :: "reg_op \<Rightarrow> bool" where
  "reg_op_ok (Reg_Create env direction type num_el elem_sz sid descriptor) \<longleftrightarrow>
     0 \<le> num_el \<and> num_el + int JBPF_IO_MAX_NUM_THREADS < 2 ^ 30 \<and> 0 \<le> elem_sz \<and> elem_sz < 2 ^ 31"
| "reg_op_ok (Reg_Send t sid w) \<longleftrightarrow> t < int JBPF_IO_MAX_NUM_THREADS"
| "reg_op_ok (Reg_Output t p w) \<longleftrightarrow> t < int JBPF_IO_MAX_NUM_THREADS"
| "reg_op_ok _ \<longleftrightarrow> True"

definition reg_ok ::
  "(bytes, nat, 'h) ck_ht_ops \<Rightarrow> 'r ck_ring_ops \<Rightarrow> ('r \<Rightarrow> nat list) \<Rightarrow> ('r \<Rightarrow> nat) \<Rightarrow> ('h, 'r) jbpf_io_ctx \<Rightarrow> bool" where
  "reg_ok ht ck q cp ctx \<longleftrightarrow> io_type ctx = JBPF_IO_LOCAL_PRIMARY \<and> reg_inv ht ck q cp (\<lambda>_. {#}) ctx"

lemma list_init_ok:
  assumes ht: "ck_ht_spec ht" and mem: "chan_mem ctx = Map.empty" and ty: "io_type ctx = JBPF_IO_LOCAL_PRIMARY"
    and i: "jbpf_io_channel_list_init ht in_ok out_ok ctx = (0, ctx')"
  shows "reg_ok ht ck q cp ctx'"
proof -
  have "\<exists>h h'. ck_ht_init ht JBPF_IO_MAX_NUM_CHANNELS = Some h \<and> ck_ht_init ht JBPF_IO_MAX_NUM_CHANNELS = Some h'
      \<and> ctx' = ctx\<lparr> out_channel_list := \<lparr> dl_ht = h, dl_array = replicate JBPF_IO_MAX_NUM_CHANNELS None, dl_num = 0 \<rparr>,
          in_channel_list := \<lparr> dl_ht = h', dl_array = replicate JBPF_IO_MAX_NUM_CHANNELS None, dl_num = 0 \<rparr>\<rparr>"
    using i by (auto simp: jbpf_io_channel_list_init_def split: if_splits option.splits)
  then obtain h where h: "ck_ht_init ht JBPF_IO_MAX_NUM_CHANNELS = Some h"
      "ctx' = ctx\<lparr> out_channel_list := \<lparr> dl_ht = h, dl_array = replicate JBPF_IO_MAX_NUM_CHANNELS None, dl_num = 0 \<rparr>,
          in_channel_list := \<lparr> dl_ht = h, dl_array = replicate JBPF_IO_MAX_NUM_CHANNELS None, dl_num = 0 \<rparr>\<rparr>"
    by auto
  have "ck_ht_get ht h = Map.empty" by (rule ck_ht_specD(1) [OF ht h(1)])
  then show ?thesis using mem ty h(2)
    by (simp add: reg_ok_def reg_inv_def dl_inv_def mem_inv_def channel_list_def)
qed

lemma reg_exec_ok:
  assumes ht: "ck_ht_spec ht" and put: "\<And>h k v. ck_ht_get ht h k = None \<Longrightarrow> fst (ck_ht_put ht h k v)"
    and ck: "ck_ring_spec ck q cp" and ok: "reg_ok ht ck q cp ctx" and op: "reg_op_ok op"
  shows "\<exists>u' ctx'. reg_exec ht ck op (u, ctx) = Some (u', ctx') \<and> reg_ok ht ck q cp ctx'"
proof -
  note inv = ok [unfolded reg_ok_def, THEN conjunct2] and ty = ok [unfolded reg_ok_def, THEN conjunct1]
  show ?thesis
  proof (cases op)
    case (Reg_Create env direction type num_el elem_sz sid descriptor)
    let ?req = "\<lparr> rq_elem_size = word_of_int elem_sz, rq_num_elems = word_of_int num_el, rq_direction = direction,
           rq_type = type, rq_stream_id = sid, rq_descriptor = descriptor \<rparr>"
    show ?thesis
    proof (cases "Option.bind (env_chan env) (chan_mem ctx) \<noteq> None \<or> length descriptor > JBPF_IO_MAX_DESCRIPTOR_SIZE")
      case True
      then show ?thesis using Reg_Create ok ty by (auto simp: jbpf_io_create_channel_def)
    next
      case False
      have "uint (word_of_int num_el :: u32) = num_el" "uint (word_of_int elem_sz :: u32) = elem_sz"
        using op Reg_Create by (simp_all add: uint_word_of_int)
      then have "\<exists>x ctx'. io_create_channel ht ck env ?req ctx = Some (x, ctx') \<and> io_type ctx' = io_type ctx
          \<and> (case x of None \<Rightarrow> reg_inv ht ck q cp (\<lambda>_. {#}) ctx' | Some p \<Rightarrow> reg_inv ht ck q cp ((\<lambda>_. {#})(p := {#})) ctx')"
        using create_channel_spec [OF ht put ck inv, of env ?req] op Reg_Create False by (fastforce split: option.splits)
      then show ?thesis
        using Reg_Create False ty by (auto simp: jbpf_io_create_channel_def reg_ok_def fun_upd_def split: option.splits)
    qed
  next
    case (Reg_Destroy p)
    show ?thesis
    proof (cases "chan_mem ctx p")
      case (Some ch)
      from destroy_channel_spec [OF ht inv Some ty, of "\<lambda>_ _. None"] show ?thesis
        using Reg_Destroy Some ty by (auto simp: reg_ok_def)
    qed (use Reg_Destroy ok in simp)
  next
    case (Reg_Send t sid w)
    then show ?thesis using send_msg_spec [OF inv, of t sid w] op ty by (auto simp: reg_ok_def)
  next
    case (Reg_Output t p w)
    show ?thesis
    proof (cases "chan_mem ctx p")
      case (Some ch)
      have t: "t < int JBPF_IO_MAX_NUM_THREADS" using op Reg_Output by simp
      obtain r ch' where r: "jbpf_io_channel_send_data ck t w ch = Some (r, ch')" "ch_inv ck q cp {#} ch'" "same_channel ch ch'"
        by (rule send_any [OF reg_inv_live [OF inv Some] t])
      have "reg_inv ht ck q cp ((\<lambda>_. {#})(p := {#})) (ctx\<lparr>chan_mem := (chan_mem ctx)(p \<mapsto> ch')\<rparr>)"
        by (rule reg_inv_traffic [OF inv Some r(3,2)])
      then show ?thesis using Reg_Output Some r(1) ty by (simp add: reg_ok_def fun_upd_def)
    qed (use Reg_Output ok in simp)
  next
    case Reg_Poll
    then show ?thesis using handle_out_bufs_spec [OF inv ty, of u] by (auto simp: reg_ok_def)
  qed
qed

lemma reg_run_ok:
  assumes "ck_ht_spec ht" "\<And>h k v. ck_ht_get ht h k = None \<Longrightarrow> fst (ck_ht_put ht h k v)"
    "ck_ring_spec ck q cp" "reg_ok ht ck q cp ctx" "list_all reg_op_ok ops"
  shows "\<exists>u' ctx'. reg_run ht ck ops (u, ctx) = Some (u', ctx') \<and> reg_ok ht ck q cp ctx'"
  using assms(4,5)
proof (induction ops arbitrary: u ctx)
  case (Cons op ops)
  obtain u' ctx' where "reg_exec ht ck op (u, ctx) = Some (u', ctx')" "reg_ok ht ck q cp ctx'"
    using reg_exec_ok [OF assms(1,2,3) Cons.prems(1), of op u] Cons.prems(2) by auto
  then show ?case using Cons.IH [of ctx' u'] Cons.prems(2) by simp
qed simp

section \<open>Theorems\<close>


text \<open>An environment in which everything succeeds, and a context before its initialisation.\<close>

definition wit_env :: "nat \<Rightarrow> io_env" where
  "wit_env p = \<lparr> env_chan = Some p, env_ctx_ok = True, env_alloc = (\<lambda>_ _. True), env_ring_valid = (\<lambda>_. True),
     env_ring_ok = True, env_open = (\<lambda>_. True), env_write = (\<lambda>_. True),
     env_load = (\<lambda>_ _. Some \<lparr> serialize = None, deserialize = Some (\<lambda>_ _ _. (0, [])) \<rparr>) \<rparr>"

definition wit_io_ctx :: "((bytes \<times> nat) list, nat list \<times> nat) jbpf_io_ctx" where
  "wit_io_ctx = (let dl = \<lparr> dl_ht = [], dl_array = replicate JBPF_IO_MAX_NUM_CHANNELS None, dl_num = 0 \<rparr> in
     \<lparr> io_type = JBPF_IO_LOCAL_PRIMARY, in_channel_list = dl, out_channel_list = dl, chan_mem = Map.empty, left_pools = [] \<rparr>)"

lemma wit_io_ctx_init [simp]:
  "jbpf_io_channel_list_init alist_ht True True wit_io_ctx = (0, wit_io_ctx)"
  "chan_mem wit_io_ctx = Map.empty" "io_type wit_io_ctx = JBPF_IO_LOCAL_PRIMARY"
  by (simp_all add: jbpf_io_channel_list_init_def alist_ht_def wit_io_ctx_def Let_def)

lemma alist_ht_put: "ck_ht_get alist_ht h k = None \<Longrightarrow> fst (ck_ht_put alist_ht h k v)"
  by (simp add: alist_ht_def)

definition wit_reg_ops :: "reg_op list" where
  "wit_reg_ops = [Reg_Create (wit_env 5) JBPF_IO_CHANNEL_OUTPUT JBPF_IO_CHANNEL_QUEUE 4 8 (replicate 16 1) [],
     Reg_Create (wit_env 6) JBPF_IO_CHANNEL_INPUT JBPF_IO_CHANNEL_QUEUE 4 8 (replicate 16 1) [1],
     Reg_Output 0 5 [1, 2, 3], Reg_Send 1 (replicate 16 1) [4], Reg_Poll, Reg_Destroy 6]"

lemma wit_reg_ops_ok [simp]: "list_all reg_op_ok wit_reg_ops"
  by (simp add: wit_reg_ops_def JBPF_IO_MAX_NUM_THREADS_def)


text \<open>The polls of an application, one after the other.\<close>

primrec polls :: "'r ck_ring_ops \<Rightarrow> nat \<Rightarrow> ('h, 'r) reg_state \<Rightarrow> ('h, 'r) reg_state option" where
  "polls ck 0 st = Some st"
| "polls ck (Suc n) st = Option.bind (jbpf_handle_out_bufs ck log_cb st) (polls ck n)"

lemma polls_spec:
  assumes "reg_inv ht ck q cp H ctx" "io_type ctx = JBPF_IO_LOCAL_PRIMARY"
  shows "\<exists>u' ctx'. polls ck n (u, ctx) = Some (u', ctx')
    \<and> (\<forall>sid. u' sid = u sid @ take (10 * n) (out_pending ht q ctx sid) \<and> out_pending ht q ctx' sid = drop (10 * n) (out_pending ht q ctx sid))"
  using assms
proof (induction n arbitrary: u ctx)
  case (Suc n)
  obtain u1 ctx1 where 1: "jbpf_handle_out_bufs ck log_cb (u, ctx) = Some (u1, ctx1)" "reg_inv ht ck q cp H ctx1"
    "\<And>sid. u1 sid = u sid @ take 10 (out_pending ht q ctx sid)" "\<And>sid. out_pending ht q ctx1 sid = drop 10 (out_pending ht q ctx sid)"
    "io_type ctx1 = JBPF_IO_LOCAL_PRIMARY"
    using handle_out_bufs_spec [OF Suc.prems, of u] by blast
  obtain u2 ctx2 where 2: "polls ck n (u1, ctx1) = Some (u2, ctx2)"
    "\<And>sid. u2 sid = u1 sid @ take (10 * n) (out_pending ht q ctx1 sid)" "\<And>sid. out_pending ht q ctx2 sid = drop (10 * n) (out_pending ht q ctx1 sid)"
    using Suc.IH [OF 1(2,5), of u1] by blast
  have "u2 sid = u sid @ take (10 * Suc n) (out_pending ht q ctx sid)" for sid
    using take_add [of 10 "10 * n" "out_pending ht q ctx sid"] by (simp add: 1(3,4) 2(2))
  moreover have "out_pending ht q ctx2 sid = drop (10 * Suc n) (out_pending ht q ctx sid)" for sid
    by (simp add: 1(4) 2(3) add.commute)
  ultimately show ?case using 1(1) 2(1) by auto
qed simp



section \<open>Decoding that fails\<close>

lemma release_reserved:
  assumes inv: "ioq_inv ck q cp H ioq" and m: "mine ioq i = Some b"
  shows "\<exists>ioq'. jbpf_io_queue_release ck (Some b) False ioq = Some ioq' \<and> mine ioq' = mine ioq
    \<and> b \<in> set (q (ring (ioq_mempool ioq')))"
proof -
  note D = ioq_invD [OF inv]
  let ?M = "mset (reserved ioq) + mset (q (ioq_ring ioq)) + H"
  have b: "b \<in># mset (reserved ioq) + mset (q (ioq_ring ioq))" using mine_reserved [OF m] by simp
  then have bM: "b \<in># ?M" by simp
  obtain mp' where mp': "mp_release ck (ioq_mempool ioq) b = Some mp'" "mpool.holds ck q cp mp' (?M - {#b#})"
    "num_elems mp' = num_elems (ioq_mempool ioq)"
    by (rule mpool.release_holds [OF D(1) bM])
  have "count ?M b = 1" by (rule D(4) [OF b])
  then have "mp_refs q mp' b = 0" using mp'(2) by (simp add: mpool.holds_def)
  moreover have "b < num_elems mp'"
  proof -
    have "0 < mp_refs q (ioq_mempool ioq) b" using D(1) bM by (simp add: mpool.holds_def)
    then show ?thesis using mp'(3) by (simp add: mp_refs_def split: if_splits)
  qed
  moreover have "mp_inv ck q cp mp'" using mp'(2) by (simp add: mpool.holds_def mp_live_def)
  ultimately have "b \<in> set (q (ring mp'))"
    by (auto simp: mp_refs_def mp_inv_def unat_eq_0 split: if_splits)
  then show ?thesis
    using mp'(1) by (auto simp: jbpf_io_queue_release_def jbpf_mbuf_free_from_data_ptr_def mp_release_def mine_def)
qed

lemma write_inv:
  assumes "ioq_inv ck q cp H (channel_ptr ch)"
  shows "ioq_inv ck q cp H (channel_ptr (chan_write b w ch)) \<and> mine (channel_ptr (chan_write b w ch)) = mine (channel_ptr ch)"
  using assms mp_store_holds [of ck q cp "ioq_mempool (channel_ptr ch)"]
  by (simp add: chan_write_def ioq_store_def ioq_inv_def mine_def reserved_def fun_eq_iff mp_store_def)

text \<open>C26: A message that does not decode leaves its buffer in two places: \<open>jbpf_io_channel_unpack_msg\<close> gives the
  buffer back to the pool but does not clear the reservation of the thread, so the buffer is free for any
  other thread, while the next reservation of this thread returns it again and takes nothing from the pool.\<close>

theorem unpack_failure_aliases:
  assumes inv: "reg_inv ht ck q cp H ctx" and ty: "io_type ctx = JBPF_IO_LOCAL_PRIMARY"
    and len: "JBPF_IO_STREAM_ID_LEN \<le> length in_data"
    and find: "jbpf_io_find_channel ht ipc_find (take JBPF_IO_STREAM_ID_LEN in_data) True ctx = Some p"
    and ch: "chan_mem ctx p = Some ch" and des: "deserialize (primary_serde ch) = Some des"
    and bad: "fst (des (drop JBPF_IO_STREAM_ID_LEN in_data) (c_int (int (length in_data) - int JBPF_IO_STREAM_ID_LEN))
        (ch_elem_size ch)) = 0"
    and t: "0 \<le> t" "t < int JBPF_IO_MAX_NUM_THREADS"
    and room: "card (ioq_used q (H p) (channel_ptr ch)) < ioq_cap (channel_ptr ch)"
  shows "\<exists>ctx' ch' b ch''. jbpf_io_channel_unpack_msg ht ck ipc_find t in_data ctx = Some (Unpack_Null, ctx')
    \<and> chan_mem ctx' p = Some ch' \<and> b \<in> set (q (ring (ioq_mempool (channel_ptr ch'))))
    \<and> jbpf_io_channel_reserve_buf ck t ch' = Some (Some b, ch'') \<and> channel_ptr ch'' = channel_ptr ch'"
proof -
  have qi: "ioq_inv ck q cp (H p) (channel_ptr ch)" and q: "ch_type ch = JBPF_IO_CHANNEL_QUEUE"
    using reg_inv_live [OF inv ch] by (auto simp: ch_inv_def)
  obtain b ioq1 where 1: "jbpf_io_queue_reserve ck t (channel_ptr ch) = Some (Some b, ioq1)" "ioq_inv ck q cp (H p) ioq1"
    "mine ioq1 (nat t) = Some b"
    using reserve_spec [OF qi t(2)] t(1) room by (fastforce split: option.splits)
  let ?ch = "ch\<lparr>channel_ptr := ioq1, elem_owner := (elem_owner ch)(b := True)\<rparr>"
  let ?out = "snd (des (drop JBPF_IO_STREAM_ID_LEN in_data) (c_int (int (length in_data) - int JBPF_IO_STREAM_ID_LEN)) (ch_elem_size ch))"
  let ?w = "chan_write b ?out ?ch"
  have w: "ioq_inv ck q cp (H p) (channel_ptr ?w)" "mine (channel_ptr ?w) (nat t) = Some b"
    using write_inv [of ck q cp "H p" ?ch b ?out] 1 by simp_all
  obtain ioq2 where 2: "jbpf_io_queue_release ck (Some b) False (channel_ptr ?w) = Some ioq2"
    "mine ioq2 (nat t) = Some b" "b \<in> set (q (ring (ioq_mempool ioq2)))"
    using release_reserved [OF w] w(2) by auto
  let ?ch2 = "?w\<lparr>channel_ptr := ioq2\<rparr>"
  have "jbpf_io_channel_unpack_msg ht ck ipc_find t in_data ctx = Some (Unpack_Null, ctx\<lparr>chan_mem := (chan_mem ctx)(p \<mapsto> ?ch2)\<rparr>)"
    using len find ch ty des q 1(1) 2(1) bad
    by (simp add: jbpf_io_channel_unpack_msg_def jbpf_io_channel_reserve_buf_def jbpf_io_channel_release_buf_def split_def)
  moreover have "jbpf_io_channel_reserve_buf ck t ?ch2 = Some (Some b, ?ch2\<lparr>elem_owner := (elem_owner ?ch2)(b := True)\<rparr>)"
    using q 2(2) t by (auto simp: jbpf_io_channel_reserve_buf_def jbpf_io_queue_reserve_def mine_def chan_write_def split: if_splits)
  ultimately show ?thesis using 2(3)
    by (intro exI [of _ "ctx\<lparr>chan_mem := (chan_mem ctx)(p \<mapsto> ?ch2)\<rparr>"] exI [of _ ?ch2] exI [of _ b]
        exI [of _ "?ch2\<lparr>elem_owner := (elem_owner ?ch2)(b := True)\<rparr>"] conjI) simp_all
qed

definition wit_req :: jbpf_io_channel_request where
  "wit_req = \<lparr> rq_elem_size = 4, rq_num_elems = 1, rq_direction = JBPF_IO_CHANNEL_OUTPUT, rq_type = JBPF_IO_CHANNEL_QUEUE,
     rq_stream_id = replicate 16 1, rq_descriptor = [1] \<rparr>"

theorem unpack_failure_aliases_witness:
  "\<exists>ctx ctx' ch' b ch''. io_create_channel alist_ht list_ring (wit_env 5) wit_req wit_io_ctx = Some (Some 5, ctx)
    \<and> jbpf_io_channel_unpack_msg alist_ht list_ring (\<lambda>_ _. None) 0 (replicate 20 1) ctx = Some (Unpack_Null, ctx')
    \<and> chan_mem ctx' 5 = Some ch' \<and> b \<in> set (fst (ring (ioq_mempool (channel_ptr ch'))))
    \<and> jbpf_io_channel_reserve_buf list_ring 0 ch' = Some (Some b, ch'') \<and> channel_ptr ch'' = channel_ptr ch'"
proof -
  obtain ioq where ioq: "jbpf_io_queue_create list_ring True (\<lambda>_ _. True) (\<lambda>_. True) True 1 12 0 = (Some ioq, None)"
    using queue_create_total [OF list_ring_spec, of 1 "\<lambda>_ _. True" "\<lambda>_. True" 12 0]
    by (auto simp: JBPF_IO_MAX_NUM_THREADS_def)
  let ?ch = "(wit_channel ioq)\<lparr>ch_stream_id := replicate 16 1,
      primary_serde := \<lparr> serialize = None, deserialize = Some (\<lambda>_ _ _. (0, [])) \<rparr>\<rparr>"
  let ?ctx = "upd_channel_list True (add_channel alist_ht 5 (replicate 16 1) (out_channel_list wit_io_ctx))
      (wit_io_ctx\<lparr>chan_mem := [5 \<mapsto> ?ch]\<rparr>)"
  have c: "io_create_channel alist_ht list_ring (wit_env 5) wit_req wit_io_ctx = Some (Some 5, ?ctx)"
    using ioq by (simp add: io_create_channel_def build_channel_def wit_env_def wit_req_def wit_io_ctx_def channel_list_def
        jbpf_io_channel_exists_def alist_ht_def jbpf_io_load_serde_def wit_channel_def sizeof_channel_elem_def c_int_def
        JBPF_IO_CHANNEL_OUTPUT_def JBPF_IO_MAX_NUM_CHANNELS_def Let_def)
  have "reg_inv alist_ht list_ring fst snd (\<lambda>_. {#}) wit_io_ctx"
    using list_init_ok [OF alist_ht_spec, of wit_io_ctx True True wit_io_ctx list_ring fst snd] by (simp add: reg_ok_def)
  from create_channel_spec [OF alist_ht_spec alist_ht_put list_ring_spec this, of "wit_env 5" wit_req]
  have inv: "reg_inv alist_ht list_ring fst snd ((\<lambda>_. {#})(5 := {#})) ?ctx"
    unfolding c by (simp add: wit_req_def JBPF_IO_MAX_NUM_THREADS_def)
  have mem: "chan_mem ?ctx 5 = Some ?ch" by simp
  have find: "jbpf_io_find_channel alist_ht (\<lambda>_ _. None) (take JBPF_IO_STREAM_ID_LEN (replicate 20 1)) True ?ctx = Some 5"
    using reg_inv_get [OF inv, of True "replicate 16 1" 5]
    by (simp add: jbpf_io_find_channel_def jbpf_io_channel_exists_def wit_channel_def JBPF_IO_STREAM_ID_LEN_def numeral_eq_Suc)
  have new: "reserved ioq = []" "fst (ioq_ring ioq) = []" "32 \<le> int (num_elems (ioq_mempool ioq))"
    using queue_create_spec [OF list_ring_spec _ _ ioq] by (simp_all add: JBPF_IO_MAX_NUM_THREADS_def)
  have "card (ioq_used fst (((\<lambda>_. {#})(5 := {#})) 5) (channel_ptr ?ch)) < ioq_cap (channel_ptr ?ch)"
    using new by (simp add: ioq_used_mset ioq_cap_def wit_channel_def)
  from unpack_failure_aliases [OF inv _ _ find mem, of "\<lambda>_ _ _. (0, [])" 0, OF _ _ _ _ _ _ this]
  show ?thesis unfolding c by (auto simp: JBPF_IO_STREAM_ID_LEN_def JBPF_IO_MAX_NUM_THREADS_def)
qed

end
