(* ===== verification/Load_Request.thy ===== *)
theory Load_Request
  imports Lookup3
begin

text \<open>
  The requests to load codelet sets, \<open>src/lcm/jbpf_lcm_api.h\<close>, and their validation, \<open>validate_string_param\<close>
  and \<open>validate_codeletset\<close> of \<open>src/core/jbpf.c\<close>.

  The string in a field of a request is the bytes before its terminator; a string of the length of the field or
  more stands for a field without a terminator.  The arrays of a request have a fixed length and a
  counter that says how many of the entries are in use; reading past the end of an array is \<^const>\<open>None\<close>.
  The log and the text of the error message are not modelled.
\<close>

section \<open>Requests\<close>

definition JBPF_CODELETSET_NAME_LEN :: nat where "JBPF_CODELETSET_NAME_LEN = 256"

definition JBPF_CODELET_NAME_LEN :: nat where "JBPF_CODELET_NAME_LEN = 256"

definition JBPF_MAP_NAME_LEN :: nat where "JBPF_MAP_NAME_LEN = 256"

definition JBPF_HOOK_NAME_LEN :: nat where "JBPF_HOOK_NAME_LEN = 256"

definition JBPF_PATH_LEN :: nat where "JBPF_PATH_LEN = 256"

definition JBPF_IO_CHANNEL_NAME_LEN :: nat where "JBPF_IO_CHANNEL_NAME_LEN = 256"

definition JBPF_MAX_IO_CHANNEL :: nat where "JBPF_MAX_IO_CHANNEL = 5"

definition JBPF_MAX_LINKED_MAPS :: nat where "JBPF_MAX_LINKED_MAPS = 10"

definition JBPF_MAX_CODELETS_IN_CODELETSET :: nat where "JBPF_MAX_CODELETS_IN_CODELETSET = 16"

lemmas request_limits = JBPF_CODELETSET_NAME_LEN_def JBPF_CODELET_NAME_LEN_def JBPF_MAP_NAME_LEN_def
  JBPF_HOOK_NAME_LEN_def JBPF_PATH_LEN_def JBPF_IO_CHANNEL_NAME_LEN_def JBPF_MAX_IO_CHANNEL_def
  JBPF_MAX_LINKED_MAPS_def JBPF_MAX_CODELETS_IN_CODELETSET_def

definition JBPF_CODELET_LOAD_SUCCESS :: int where "JBPF_CODELET_LOAD_SUCCESS = 0"

definition JBPF_CODELET_HOOK_NOT_EXIST :: int where "JBPF_CODELET_HOOK_NOT_EXIST = - 1"

definition JBPF_CODELET_CREATION_FAIL :: int where "JBPF_CODELET_CREATION_FAIL = - 2"

definition JBPF_CODELET_LOAD_FAIL :: int where "JBPF_CODELET_LOAD_FAIL = - 3"

definition JBPF_CODELET_PARAM_INVALID :: int where "JBPF_CODELET_PARAM_INVALID = - 4"

definition JBPF_CODELET_UNLOAD_SUCCESS :: int where "JBPF_CODELET_UNLOAD_SUCCESS = 0"

definition JBPF_CODELET_UNLOAD_FAIL :: int where "JBPF_CODELET_UNLOAD_FAIL = - 1"

lemmas load_codes = JBPF_CODELET_LOAD_SUCCESS_def JBPF_CODELET_HOOK_NOT_EXIST_def JBPF_CODELET_CREATION_FAIL_def
  JBPF_CODELET_LOAD_FAIL_def JBPF_CODELET_PARAM_INVALID_def JBPF_CODELET_UNLOAD_SUCCESS_def JBPF_CODELET_UNLOAD_FAIL_def

record jbpf_linked_map_descriptor =
  ld_map_name :: bytes
  ld_linked_codelet_name :: bytes
  ld_linked_map_name :: bytes

record jbpf_io_channel_desc =
  cd_name :: bytes
  cd_stream_id :: bytes
  cd_has_serde :: bool
  cd_serde :: bytes

record jbpf_codelet_descriptor =
  d_codelet_name :: bytes
  d_hook_name :: bytes
  d_codelet_path :: bytes
  d_priority :: u32
  d_runtime_threshold :: u64
  d_num_in_io_channel :: int
  d_in_io_channel :: "jbpf_io_channel_desc list"
  d_num_out_io_channel :: int
  d_out_io_channel :: "jbpf_io_channel_desc list"
  d_num_linked_maps :: int
  d_linked_maps :: "jbpf_linked_map_descriptor list"

record jbpf_codeletset_load_req =
  lr_codeletset_id :: bytes
  lr_num_codelet_descriptors :: int
  lr_codelet_descriptor :: "jbpf_codelet_descriptor list"

section \<open>Validation\<close>

definition validate_string_param :: "bytes \<Rightarrow> nat \<Rightarrow> int" where
  "validate_string_param param param_maxlen =
    (if param_maxlen = 0 then - 1
     else let len = min (length param) (param_maxlen + 1) in
       if len = 0 then 0 else if len \<ge> param_maxlen then 0 else 1)"

text \<open>A loop over indices that stops at the first one that does not pass its check.\<close>

fun all_pass :: "('i \<Rightarrow> bool option) \<Rightarrow> 'i list \<Rightarrow> bool option" where
  "all_pass f [] = Some True"
| "all_pass f (i # is) = do { b \<leftarrow> f i; if b then all_pass f is else Some False }"

definition up_to :: "int \<Rightarrow> nat list" where
  "up_to n = [0..<nat n]"

text \<open>The pairs of indices of two nested loops, the inner one behind the outer one.\<close>

definition pairs_up_to :: "int \<Rightarrow> (nat \<times> nat) list" where
  "pairs_up_to n = concat (map (\<lambda>m. map (Pair m) [Suc m..<nat n]) (up_to n))"

text \<open>\<open>file_exists\<close> is whether the file of a serialiser can be opened.\<close>

definition validate_channel :: "(bytes \<Rightarrow> bool) \<Rightarrow> jbpf_io_channel_desc \<Rightarrow> bool" where
  "validate_channel file_exists chan \<longleftrightarrow> validate_string_param (cd_name chan) JBPF_IO_CHANNEL_NAME_LEN = 1
     \<and> (cd_has_serde chan \<longrightarrow> validate_string_param (cd_serde chan) JBPF_PATH_LEN = 1 \<and> file_exists (cd_serde chan))"

definition validate_linked_map :: "jbpf_linked_map_descriptor \<Rightarrow> bool" where
  "validate_linked_map l \<longleftrightarrow> validate_string_param (ld_map_name l) JBPF_MAP_NAME_LEN = 1
     \<and> validate_string_param (ld_linked_codelet_name l) JBPF_CODELET_NAME_LEN = 1
     \<and> validate_string_param (ld_linked_map_name l) JBPF_MAP_NAME_LEN = 1"

definition validate_codelet :: "(bytes \<Rightarrow> bool) \<Rightarrow> jbpf_codelet_descriptor \<Rightarrow> bool option" where
  "validate_codelet file_exists d =
    (if validate_string_param (d_codelet_name d) JBPF_CODELET_NAME_LEN \<noteq> 1 then Some False
     else if validate_string_param (d_hook_name d) JBPF_HOOK_NAME_LEN \<noteq> 1 then Some False
     else if validate_string_param (d_codelet_path d) JBPF_PATH_LEN \<noteq> 1 then Some False
     else do {
       ins \<leftarrow> all_pass (\<lambda>i. map_option (validate_channel file_exists) (arr_get (d_in_io_channel d) i)) (up_to (d_num_in_io_channel d));
       if \<not> ins then Some False else do {
       outs \<leftarrow> all_pass (\<lambda>i. map_option (validate_channel file_exists) (arr_get (d_out_io_channel d) i)) (up_to (d_num_out_io_channel d));
       if \<not> outs then Some False else do {
       links \<leftarrow> all_pass (\<lambda>i. map_option validate_linked_map (arr_get (d_linked_maps d) i)) (up_to (d_num_linked_maps d));
       if \<not> links then Some False else do {
       other \<leftarrow> all_pass (\<lambda>i. map_option (\<lambda>l. ld_linked_codelet_name l \<noteq> d_codelet_name d) (arr_get (d_linked_maps d) i))
         (up_to (d_num_linked_maps d));
       if \<not> other then Some False else do {
       names \<leftarrow> all_pass (\<lambda>(m, j). do {
           l \<leftarrow> arr_get (d_linked_maps d) m; l' \<leftarrow> arr_get (d_linked_maps d) j;
           Some (ld_map_name l \<noteq> ld_map_name l') }) (pairs_up_to (d_num_linked_maps d));
       if \<not> names then Some False else
       all_pass (\<lambda>(m, j). do {
           l \<leftarrow> arr_get (d_linked_maps d) m; l' \<leftarrow> arr_get (d_linked_maps d) j;
           Some (\<not> (ld_linked_codelet_name l = ld_linked_codelet_name l' \<and> ld_linked_map_name l = ld_linked_map_name l')) })
         (pairs_up_to (d_num_linked_maps d))
     }}}}})"

text \<open>The comparison of the number of codelets with the maximum is one of unsigned numbers.\<close>

definition validate_codeletset ::
  "(bytes \<Rightarrow> bool) \<Rightarrow> jbpf_codeletset_load_req option \<Rightarrow> int option" where
  "validate_codeletset file_exists load_req =
    (case load_req of
       None \<Rightarrow> Some JBPF_CODELET_LOAD_FAIL
     | Some req \<Rightarrow>
        if validate_string_param (lr_codeletset_id req) JBPF_CODELETSET_NAME_LEN \<noteq> 1 then Some JBPF_CODELET_PARAM_INVALID
        else if lr_num_codelet_descriptors req = 0 then Some JBPF_CODELET_PARAM_INVALID
        else if c_u32 (lr_num_codelet_descriptors req) > JBPF_MAX_CODELETS_IN_CODELETSET then Some JBPF_CODELET_PARAM_INVALID
        else do {
          ok \<leftarrow> all_pass (\<lambda>i. Option.bind (arr_get (lr_codelet_descriptor req) i) (validate_codelet file_exists))
            (up_to (lr_num_codelet_descriptors req));
          if \<not> ok then Some JBPF_CODELET_PARAM_INVALID else do {
          uniq \<leftarrow> all_pass (\<lambda>(i, j). do {
              d \<leftarrow> arr_get (lr_codelet_descriptor req) i; d' \<leftarrow> arr_get (lr_codelet_descriptor req) j;
              Some (d_codelet_name d \<noteq> d_codelet_name d') }) (pairs_up_to (lr_num_codelet_descriptors req));
          if \<not> uniq then Some JBPF_CODELET_PARAM_INVALID else Some JBPF_CODELET_LOAD_SUCCESS
        }})"

section \<open>What validation accepts\<close>

text \<open>A request as the interface describes it: the arrays have their lengths and the counters are in range.\<close>

definition descriptor_fits :: "jbpf_codelet_descriptor \<Rightarrow> bool" where
  "descriptor_fits d \<longleftrightarrow> length (d_in_io_channel d) = JBPF_MAX_IO_CHANNEL \<and> length (d_out_io_channel d) = JBPF_MAX_IO_CHANNEL
    \<and> length (d_linked_maps d) = JBPF_MAX_LINKED_MAPS
    \<and> d_num_in_io_channel d \<le> int JBPF_MAX_IO_CHANNEL \<and> d_num_out_io_channel d \<le> int JBPF_MAX_IO_CHANNEL
    \<and> d_num_linked_maps d \<le> int JBPF_MAX_LINKED_MAPS"

definition in_channels :: "jbpf_codelet_descriptor \<Rightarrow> jbpf_io_channel_desc list" where
  "in_channels d = take (nat (d_num_in_io_channel d)) (d_in_io_channel d)"

definition out_channels :: "jbpf_codelet_descriptor \<Rightarrow> jbpf_io_channel_desc list" where
  "out_channels d = take (nat (d_num_out_io_channel d)) (d_out_io_channel d)"

definition links :: "jbpf_codelet_descriptor \<Rightarrow> jbpf_linked_map_descriptor list" where
  "links d = take (nat (d_num_linked_maps d)) (d_linked_maps d)"

definition req_codelets :: "jbpf_codeletset_load_req \<Rightarrow> jbpf_codelet_descriptor list" where
  "req_codelets req = take (nat (lr_num_codelet_descriptors req)) (lr_codelet_descriptor req)"

text \<open>A name that is set and fits in its field.\<close>

definition name_ok :: "bytes \<Rightarrow> bool" where
  "name_ok s \<longleftrightarrow> s \<noteq> [] \<and> length s < 256"

definition channel_ok :: "(bytes \<Rightarrow> bool) \<Rightarrow> jbpf_io_channel_desc \<Rightarrow> bool" where
  "channel_ok file_exists chan \<longleftrightarrow> name_ok (cd_name chan) \<and> (cd_has_serde chan \<longrightarrow> name_ok (cd_serde chan) \<and> file_exists (cd_serde chan))"

definition codelet_ok :: "(bytes \<Rightarrow> bool) \<Rightarrow> jbpf_codelet_descriptor \<Rightarrow> bool" where
  "codelet_ok file_exists d \<longleftrightarrow> name_ok (d_codelet_name d) \<and> name_ok (d_hook_name d) \<and> name_ok (d_codelet_path d)
    \<and> list_all (channel_ok file_exists) (in_channels d) \<and> list_all (channel_ok file_exists) (out_channels d)
    \<and> list_all (\<lambda>l. name_ok (ld_map_name l) \<and> name_ok (ld_linked_codelet_name l) \<and> name_ok (ld_linked_map_name l)
        \<and> ld_linked_codelet_name l \<noteq> d_codelet_name d) (links d)
    \<and> distinct (map ld_map_name (links d))
    \<and> distinct (map (\<lambda>l. (ld_linked_codelet_name l, ld_linked_map_name l)) (links d))"

lemma list_all_replicate [simp]: "P x \<Longrightarrow> list_all P (replicate n x)"
  by (simp add: list_all_length)

lemma string_param_ok: "validate_string_param s 256 = 1 \<longleftrightarrow> name_ok s"
  by (auto simp: validate_string_param_def name_ok_def Let_def min_def)

lemma all_pass_total:
  "(\<And>i. i \<in> set is \<Longrightarrow> f i = Some (P i)) \<Longrightarrow> all_pass f is = Some (list_all P is)"
  by (induction "is") simp_all

lemma all_pass_take:
  assumes "n \<le> int (length xs)"
  shows "all_pass (\<lambda>i. map_option P (arr_get xs i)) (up_to n) = Some (list_all P (take (nat n) xs))"
proof -
  have "all_pass (\<lambda>i. map_option P (arr_get xs i)) (up_to n) = Some (list_all (\<lambda>i. P (xs ! i)) (up_to n))"
    using assms by (intro all_pass_total) (auto simp: up_to_def arr_get_def)
  moreover have "list_all (\<lambda>i. P (xs ! i)) (up_to n) \<longleftrightarrow> list_all P (take (nat n) xs)"
    using assms by (auto simp: up_to_def list_all_length)
  ultimately show ?thesis by simp
qed

lemma sorted_wrt_neq: "sorted_wrt (\<noteq>) xs \<longleftrightarrow> distinct xs"
  by (induction xs) auto

lemma all_pass_pairs:
  assumes "n \<le> int (length xs)"
  shows "all_pass (\<lambda>(m, j). do { x \<leftarrow> arr_get xs m; y \<leftarrow> arr_get xs j; Some (g x \<noteq> g y) }) (pairs_up_to n)
    = Some (distinct (map g (take (nat n) xs)))"
proof -
  have "all_pass (\<lambda>(m, j). do { x \<leftarrow> arr_get xs m; y \<leftarrow> arr_get xs j; Some (g x \<noteq> g y) }) (pairs_up_to n)
      = Some (list_all (\<lambda>(m, j). g (xs ! m) \<noteq> g (xs ! j)) (pairs_up_to n))"
    using assms by (intro all_pass_total) (auto simp: pairs_up_to_def up_to_def arr_get_def)
  moreover have "list_all (\<lambda>(m, j). g (xs ! m) \<noteq> g (xs ! j)) (pairs_up_to n) \<longleftrightarrow> distinct (map g (take (nat n) xs))"
  proof -
    have "list_all (\<lambda>(m, j). g (xs ! m) \<noteq> g (xs ! j)) (pairs_up_to n)
        \<longleftrightarrow> (\<forall>m j. m < j \<and> j < nat n \<longrightarrow> g (xs ! m) \<noteq> g (xs ! j))"
      by (fastforce simp: pairs_up_to_def up_to_def list_all_iff)
    also have "\<dots> \<longleftrightarrow> sorted_wrt (\<noteq>) (map g (take (nat n) xs))"
      using assms by (auto simp: sorted_wrt_iff_nth_less)
    also have "\<dots> \<longleftrightarrow> distinct (map g (take (nat n) xs))"
      by (rule sorted_wrt_neq)
    finally show ?thesis .
  qed
  ultimately show ?thesis by simp
qed

lemma validate_codelet_spec:
  assumes "descriptor_fits d"
  shows "validate_codelet file_exists d = Some (codelet_ok file_exists d)"
proof -
  have ch: "validate_channel file_exists = channel_ok file_exists"
    by (auto simp: fun_eq_iff validate_channel_def channel_ok_def request_limits string_param_ok)
  have ln: "validate_linked_map = (\<lambda>l. name_ok (ld_map_name l) \<and> name_ok (ld_linked_codelet_name l) \<and> name_ok (ld_linked_map_name l))"
    by (auto simp: fun_eq_iff validate_linked_map_def request_limits string_param_ok)
  have n: "d_num_in_io_channel d \<le> int (length (d_in_io_channel d))" "d_num_out_io_channel d \<le> int (length (d_out_io_channel d))"
    "d_num_linked_maps d \<le> int (length (d_linked_maps d))"
    using assms by (auto simp: descriptor_fits_def)
  have pair: "(\<lambda>(m, j). do { l \<leftarrow> arr_get (d_linked_maps d) m; l' \<leftarrow> arr_get (d_linked_maps d) j;
        Some (\<not> (ld_linked_codelet_name l = ld_linked_codelet_name l' \<and> ld_linked_map_name l = ld_linked_map_name l')) })
      = (\<lambda>(m, j). do { l \<leftarrow> arr_get (d_linked_maps d) m; l' \<leftarrow> arr_get (d_linked_maps d) j;
        Some ((ld_linked_codelet_name l, ld_linked_map_name l) \<noteq> (ld_linked_codelet_name l', ld_linked_map_name l')) })"
    by simp
  have split: "list_all (\<lambda>l. P l \<and> Q l) xs \<longleftrightarrow> list_all P xs \<and> list_all Q xs" for P Q :: "'z \<Rightarrow> bool" and xs
    by (auto simp: list_all_iff)
  show ?thesis
    unfolding validate_codelet_def pair ch ln all_pass_take [OF n(1)] all_pass_take [OF n(2)] all_pass_take [OF n(3)]
      all_pass_pairs [OF n(3)]
    by (auto simp: codelet_ok_def in_channels_def out_channels_def links_def request_limits string_param_ok split)
qed


definition wit_desc :: jbpf_codelet_descriptor where
  "wit_desc = \<lparr> d_codelet_name = [99], d_hook_name = [104], d_codelet_path = [112], d_priority = 1, d_runtime_threshold = 0,
     d_num_in_io_channel = 0, d_in_io_channel = replicate 5 \<lparr> cd_name = [], cd_stream_id = [], cd_has_serde = False, cd_serde = [] \<rparr>,
     d_num_out_io_channel = 0, d_out_io_channel = replicate 5 \<lparr> cd_name = [], cd_stream_id = [], cd_has_serde = False, cd_serde = [] \<rparr>,
     d_num_linked_maps = 0, d_linked_maps = replicate 10 \<lparr> ld_map_name = [109], ld_linked_codelet_name = [100], ld_linked_map_name = [110] \<rparr> \<rparr>"

definition wit_load_req :: "jbpf_codelet_descriptor \<Rightarrow> jbpf_codeletset_load_req" where
  "wit_load_req d = \<lparr> lr_codeletset_id = [115], lr_num_codelet_descriptors = 1, lr_codelet_descriptor = d # replicate 15 d \<rparr>"


text \<open>C29: The number of linked maps of a codelet is not compared with \<open>JBPF_MAX_LINKED_MAPS\<close>: if the ten entries of
  the array are well-formed and the counter says that there are more, validation reads past the end of the array
  instead of rejecting the request.\<close>

theorem linked_maps_count_unchecked:
  assumes "name_ok (lr_codeletset_id req)" and "1 \<le> lr_num_codelet_descriptors req" and "lr_num_codelet_descriptors req \<le> 16"
    and "lr_codelet_descriptor req = d # ds"
    and "name_ok (d_codelet_name d)" "name_ok (d_hook_name d)" "name_ok (d_codelet_path d)"
    and "d_num_in_io_channel d = 0" and "d_num_out_io_channel d = 0"
    and "length (d_linked_maps d) = JBPF_MAX_LINKED_MAPS" and "list_all validate_linked_map (d_linked_maps d)"
    and "d_num_linked_maps d > int JBPF_MAX_LINKED_MAPS"
  shows "validate_codeletset file_exists (Some req) = None"
proof -
  have "up_to (d_num_linked_maps d) = [0..<length (d_linked_maps d)] @ [length (d_linked_maps d)..<nat (d_num_linked_maps d)]"
  proof -
    have "length (d_linked_maps d) \<le> nat (d_num_linked_maps d)" using assms(10,12) by simp
    then show ?thesis
      using upt_add_eq_append [of 0 "length (d_linked_maps d)" "nat (d_num_linked_maps d) - length (d_linked_maps d)"]
      by (simp add: up_to_def)
  qed
  moreover have "all_pass f (is @ js) = (case all_pass f is of None \<Rightarrow> None | Some b \<Rightarrow> if b then all_pass f js else Some False)"
    for f :: "nat \<Rightarrow> bool option" and "is" js
    by (induction "is") (auto split: option.splits bind_splits)
  moreover have "all_pass (\<lambda>i. map_option validate_linked_map (arr_get (d_linked_maps d) i)) [0..<length (d_linked_maps d)] = Some True"
    using all_pass_take [of "int (length (d_linked_maps d))" "d_linked_maps d" validate_linked_map] assms(11)
    by (simp add: up_to_def)
  moreover have "[length (d_linked_maps d)..<nat (d_num_linked_maps d)] \<noteq> []" using assms(10,12) by simp
  ultimately have "all_pass (\<lambda>i. map_option validate_linked_map (arr_get (d_linked_maps d) i)) (up_to (d_num_linked_maps d)) = None"
    using assms(10,12) by (simp add: upt_conv_Cons arr_get_def)
  then have "validate_codelet file_exists d = None"
    using assms(5-9) by (simp add: validate_codelet_def request_limits string_param_ok up_to_def)
  moreover have "up_to (lr_num_codelet_descriptors req) = 0 # [1..<nat (lr_num_codelet_descriptors req)]"
    using assms(2) by (simp add: up_to_def upt_conv_Cons)
  ultimately show ?thesis
    using assms(1-4) by (simp add: validate_codeletset_def request_limits string_param_ok c_u32_id arr_get_def)
qed

theorem linked_maps_count_unchecked_witness:
  "validate_codeletset (\<lambda>_. True) (Some (wit_load_req (wit_desc\<lparr>d_num_linked_maps := 11\<rparr>))) = None"
  by (rule linked_maps_count_unchecked [where d = "wit_desc\<lparr>d_num_linked_maps := 11\<rparr>" and ds = "replicate 15 (wit_desc\<lparr>d_num_linked_maps := 11\<rparr>)"])
    (simp_all add: wit_load_req_def wit_desc_def name_ok_def request_limits list_all_length validate_linked_map_def string_param_ok)

end
