(* ===== verification/Maps.thy ===== *)
theory Maps
  imports Array_Map Spsc_Hashmap Hashmap Io_Registry Load_Request
begin

text \<open>
  The maps of codelets as the core creates and destroys them: \<open>jbpf_create_map\<close>, \<open>jbpf_destroy_map\<close> and
  \<open>jbpf_release_map\<close> of \<open>src/core/jbpf.c\<close> over the four kinds of maps and the channels.  A map is a
  structure in memory with a pointer to its data, because codelets that link a map have structures of their own
  with one and the same data.  \<open>nmap_reg\<close> is the number of registered maps of the context.

  Addresses are the numbers of the calls of the allocator: \<open>clock\<close> counts the calls, and an address is never
  used again.  What the allocator answers to the call \<open>n\<close> and to the calls of the creations below it is the
  environment \<open>E n\<close>.  A fault, such as the use of a null pointer, or the exit of the process is an outer \<^const>\<open>None\<close>.
\<close>

section \<open>State\<close>

definition JBPF_MAP_TYPE_ARRAY :: nat where "JBPF_MAP_TYPE_ARRAY = 1"

definition JBPF_MAP_TYPE_HASHMAP :: nat where "JBPF_MAP_TYPE_HASHMAP = 2"

definition JBPF_MAP_TYPE_RINGBUF :: nat where "JBPF_MAP_TYPE_RINGBUF = 3"

definition JBPF_MAP_TYPE_CONTROL_INPUT :: nat where "JBPF_MAP_TYPE_CONTROL_INPUT = 4"

definition JBPF_MAP_TYPE_PER_THREAD_ARRAY :: nat where "JBPF_MAP_TYPE_PER_THREAD_ARRAY = 5"

definition JBPF_MAP_TYPE_PER_THREAD_HASHMAP :: nat where "JBPF_MAP_TYPE_PER_THREAD_HASHMAP = 6"

definition JBPF_MAP_TYPE_OUTPUT :: nat where "JBPF_MAP_TYPE_OUTPUT = 7"

lemmas map_types = JBPF_MAP_TYPE_ARRAY_def JBPF_MAP_TYPE_HASHMAP_def JBPF_MAP_TYPE_RINGBUF_def
  JBPF_MAP_TYPE_CONTROL_INPUT_def JBPF_MAP_TYPE_PER_THREAD_ARRAY_def JBPF_MAP_TYPE_PER_THREAD_HASHMAP_def
  JBPF_MAP_TYPE_OUTPUT_def

definition MAX_NUM_MAPS :: int where
  "MAX_NUM_MAPS = 65535"

text \<open>Names are strings of bytes without their terminator.\<close>

record jbpf_map =
  m_type :: nat
  m_key_size :: u32
  m_value_size :: u32
  m_max_entries :: u32
  m_name :: bytes
  m_data :: nat

text \<open>What the data pointer of a map points to.  The data of a map for input or output is a channel, which is
  in the memory of the I/O context.  The entry of a thread is missing when its creation has failed.\<close>

datatype ('h, 'r) map_data =
    Array_Data array_map
  | Hashmap_Data "('h, 'r) jbpf_bpf_hashmap"
  | Thread_Arrays "array_map option list"
  | Thread_Hashmaps "spsc_hashmap option list"

text \<open>\<open>left_hm_pools\<close> are the pools of hash maps that were destroyed and wait for their last buffer.\<close>

record ('h, 'r) maps_ctx =
  nmap_reg :: int
  clock :: nat
  map_mem :: "nat \<Rightarrow> jbpf_map option"
  data_mem :: "nat \<Rightarrow> ('h, 'r) map_data option"
  io_ctx :: "('h, 'r) jbpf_io_ctx"
  left_hm_pools :: "(nat \<times> 'r jbpf_mempool) list"

record map_env =
  me_ok :: bool
  me_array :: "nat \<Rightarrow> nat \<Rightarrow> bool"
  me_spsc :: "nat \<Rightarrow> nat \<Rightarrow> bool"
  me_spsc_ht :: "nat \<Rightarrow> nat \<Rightarrow> bool"
  me_hmap :: bool
  me_pool_ctx :: bool
  me_pool :: "bool \<Rightarrow> pool_block \<Rightarrow> bool"
  me_perthread :: bool
  me_io :: io_env

text \<open>The code that is not part of the sources, and the requests to the I/O control thread.\<close>

record ('h, 'r) core_ops =
  ops_ht :: "(bytes, nat, 'h) ck_ht_ops"
  ops_ck :: "'r ck_ring_ops"
  ops_ipc_create :: "jbpf_io_channel_request \<Rightarrow> ('h, 'r) jbpf_io_ctx \<Rightarrow> (nat option \<times> ('h, 'r) jbpf_io_ctx) option"
  ops_ipc_destroy :: "nat \<Rightarrow> ('h, 'r) jbpf_io_ctx \<Rightarrow> ('h, 'r) jbpf_io_ctx option"

section \<open>Operations\<close>

definition jbpf_get_num_reg_jbpf_maps :: "('h, 'r) maps_ctx \<Rightarrow> int" where
  "jbpf_get_num_reg_jbpf_maps st = nmap_reg st"

text \<open>The data of a map that is not for input or output: a null pointer is \<open>Some None\<close>.  The array of the maps of
  the threads is used without a check.\<close>

definition create_data ::
  "('h, 'r) core_ops \<Rightarrow> map_env \<Rightarrow> jbpf_load_map_def \<Rightarrow> ('h, 'r) map_data option option" where
  "create_data ops env map_def =
    (if md_type map_def = JBPF_MAP_TYPE_ARRAY then
       Some (map_option Array_Data (jbpf_bpf_array_create (me_array env 0) map_def))
     else if md_type map_def = JBPF_MAP_TYPE_HASHMAP then
       Some (map_option Hashmap_Data (jbpf_bpf_hashmap_create (ops_ht ops) (ops_ck ops) (me_hmap env) (me_pool_ctx env)
         (me_pool env) map_def))
     else if md_type map_def = JBPF_MAP_TYPE_PER_THREAD_ARRAY then
       (if \<not> me_perthread env then None
        else Some (Some (Thread_Arrays
          (map (\<lambda>map_id. jbpf_bpf_array_create (me_array env map_id) map_def) [0..<JBPF_MAX_NUM_REG_THREADS]))))
     else if md_type map_def = JBPF_MAP_TYPE_PER_THREAD_HASHMAP then
       (if \<not> me_perthread env then None
        else Some (Some (Thread_Hashmaps
          (map (\<lambda>map_id. jbpf_bpf_spsc_hashmap_create (me_spsc env map_id) (me_spsc_ht env map_id) map_def)
             [0..<JBPF_MAX_NUM_REG_THREADS]))))
     else Some None)"

definition is_io_type :: "nat \<Rightarrow> bool" where
  "is_io_type t \<longleftrightarrow> t = JBPF_MAP_TYPE_RINGBUF \<or> t = JBPF_MAP_TYPE_OUTPUT \<or> t = JBPF_MAP_TYPE_CONTROL_INPUT"

text \<open>\<open>io_def\<close> has the stream identifier of a channel and the object file of its serialisers, empty when there is
  none.  The structure, its data and its channel have the number of the call as their addresses.\<close>

definition jbpf_create_map ::
  "('h, 'r) core_ops \<Rightarrow> (nat \<Rightarrow> map_env) \<Rightarrow> bytes \<Rightarrow> jbpf_load_map_def \<Rightarrow> (bytes \<times> bytes) option
    \<Rightarrow> ('h, 'r) maps_ctx \<Rightarrow> (nat option \<times> ('h, 'r) maps_ctx) option" where
  "jbpf_create_map ops E name map_def io_def st =
    (if jbpf_get_num_reg_jbpf_maps st = MAX_NUM_MAPS then Some (None, st)
     else
       let p = clock st; env = E p; st = st\<lparr>clock := Suc p\<rparr>;
           mp = \<lparr> m_type = md_type map_def, m_key_size = md_key_size map_def, m_value_size = md_value_size map_def,
                 m_max_entries = md_max_entries map_def, m_name = take (JBPF_MAP_NAME_LEN - 1) name, m_data = p \<rparr>
       in if \<not> me_ok env then Some (None, st)
          else if is_io_type (md_type map_def) then
            (case io_def of
               None \<Rightarrow> Some (None, st)
             | Some (stream_id, descriptor) \<Rightarrow>
                let direction = (if md_type map_def = JBPF_MAP_TYPE_CONTROL_INPUT then JBPF_IO_CHANNEL_INPUT
                      else JBPF_IO_CHANNEL_OUTPUT)
                in do {
                     (chan, io) \<leftarrow> jbpf_io_create_channel (ops_ht ops) (ops_ck ops) (ops_ipc_create ops)
                       ((me_io env)\<lparr>env_chan := map_option (\<lambda>_. p) (env_chan (me_io env))\<rparr>) direction JBPF_IO_CHANNEL_QUEUE
                       (c_int (uint (md_max_entries map_def))) (c_int (uint (md_value_size map_def)))
                       stream_id descriptor (io_ctx st);
                     let st = st\<lparr>io_ctx := io\<rparr>;
                     (case chan of
                        None \<Rightarrow> Some (None, st)
                      | Some c \<Rightarrow> Some (Some p, st\<lparr>map_mem := (map_mem st)(p \<mapsto> mp\<lparr>m_data := c\<rparr>), nmap_reg := nmap_reg st + 1\<rparr>))
                   })
          else do {
            data \<leftarrow> create_data ops env map_def;
            (case data of
               None \<Rightarrow> Some (None, st)
             | Some d \<Rightarrow> Some (Some p, st\<lparr>map_mem := (map_mem st)(p \<mapsto> mp), data_mem := (data_mem st)(p \<mapsto> d),
                 nmap_reg := nmap_reg st + 1\<rparr>))
          })"

text \<open>The destruction of the data of a map by its type.\<close>

definition destroy_data ::
  "('h, 'r) core_ops \<Rightarrow> jbpf_map \<Rightarrow> ('h, 'r) maps_ctx \<Rightarrow> ('h, 'r) maps_ctx option" where
  "destroy_data ops mp st =
    (if is_io_type (m_type mp) then do {
       io \<leftarrow> jbpf_io_destroy_channel (ops_ht ops) (ops_ck ops) (ops_ipc_destroy ops) (m_data mp) (io_ctx st);
       Some (st\<lparr>io_ctx := io\<rparr>)
     }
     else do {
       data \<leftarrow> data_mem st (m_data mp);
       let freed = st\<lparr>data_mem := (data_mem st)(m_data mp := None)\<rparr>;
       (case data of
          Array_Data _ \<Rightarrow> if m_type mp = JBPF_MAP_TYPE_ARRAY then Some freed else None
        | Hashmap_Data hm \<Rightarrow>
           if m_type mp = JBPF_MAP_TYPE_HASHMAP then do {
             pool \<leftarrow> jbpf_bpf_hashmap_destroy (ops_ck ops) hm;
             Some (freed\<lparr>left_hm_pools := (if mp_freed pool then [] else [(m_data mp, pool)]) @ left_hm_pools st\<rparr>)
           } else None
        | Thread_Arrays _ \<Rightarrow> if m_type mp = JBPF_MAP_TYPE_PER_THREAD_ARRAY then Some freed else None
        | Thread_Hashmaps hms \<Rightarrow>
           if m_type mp = JBPF_MAP_TYPE_PER_THREAD_HASHMAP \<and> None \<notin> set hms then Some freed else None)
     })"

definition jbpf_destroy_map ::
  "('h, 'r) core_ops \<Rightarrow> nat \<Rightarrow> ('h, 'r) maps_ctx \<Rightarrow> ('h, 'r) maps_ctx option" where
  "jbpf_destroy_map ops p st = do {
     mp \<leftarrow> map_mem st p;
     st \<leftarrow> destroy_data ops mp st;
     Some (st\<lparr>map_mem := (map_mem st)(p := None)\<rparr>)
   }"

definition jbpf_release_map ::
  "('h, 'r) core_ops \<Rightarrow> nat option \<Rightarrow> ('h, 'r) maps_ctx \<Rightarrow> ('h, 'r) maps_ctx option" where
  "jbpf_release_map ops mp st =
    (let st = st\<lparr>nmap_reg := nmap_reg st - 1\<rparr> in
     case mp of None \<Rightarrow> Some st | Some p \<Rightarrow> jbpf_destroy_map ops p st)"

end
