(* ===== verification/Helpers.thy ===== *)
theory Helpers
  imports Maps
begin

text \<open>
  The helper functions that codelets call, \<open>src/core/jbpf_helper_impl.c\<close>: the operations on maps, which
  dispatch on the type of the map and, for the maps of threads, on the identifier of the calling
  thread, the output and the input of messages, the measurement of the running time, and the table of the
  helpers.

  \<open>tid\<close> is the hook thread identifier of the caller, -1 for a thread that has none.  A map or a key that is
  \<^const>\<open>None\<close> is a null pointer.  A lookup gives the value at the pointer it returns.
\<close>

section \<open>Operations on maps\<close>

text \<open>The entry of the calling thread in the data of a map of threads.\<close>

definition thread_entry :: "'a option list \<Rightarrow> int \<Rightarrow> 'a option" where
  "thread_entry xs tid = (if tid < 0 then None else Option.bind (arr_get xs (nat tid)) id)"

definition put_entry :: "'a option list \<Rightarrow> int \<Rightarrow> 'a \<Rightarrow> 'a option list" where
  "put_entry xs tid x = xs[nat tid := Some x]"

text \<open>The switch on the type of the map, which all the operations have: \<open>noid\<close> is the answer to a thread
  without an identifier, \<open>other\<close> the answer for types that do not have the operation, and so for arrays
  when \<open>fa\<close> is missing.\<close>

definition map_dispatch ::
  "int \<Rightarrow> 'a \<Rightarrow> 'a \<Rightarrow> (array_map \<Rightarrow> ('a \<times> array_map) option) option
    \<Rightarrow> (('h, 'r) jbpf_bpf_hashmap \<Rightarrow> ('a \<times> ('h, 'r) jbpf_bpf_hashmap) option)
    \<Rightarrow> (spsc_hashmap \<Rightarrow> ('a \<times> spsc_hashmap) option) \<Rightarrow> jbpf_map \<Rightarrow> ('h, 'r) maps_ctx \<Rightarrow> ('a \<times> ('h, 'r) maps_ctx) option" where
  "map_dispatch tid noid other fa fh fs mp st =
    (let put = (\<lambda>d. st\<lparr>data_mem := (data_mem st)(m_data mp \<mapsto> d)\<rparr>); data = data_mem st (m_data mp) in
     if m_type mp = JBPF_MAP_TYPE_ARRAY then
       (case fa of
          None \<Rightarrow> Some (other, st)
        | Some f \<Rightarrow>
           (case data of
              Some (Array_Data am) \<Rightarrow> do { (r, am) \<leftarrow> f am; Some (r, put (Array_Data am)) }
            | _ \<Rightarrow> None))
     else if m_type mp = JBPF_MAP_TYPE_HASHMAP then
       (case data of
          Some (Hashmap_Data hm) \<Rightarrow> do { (r, hm) \<leftarrow> fh hm; Some (r, put (Hashmap_Data hm)) }
        | _ \<Rightarrow> None)
     else if m_type mp = JBPF_MAP_TYPE_PER_THREAD_ARRAY then
       (case fa of
          None \<Rightarrow> Some (other, st)
        | Some f \<Rightarrow>
           if tid = - 1 then Some (noid, st)
           else (case data of
             Some (Thread_Arrays ams) \<Rightarrow> do {
               am \<leftarrow> thread_entry ams tid;
               (r, am) \<leftarrow> f am;
               Some (r, put (Thread_Arrays (put_entry ams tid am)))
             }
           | _ \<Rightarrow> None))
     else if m_type mp = JBPF_MAP_TYPE_PER_THREAD_HASHMAP then
       (if tid = - 1 then Some (noid, st)
        else (case data of
          Some (Thread_Hashmaps hms) \<Rightarrow> do {
            hm \<leftarrow> thread_entry hms tid;
            (r, hm) \<leftarrow> fs hm;
            Some (r, put (Thread_Hashmaps (put_entry hms tid hm)))
          }
        | _ \<Rightarrow> None))
     else Some (other, st))"

text \<open>The operations of the maps, with the value at the returned pointer.\<close>

definition hm_value :: "('h, 'r) jbpf_bpf_hashmap \<Rightarrow> nat option \<Rightarrow> bytes option" where
  "hm_value hm b = map_option (\<lambda>b. snd (hm_bufs hm b)) b"

definition jbpf_map_lookup_elem ::
  "('h, 'r) core_ops \<Rightarrow> int \<Rightarrow> nat option \<Rightarrow> bytes option \<Rightarrow> ('h, 'r) maps_ctx \<Rightarrow> (bytes option \<times> ('h, 'r) maps_ctx) option" where
  "jbpf_map_lookup_elem ops tid mp key st =
    (case mp of None \<Rightarrow> Some (None, st) | Some p \<Rightarrow>
     (case key of None \<Rightarrow> Some (None, st) | Some key \<Rightarrow> do {
       mp \<leftarrow> map_mem st p;
       if m_name mp = [] then Some (None, st)
       else map_dispatch tid None None
         (Some (\<lambda>am. do { v \<leftarrow> am_lookup am key; Some (v, am) }))
         (\<lambda>hm. Some (hm_value hm (jbpf_bpf_hashmap_lookup_elem (ops_ht ops) hm key), hm))
         (\<lambda>hm. do { v \<leftarrow> sh_lookup hm key; Some (v, hm) }) mp st
     }))"

text \<open>The result says whether there was an entry, whose value is zero now.\<close>

definition jbpf_map_lookup_reset_elem ::
  "('h, 'r) core_ops \<Rightarrow> int \<Rightarrow> nat option \<Rightarrow> bytes option \<Rightarrow> ('h, 'r) maps_ctx \<Rightarrow> (bool \<times> ('h, 'r) maps_ctx) option" where
  "jbpf_map_lookup_reset_elem ops tid mp key st =
    (case mp of None \<Rightarrow> Some (False, st) | Some p \<Rightarrow>
     (case key of None \<Rightarrow> Some (False, st) | Some key \<Rightarrow> do {
       mp \<leftarrow> map_mem st p;
       if m_name mp = [] then Some (False, st)
       else map_dispatch tid False False
         (Some (\<lambda>am. do { (r, am) \<leftarrow> jbpf_bpf_array_reset_elem am key; Some (r \<noteq> None, am) }))
         (\<lambda>hm. let (r, hm) = jbpf_bpf_hashmap_reset_elem (ops_ht ops) hm key in Some (r \<noteq> None, hm))
         (\<lambda>hm. do { (r, hm) \<leftarrow> jbpf_bpf_spsc_hashmap_reset_elem hm key; Some (r \<noteq> None, hm) })
         mp st
     }))"

definition jbpf_map_update_elem ::
  "('h, 'r) core_ops \<Rightarrow> int \<Rightarrow> nat option \<Rightarrow> bytes option \<Rightarrow> bytes option \<Rightarrow> u64 \<Rightarrow> ('h, 'r) maps_ctx
    \<Rightarrow> (int \<times> ('h, 'r) maps_ctx) option" where
  "jbpf_map_update_elem ops tid mp key item flags st =
    (case mp of None \<Rightarrow> Some (- 1, st) | Some p \<Rightarrow>
     (case key of None \<Rightarrow> Some (- 3, st) | Some key \<Rightarrow>
     (case item of None \<Rightarrow> Some (- 4, st) | Some item \<Rightarrow> do {
       mp \<leftarrow> map_mem st p;
       map_dispatch tid (- 5) (- 2)
         (Some (\<lambda>am. jbpf_bpf_array_update_elem am key item flags))
         (\<lambda>hm. jbpf_bpf_hashmap_update_elem (ops_ht ops) (ops_ck ops) hm key item flags)
         (\<lambda>hm. jbpf_bpf_spsc_hashmap_update_elem hm key item flags) mp st
     })))"

definition jbpf_map_clear ::
  "('h, 'r) core_ops \<Rightarrow> int \<Rightarrow> nat option \<Rightarrow> ('h, 'r) maps_ctx \<Rightarrow> (int \<times> ('h, 'r) maps_ctx) option" where
  "jbpf_map_clear ops tid mp st =
    (case mp of None \<Rightarrow> Some (- 1, st) | Some p \<Rightarrow> do {
       mp \<leftarrow> map_mem st p;
       map_dispatch tid (- 3) (- 2) (Some jbpf_bpf_array_clear)
         (\<lambda>hm. Some (jbpf_bpf_hashmap_clear (ops_ht ops) hm)) jbpf_bpf_spsc_hashmap_clear mp st
     })"

text \<open>The dump also gives the bytes it has written.\<close>

definition jbpf_map_dump ::
  "('h, 'r) core_ops \<Rightarrow> int \<Rightarrow> nat option \<Rightarrow> u32 \<Rightarrow> u64 \<Rightarrow> ('h, 'r) maps_ctx
    \<Rightarrow> ((int \<times> bytes) \<times> ('h, 'r) maps_ctx) option" where
  "jbpf_map_dump ops tid mp max_size flags st =
    (case mp of None \<Rightarrow> Some ((- 1, []), st) | Some p \<Rightarrow> do {
       mp \<leftarrow> map_mem st p;
       map_dispatch tid (- 3, []) (- 2, []) None
         (\<lambda>hm. let (n, out) = jbpf_bpf_hashmap_dump (ops_ht ops) hm max_size flags in Some ((c_int (int n), out), hm))
         (\<lambda>hm. do { (n, out) \<leftarrow> jbpf_bpf_spsc_hashmap_dump hm max_size flags; Some ((c_int (int n), out), hm) }) mp st
     })"

definition jbpf_map_delete_elem ::
  "('h, 'r) core_ops \<Rightarrow> int \<Rightarrow> nat option \<Rightarrow> bytes option \<Rightarrow> ('h, 'r) maps_ctx \<Rightarrow> (int \<times> ('h, 'r) maps_ctx) option" where
  "jbpf_map_delete_elem ops tid mp key st =
    (case mp of None \<Rightarrow> Some (- 1, st) | Some p \<Rightarrow>
     (case key of None \<Rightarrow> Some (- 3, st) | Some key \<Rightarrow> do {
       mp \<leftarrow> map_mem st p;
       map_dispatch tid (- 4) (- 2) None
         (\<lambda>hm. Some (jbpf_bpf_hashmap_delete_elem (ops_ht ops) hm key))
         (\<lambda>hm. jbpf_bpf_spsc_hashmap_delete_elem hm key) mp st
     }))"

section \<open>Output and input\<close>

text \<open>\<open>io_tid\<close> is the I/O thread identifier of the caller.\<close>

definition on_channel ::
  "nat \<Rightarrow> ('r jbpf_io_channel \<Rightarrow> ('a \<times> 'r jbpf_io_channel) option) \<Rightarrow> ('h, 'r) maps_ctx \<Rightarrow> ('a \<times> ('h, 'r) maps_ctx) option" where
  "on_channel c f st = do {
     ch \<leftarrow> chan_mem (io_ctx st) c;
     (r, ch) \<leftarrow> f ch;
     Some (r, st\<lparr>io_ctx := (io_ctx st)\<lparr>chan_mem := (chan_mem (io_ctx st))(c \<mapsto> ch)\<rparr>\<rparr>)
   }"

definition jbpf_get_output_buf ::
  "('h, 'r) core_ops \<Rightarrow> int \<Rightarrow> nat option \<Rightarrow> ('h, 'r) maps_ctx \<Rightarrow> (nat option \<times> ('h, 'r) maps_ctx) option" where
  "jbpf_get_output_buf ops io_tid mp st =
    (case mp of None \<Rightarrow> Some (None, st) | Some p \<Rightarrow> do {
       mp \<leftarrow> map_mem st p;
       if m_type mp \<noteq> JBPF_MAP_TYPE_OUTPUT then Some (None, st)
       else on_channel (m_data mp) (jbpf_io_channel_reserve_buf (ops_ck ops) io_tid) st
     })"

definition jbpf_send_output ::
  "('h, 'r) core_ops \<Rightarrow> int \<Rightarrow> nat option \<Rightarrow> ('h, 'r) maps_ctx \<Rightarrow> (int \<times> ('h, 'r) maps_ctx) option" where
  "jbpf_send_output ops io_tid mp st =
    (case mp of None \<Rightarrow> Some (- 1, st) | Some p \<Rightarrow> do {
       mp \<leftarrow> map_mem st p;
       if m_type mp \<noteq> JBPF_MAP_TYPE_OUTPUT then Some (- 1, st)
       else on_channel (m_data mp) (jbpf_io_channel_submit_buf (ops_ck ops) io_tid) st
     })"

definition jbpf_ringbuf_output ::
  "('h, 'r) core_ops \<Rightarrow> int \<Rightarrow> nat option \<Rightarrow> bytes \<Rightarrow> ('h, 'r) maps_ctx \<Rightarrow> (int \<times> ('h, 'r) maps_ctx) option" where
  "jbpf_ringbuf_output ops io_tid mp data st =
    (case mp of None \<Rightarrow> Some (- 1, st) | Some p \<Rightarrow> do {
       mp \<leftarrow> map_mem st p;
       if m_type mp \<noteq> JBPF_MAP_TYPE_RINGBUF then Some (- 1, st)
       else do {
         (res, st) \<leftarrow> on_channel (m_data mp) (jbpf_io_channel_send_data (ops_ck ops) io_tid data) st;
         Some (if res < 0 then - 1 else 0, st)
       }
     })"

text \<open>The second component is what has been written to the buffer of the codelet, which has \<open>sz\<close> bytes.\<close>

definition jbpf_control_input_receive ::
  "('h, 'r) core_ops \<Rightarrow> nat option \<Rightarrow> u32 \<Rightarrow> ('h, 'r) maps_ctx \<Rightarrow> ((int \<times> bytes) \<times> ('h, 'r) maps_ctx) option" where
  "jbpf_control_input_receive ops mp sz st =
    (case mp of None \<Rightarrow> Some ((- 1, []), st) | Some p \<Rightarrow> do {
       mp \<leftarrow> map_mem st p;
       if m_type mp \<noteq> JBPF_MAP_TYPE_CONTROL_INPUT then Some ((- 1, []), st)
       else if sz < m_value_size mp then Some ((- 1, []), st)
       else on_channel (m_data mp) (\<lambda>ch.
         let (res, bs, ch) = jbpf_io_channel_recv_data (ops_ck ops) 1 ch in
         case bs of
           [] \<Rightarrow> Some ((res, []), ch)
         | b # _ \<Rightarrow> do {
             let out = chan_read ch b (unat (m_value_size mp));
             ch \<leftarrow> jbpf_io_channel_release_buf (ops_ck ops) b ch;
             Some ((1, out), ch)
           }) st
     })"

section \<open>Hash and running time\<close>

definition jbpf_hash :: "hash_config \<Rightarrow> mem \<Rightarrow> nat \<Rightarrow> u64 \<Rightarrow> u32" where
  "jbpf_hash cfg m item sz = hashlittle cfg m item (unat (ucast sz :: u32)) 0"

text \<open>The thread-local mark and threshold, with the clock as an argument; \<open>jbpf_get_time_diff_ns\<close> depends on the
  platform and is an argument too.\<close>

record runtime_local =
  codelet_mark_runtime :: u64
  e_runtime_threshold :: u64

definition jbpf_mark_runtime_init :: "u64 \<Rightarrow> runtime_local \<Rightarrow> runtime_local" where
  "jbpf_mark_runtime_init now rl = rl\<lparr>codelet_mark_runtime := now\<rparr>"

definition jbpf_runtime_limit_exceeded :: "(u64 \<Rightarrow> u64 \<Rightarrow> u64) \<Rightarrow> u64 \<Rightarrow> runtime_local \<Rightarrow> int" where
  "jbpf_runtime_limit_exceeded diff_ns now rl =
    (if diff_ns (codelet_mark_runtime rl) now > e_runtime_threshold rl then 1 else 0)"

section \<open>The table of the helpers\<close>

definition MAX_HELPER_FUNC :: nat where
  "MAX_HELPER_FUNC = 64"

definition MAX_HELPER_FUN_NAME_LEN :: nat where
  "MAX_HELPER_FUN_NAME_LEN = 64"

record jbpf_helper_func =
  hf_name :: string
  hf_reloc_id :: int
  hf_function_cb :: nat

definition helper_zero :: jbpf_helper_func where
  "helper_zero = \<lparr> hf_name = [], hf_reloc_id = 0, hf_function_cb = 0 \<rparr>"

text \<open>The helpers that a virtual machine is given: \<open>ubpf_register\<close> is called with their identifiers, names and
  functions.\<close>

definition jbpf_register_helper_functions :: "jbpf_helper_func list \<Rightarrow> jbpf_helper_func list" where
  "jbpf_register_helper_functions helper_funcs = filter (\<lambda>f. hf_reloc_id f \<noteq> 0) helper_funcs"

definition jbpf_register_helper_function ::
  "jbpf_helper_func \<Rightarrow> jbpf_helper_func list \<Rightarrow> int \<times> jbpf_helper_func list" where
  "jbpf_register_helper_function func helper_funcs =
    (if hf_function_cb func = 0 \<or> hf_reloc_id func \<le> 0 \<or> hf_reloc_id func \<ge> int MAX_HELPER_FUNC then (- 1, helper_funcs)
     else
       let i = nat (hf_reloc_id func); replaced = (hf_reloc_id (helper_funcs ! i) \<noteq> 0) in
       (if replaced then 1 else 0,
        helper_funcs[i := func\<lparr>hf_name := take (MAX_HELPER_FUN_NAME_LEN - 1) (hf_name func)\<rparr>]))"

definition jbpf_deregister_helper_function :: "int \<Rightarrow> jbpf_helper_func list \<Rightarrow> int \<times> jbpf_helper_func list" where
  "jbpf_deregister_helper_function reloc_id helper_funcs =
    (if reloc_id \<le> 0 \<or> reloc_id \<ge> int MAX_HELPER_FUNC then (- 2, helper_funcs)
     else if hf_reloc_id (helper_funcs ! nat reloc_id) = 0 then (- 1, helper_funcs)
     else (0, helper_funcs[nat reloc_id := helper_zero]))"

definition default_helper_funcs :: "jbpf_helper_func list" where
  "default_helper_funcs =
    helper_zero # map (\<lambda>(i, n). \<lparr> hf_name = n, hf_reloc_id = int i, hf_function_cb = i \<rparr>)
      (zip [1..<19] [''jbpf_map_lookup'', ''jbpf_map_lookup_reset'', ''jbpf_map_update'', ''jbpf_map_delete'',
         ''jbpf_map_clear'', ''jbpf_map_dump'', ''jbpf_time_get_ns'', ''jbpf_get_sys_time'', ''jbpf_get_sys_time_diff_ns'',
         ''jbpf_hash'', ''jbpf_printf'', ''jbpf_ringbuf_output'', ''jbpf_mark_runtime_init'',
         ''jbpf_runtime_limit_exceeded'', ''jbpf_rand'', ''jbpf_control_input_receive'', ''jbpf_get_output_buf'',
         ''jbpf_send_output''])
    @ replicate (MAX_HELPER_FUNC - 19) helper_zero"

definition jbpf_reset_helper_functions :: "jbpf_helper_func list \<Rightarrow> jbpf_helper_func list" where
  "jbpf_reset_helper_functions helper_funcs = default_helper_funcs"

section \<open>The maps of threads\<close>

text \<open>Any table of maps that keep the contract, one for each thread.\<close>

context bpf_map
begin

definition entries_ok :: "'s option list \<Rightarrow> (nat \<Rightarrow> contents) \<Rightarrow> bool" where
  "entries_ok xs C \<longleftrightarrow> (\<forall>i < length xs. \<exists>s. xs ! i = Some s \<and> invar s \<and> contents s = C i)"

lemma entries_step:
  assumes ok: "entries_ok xs C" and i: "i < length xs" and p: "op_ok keyok valok p"
  obtains s s' where "xs ! i = Some s" "exec_op p s = Some s'"
    "entries_ok (xs[i := Some s']) (C(i := abs_op accepts zero initial p (C i)))"
proof -
  obtain s where s: "xs ! i = Some s" "invar s" "contents s = C i"
    using ok i by (auto simp: entries_ok_def)
  obtain s' where s': "exec_op p s = Some s'" "invar s'" "contents s' = abs_op accepts zero initial p (contents s)"
    using exec_op_sound [OF s(2) p] by blast
  have "entries_ok (xs[i := Some s']) (C(i := abs_op accepts zero initial p (C i)))"
    using ok s'(2,3) s(3) i unfolding entries_ok_def by (auto simp: nth_list_update)
  then show thesis using that s(1) s'(1) by blast
qed

lemma entries_lookup:
  assumes "entries_ok xs C" "i < length xs" "keyok k"
  obtains s where "xs ! i = Some s" "lookup s k = Some (C i k)"
  using assms lookup_law by (auto simp: entries_ok_def)

end

text \<open>A call of a helper by a thread, and a history of calls.\<close>

fun helper_exec ::
  "('h, 'r) core_ops \<Rightarrow> nat \<Rightarrow> int \<times> map_op \<Rightarrow> ('h, 'r) maps_ctx \<Rightarrow> ('h, 'r) maps_ctx option" where
  "helper_exec ops p (tid, Map_Update k v) st = map_option snd (jbpf_map_update_elem ops tid (Some p) (Some k) (Some v) 0 st)"
| "helper_exec ops p (tid, Map_Reset k) st = map_option snd (jbpf_map_lookup_reset_elem ops tid (Some p) (Some k) st)"
| "helper_exec ops p (tid, Map_Clear) st = map_option snd (jbpf_map_clear ops tid (Some p) st)"

primrec helper_run ::
  "('h, 'r) core_ops \<Rightarrow> nat \<Rightarrow> (int \<times> map_op) list \<Rightarrow> ('h, 'r) maps_ctx \<Rightarrow> ('h, 'r) maps_ctx option" where
  "helper_run ops p [] st = Some st"
| "helper_run ops p (x # xs) st = Option.bind (helper_exec ops p x st) (helper_run ops p xs)"

text \<open>What the contents of a map of the type mean: the keys and values it takes, when it accepts a new key,
  and what it holds at first.\<close>

definition md_keyok :: "jbpf_load_map_def \<Rightarrow> bytes \<Rightarrow> bool" where
  "md_keyok md k \<longleftrightarrow> length k = (if md_type md = JBPF_MAP_TYPE_PER_THREAD_ARRAY then 4 else unat (md_key_size md))"

definition md_accepts :: "jbpf_load_map_def \<Rightarrow> contents \<Rightarrow> bytes \<Rightarrow> bool" where
  "md_accepts md = (if md_type md = JBPF_MAP_TYPE_PER_THREAD_ARRAY then (\<lambda>m k. m k \<noteq> None) else sh_accepts (md_max_entries md))"

definition md_initial :: "jbpf_load_map_def \<Rightarrow> contents" where
  "md_initial md = (if md_type md = JBPF_MAP_TYPE_PER_THREAD_ARRAY then am_initial (md_max_entries md) (md_value_size md) else Map.empty)"

definition md_ok :: "jbpf_load_map_def \<Rightarrow> bool" where
  "md_ok md \<longleftrightarrow> md_type md = JBPF_MAP_TYPE_PER_THREAD_ARRAY \<and> unat (md_max_entries md) * unat (md_value_size md) < 2 ^ 32
    \<or> md_type md = JBPF_MAP_TYPE_PER_THREAD_HASHMAP \<and> 0 < unat (md_max_entries md) \<and> unat (md_max_entries md) < 2 ^ 31"

abbreviation md_step :: "jbpf_load_map_def \<Rightarrow> map_op \<Rightarrow> contents \<Rightarrow> contents" where
  "md_step md \<equiv> abs_op (md_accepts md) (replicate (unat (md_value_size md)) 0) (md_initial md)"

definition thread_map_ok ::
  "jbpf_load_map_def \<Rightarrow> nat \<Rightarrow> (nat \<Rightarrow> contents) \<Rightarrow> ('h, 'r) maps_ctx \<Rightarrow> bool" where
  "thread_map_ok md p C st \<longleftrightarrow> (\<exists>mp. map_mem st p = Some mp \<and> m_name mp \<noteq> [] \<and> m_type mp = md_type md \<and>
    (if md_type md = JBPF_MAP_TYPE_PER_THREAD_ARRAY
     then \<exists>ams. data_mem st (m_data mp) = Some (Thread_Arrays ams) \<and> length ams = JBPF_MAX_NUM_REG_THREADS
       \<and> amap.entries_ok (md_max_entries md) (md_value_size md) ams C
     else \<exists>hms. data_mem st (m_data mp) = Some (Thread_Hashmaps hms) \<and> length hms = JBPF_MAX_NUM_REG_THREADS
       \<and> spsc.entries_ok (md_key_size md) (md_value_size md) (md_max_entries md) hms C))"

lemma thread_entry_nth: "i < length xs \<Longrightarrow> thread_entry xs (int i) = xs ! i"
  by (simp add: thread_entry_def arr_get_def)

lemma helper_exec_thread:
  assumes ok: "thread_map_ok md p C st" and md: "md_ok md" and i: "i < JBPF_MAX_NUM_REG_THREADS"
    and op: "op_ok (md_keyok md) (\<lambda>v. length v = unat (md_value_size md)) op"
  shows "\<exists>st'. helper_exec ops p (int i, op) st = Some st' \<and> thread_map_ok md p (C(i := md_step md op (C i))) st'"
proof (cases "md_type md = JBPF_MAP_TYPE_PER_THREAD_ARRAY")
  case True
  obtain mp ams where m: "map_mem st p = Some mp" "m_name mp \<noteq> []" "m_type mp = JBPF_MAP_TYPE_PER_THREAD_ARRAY"
      "data_mem st (m_data mp) = Some (Thread_Arrays ams)" "length ams = JBPF_MAX_NUM_REG_THREADS"
      "amap.entries_ok (md_max_entries md) (md_value_size md) ams C"
    using ok True by (auto simp: thread_map_ok_def)
  have il: "i < length ams" using i m(5) by simp
  have op': "op_ok (\<lambda>k. length k = 4) (\<lambda>v. length v = unat (md_value_size md)) op"
    using op True by (cases op) (simp_all add: md_keyok_def)
  obtain s s' where s: "ams ! i = Some s" "amap.exec_op op s = Some s'"
    "amap.entries_ok (md_max_entries md) (md_value_size md) (ams[i := Some s'])
      (C(i := abs_op (\<lambda>m k. m k \<noteq> None) (replicate (unat (md_value_size md)) 0) (am_initial (md_max_entries md) (md_value_size md)) op (C i)))"
    by (rule amap.entries_step [OF m(6) il op'])
  let ?st = "st\<lparr>data_mem := (data_mem st)(m_data mp \<mapsto> Thread_Arrays (ams[i := Some s']))\<rparr>"
  have "helper_exec ops p (int i, op) st = Some ?st"
    using s(1,2) m(1-4) il thread_entry_nth [OF il]
    by (cases op) (auto simp: jbpf_map_update_elem_def jbpf_map_lookup_reset_elem_def jbpf_map_clear_def map_dispatch_def
        map_types put_entry_def am_update_def am_reset_def Let_def split: bind_splits)
  moreover have "thread_map_ok md p (C(i := md_step md op (C i))) ?st"
    using m(1,2,3,5) s(3) True by (simp add: thread_map_ok_def md_accepts_def [abs_def] md_initial_def)
  ultimately show ?thesis by blast
next
  case False
  then have ty: "md_type md = JBPF_MAP_TYPE_PER_THREAD_HASHMAP" using md by (simp add: md_ok_def)
  obtain mp hms where m: "map_mem st p = Some mp" "m_name mp \<noteq> []" "m_type mp = JBPF_MAP_TYPE_PER_THREAD_HASHMAP"
      "data_mem st (m_data mp) = Some (Thread_Hashmaps hms)" "length hms = JBPF_MAX_NUM_REG_THREADS"
      "spsc.entries_ok (md_key_size md) (md_value_size md) (md_max_entries md) hms C"
    using ok False ty by (auto simp: thread_map_ok_def)
  have il: "i < length hms" using i m(5) by simp
  have op': "op_ok (\<lambda>k. length k = unat (md_key_size md)) (\<lambda>v. length v = unat (md_value_size md)) op"
    using op False by (cases op) (simp_all add: md_keyok_def)
  obtain s s' where s: "hms ! i = Some s" "spsc.exec_op op s = Some s'"
    "spsc.entries_ok (md_key_size md) (md_value_size md) (md_max_entries md) (hms[i := Some s'])
      (C(i := abs_op (sh_accepts (md_max_entries md)) (replicate (unat (md_value_size md)) 0) Map.empty op (C i)))"
    by (rule spsc.entries_step [OF m(6) il op'])
  let ?st = "st\<lparr>data_mem := (data_mem st)(m_data mp \<mapsto> Thread_Hashmaps (hms[i := Some s']))\<rparr>"
  have "helper_exec ops p (int i, op) st = Some ?st"
    using s(1,2) m(1-4) il thread_entry_nth [OF il]
    by (cases op) (auto simp: jbpf_map_update_elem_def jbpf_map_lookup_reset_elem_def jbpf_map_clear_def map_dispatch_def
        map_types put_entry_def sh_update_def sh_reset_def Let_def split: bind_splits)
  moreover have "thread_map_ok md p (C(i := md_step md op (C i))) ?st"
    using m(1,2,3,5) s(3) False ty by (simp add: thread_map_ok_def md_accepts_def [abs_def] md_initial_def)
  ultimately show ?thesis by blast
qed

definition own_ops :: "nat \<Rightarrow> (int \<times> map_op) list \<Rightarrow> map_op list" where
  "own_ops i hist = map snd (filter (\<lambda>x. fst x = int i) hist)"

lemma helper_run_thread:
  assumes "thread_map_ok md p C st" "md_ok md"
    "\<forall>(t, op) \<in> set hist. 0 \<le> t \<and> t < int JBPF_MAX_NUM_REG_THREADS
      \<and> op_ok (md_keyok md) (\<lambda>v. length v = unat (md_value_size md)) op"
  shows "\<exists>st'. helper_run ops p hist st = Some st' \<and> thread_map_ok md p (\<lambda>i. fold (md_step md) (own_ops i hist) (C i)) st'"
  using assms(1,3)
proof (induction hist arbitrary: C st)
  case Nil
  then show ?case by (simp add: own_ops_def)
next
  case (Cons x hist)
  obtain t op where x: "x = (t, op)" by (cases x)
  let ?i = "nat t"
  have i: "?i < JBPF_MAX_NUM_REG_THREADS" "int ?i = t"
    and op: "op_ok (md_keyok md) (\<lambda>v. length v = unat (md_value_size md)) op"
    using Cons.prems(2) x by auto
  obtain st1 where 1: "helper_exec ops p (t, op) st = Some st1" "thread_map_ok md p (C(?i := md_step md op (C ?i))) st1"
    using helper_exec_thread [OF Cons.prems(1) assms(2) i(1) op, of ops] unfolding i(2) by blast
  obtain st2 where 2: "helper_run ops p hist st1 = Some st2"
    "thread_map_ok md p (\<lambda>i. fold (md_step md) (own_ops i hist) ((C(?i := md_step md op (C ?i))) i)) st2"
    using Cons.IH [OF 1(2)] Cons.prems(2) by auto
  have "(\<lambda>i. fold (md_step md) (own_ops i hist) ((C(?i := md_step md op (C ?i))) i))
      = (\<lambda>i. fold (md_step md) (own_ops i (x # hist)) (C i))"
    using i(2) by (auto simp: own_ops_def x fun_eq_iff)
  then show ?case using 1(1) 2 x by simp
qed

text \<open>All the allocations for the entries succeed.\<close>

definition entries_alloc :: "map_env \<Rightarrow> bool" where
  "entries_alloc env \<longleftrightarrow> (\<forall>i < JBPF_MAX_NUM_REG_THREADS. \<forall>n. me_array env i n \<and> me_spsc env i n \<and> me_spsc_ht env i n)"

lemma create_thread_map:
  assumes c: "jbpf_create_map ops E name md io_def st = Some (Some p, st1)" and md: "md_ok md" and name: "name \<noteq> []"
    and ok: "entries_alloc (E (clock st))"
  shows "thread_map_ok md p (\<lambda>_. md_initial md) st1"
proof -
  have nio: "\<not> is_io_type (md_type md)" using md by (auto simp: md_ok_def is_io_type_def map_types)
  have n: "jbpf_get_num_reg_jbpf_maps st \<noteq> MAX_NUM_MAPS" "me_ok (E (clock st))"
    using c nio by (auto simp: jbpf_create_map_def Let_def split: if_splits)
  obtain d where d: "create_data ops (E (clock st)) md = Some (Some d)" "p = clock st"
    "map_mem st1 p = Some \<lparr> m_type = md_type md, m_key_size = md_key_size md, m_value_size = md_value_size md,
        m_max_entries = md_max_entries md, m_name = take (JBPF_MAP_NAME_LEN - 1) name, m_data = p \<rparr>"
    "data_mem st1 p = Some d"
    using c nio n by (auto simp: jbpf_create_map_def Let_def split: bind_splits option.splits)
  have nm: "take (JBPF_MAP_NAME_LEN - 1) name \<noteq> []" using name by (cases name) (simp_all add: JBPF_MAP_NAME_LEN_def)
  show ?thesis
  proof (cases "md_type md = JBPF_MAP_TYPE_PER_THREAD_ARRAY")
    case True
    let ?f = "\<lambda>i. jbpf_bpf_array_create (me_array (E (clock st)) i) md"
    have da: "d = Thread_Arrays (map ?f [0..<JBPF_MAX_NUM_REG_THREADS])"
      using d(1) True by (simp add: create_data_def map_types split: if_splits)
    have b: "unat (md_max_entries md) * unat (md_value_size md) < 2 ^ 32" using md True by (simp add: md_ok_def map_types)
    have "\<exists>s. ?f i = Some s \<and> am_inv (md_max_entries md) (md_value_size md) s
        \<and> am_contents s = am_initial (md_max_entries md) (md_value_size md)" if "i < JBPF_MAX_NUM_REG_THREADS" for i
    proof -
      have "\<exists>s. ?f i = Some s" using ok that by (simp add: entries_alloc_def jbpf_bpf_array_create_def Let_def)
      then show ?thesis using array_create_spec [OF _ b] by blast
    qed
    then show ?thesis using d(3,4) nm True unfolding da
      by (auto simp: thread_map_ok_def amap.entries_ok_def md_initial_def)
  next
    case False
    then have ty: "md_type md = JBPF_MAP_TYPE_PER_THREAD_HASHMAP" and b: "0 < unat (md_max_entries md)" "unat (md_max_entries md) < 2 ^ 31"
      using md by (simp_all add: md_ok_def)
    let ?f = "\<lambda>i. jbpf_bpf_spsc_hashmap_create (me_spsc (E (clock st)) i) (me_spsc_ht (E (clock st)) i) md"
    have da: "d = Thread_Hashmaps (map ?f [0..<JBPF_MAX_NUM_REG_THREADS])"
      using d(1) ty by (simp add: create_data_def map_types split: if_splits)
    have "\<exists>s. ?f i = Some s \<and> sh_inv (md_key_size md) (md_value_size md) (md_max_entries md) s
        \<and> sh_contents s = Map.empty" if "i < JBPF_MAX_NUM_REG_THREADS" for i
    proof -
      have "\<exists>s. ?f i = Some s" using ok that by (simp add: entries_alloc_def jbpf_bpf_spsc_hashmap_create_def Let_def)
      then show ?thesis using spsc_create_spec [OF _ b] by blast
    qed
    then show ?thesis using d(3,4) nm False ty unfolding da
      by (auto simp: thread_map_ok_def spsc.entries_ok_def md_initial_def)
  qed
qed

lemma thread_map_lookup:
  assumes ok: "thread_map_ok md p C st" and md: "md_ok md" and i: "i < JBPF_MAX_NUM_REG_THREADS" and k: "md_keyok md k"
  shows "\<exists>st'. jbpf_map_lookup_elem ops (int i) (Some p) (Some k) st = Some (C i k, st')"
proof (cases "md_type md = JBPF_MAP_TYPE_PER_THREAD_ARRAY")
  case True
  obtain mp ams where m: "map_mem st p = Some mp" "m_name mp \<noteq> []" "m_type mp = JBPF_MAP_TYPE_PER_THREAD_ARRAY"
      "data_mem st (m_data mp) = Some (Thread_Arrays ams)" "length ams = JBPF_MAX_NUM_REG_THREADS"
      "amap.entries_ok (md_max_entries md) (md_value_size md) ams C"
    using ok True by (auto simp: thread_map_ok_def)
  have il: "i < length ams" using i m(5) by simp
  obtain s where "ams ! i = Some s" "am_lookup s k = Some (C i k)"
    using amap.entries_lookup [OF m(6) il, of k] k True by (auto simp: md_keyok_def)
  then show ?thesis using m thread_entry_nth [OF il]
    by (simp add: jbpf_map_lookup_elem_def map_dispatch_def map_types Let_def)
next
  case False
  then have ty: "md_type md = JBPF_MAP_TYPE_PER_THREAD_HASHMAP" using md by (simp add: md_ok_def)
  obtain mp hms where m: "map_mem st p = Some mp" "m_name mp \<noteq> []" "m_type mp = JBPF_MAP_TYPE_PER_THREAD_HASHMAP"
      "data_mem st (m_data mp) = Some (Thread_Hashmaps hms)" "length hms = JBPF_MAX_NUM_REG_THREADS"
      "spsc.entries_ok (md_key_size md) (md_value_size md) (md_max_entries md) hms C"
    using ok False ty by (auto simp: thread_map_ok_def)
  have il: "i < length hms" using i m(5) by simp
  obtain s where "hms ! i = Some s" "sh_lookup s k = Some (C i k)"
    using spsc.entries_lookup [OF m(6) il, of k] k False by (auto simp: md_keyok_def)
  then show ?thesis using m thread_entry_nth [OF il]
    by (simp add: jbpf_map_lookup_elem_def map_dispatch_def map_types Let_def)
qed


definition wit_map_env :: "nat \<Rightarrow> map_env" where
  "wit_map_env p = \<lparr> me_ok = True, me_array = (\<lambda>_ _. True), me_spsc = (\<lambda>_ _. True), me_spsc_ht = (\<lambda>_ _. True),
     me_hmap = True, me_pool_ctx = True, me_pool = (\<lambda>_ _. True), me_perthread = True, me_io = wit_env p \<rparr>"

definition wit_ops :: "((bytes \<times> nat) list, nat list \<times> nat) core_ops" where
  "wit_ops = \<lparr> ops_ht = alist_ht, ops_ck = list_ring, ops_ipc_create = (\<lambda>_ _. None), ops_ipc_destroy = (\<lambda>_ _. None) \<rparr>"

definition wit_maps :: "((bytes \<times> nat) list, nat list \<times> nat) maps_ctx" where
  "wit_maps = \<lparr> nmap_reg = 0, clock = 1, map_mem = Map.empty, data_mem = Map.empty, io_ctx = wit_io_ctx, left_hm_pools = [] \<rparr>"

definition wit_md :: jbpf_load_map_def where
  "wit_md = \<lparr> md_type = JBPF_MAP_TYPE_PER_THREAD_HASHMAP, md_key_size = 1, md_value_size = 2, md_max_entries = 4 \<rparr>"


text \<open>C30: The creation of a per-thread hash map does not check the creation of its entries: when the entry of a thread
  could not be allocated the map is created and counted all the same, and a lookup by that thread, like the release of the
  map, is a fault.\<close>

theorem per_thread_create_unchecked:
  assumes ty: "md_type md = JBPF_MAP_TYPE_PER_THREAD_HASHMAP" and name: "name \<noteq> []"
    and n: "nmap_reg st \<noteq> MAX_NUM_MAPS" and env: "me_ok (E (clock st))" "me_perthread (E (clock st))"
    and i: "i < JBPF_MAX_NUM_REG_THREADS" "\<not> me_spsc (E (clock st)) i 1"
  shows "\<exists>p st1. jbpf_create_map ops E name md io_def st = Some (Some p, st1) \<and> nmap_reg st1 = nmap_reg st + 1
    \<and> jbpf_map_lookup_elem ops (int i) (Some p) (Some k) st1 = None
    \<and> jbpf_release_map ops (Some p) st1 = None"
proof -
  let ?xs = "map (\<lambda>i. jbpf_bpf_spsc_hashmap_create (me_spsc (E (clock st)) i) (me_spsc_ht (E (clock st)) i) md) [0..<JBPF_MAX_NUM_REG_THREADS]"
  have none: "?xs ! i = None" using i by (simp add: jbpf_bpf_spsc_hashmap_create_def)
  have il: "i < length ?xs" using i by simp
  have "None \<in> set ?xs" using none nth_mem [OF il] by metis
  moreover have "take (JBPF_MAP_NAME_LEN - 1) name \<noteq> []" using name by (cases name) (simp_all add: JBPF_MAP_NAME_LEN_def)
  ultimately show ?thesis
    using ty n env thread_entry_nth [OF il] none
    by (auto simp: jbpf_create_map_def jbpf_get_num_reg_jbpf_maps_def is_io_type_def create_data_def map_types
        jbpf_map_lookup_elem_def map_dispatch_def jbpf_release_map_def jbpf_destroy_map_def destroy_data_def Let_def)
qed

theorem per_thread_create_unchecked_witness:
  "\<exists>p st1. jbpf_create_map wit_ops (\<lambda>n. (wit_map_env n)\<lparr>me_spsc := (\<lambda>i _. i \<noteq> 7)\<rparr>) [109] wit_md None wit_maps = Some (Some p, st1)
    \<and> jbpf_map_lookup_elem wit_ops 7 (Some p) (Some [1]) st1 = None \<and> jbpf_release_map wit_ops (Some p) st1 = None"
proof -
  note t = per_thread_create_unchecked [where E = "\<lambda>n. (wit_map_env n)\<lparr>me_spsc := (\<lambda>i _. i \<noteq> 7)\<rparr>" and st = wit_maps
      and md = wit_md and name = "[109]" and i = 7 and ops = wit_ops and k = "[1]" and io_def = None]
  show ?thesis using t by (auto simp: wit_md_def wit_maps_def wit_map_env_def MAX_NUM_MAPS_def JBPF_MAX_NUM_REG_THREADS_def)
qed

section \<open>The table of the helpers stays well-formed\<close>

datatype helper_op = H_Register jbpf_helper_func | H_Deregister int | H_Reset

fun helper_op_exec :: "helper_op \<Rightarrow> jbpf_helper_func list \<Rightarrow> jbpf_helper_func list" where
  "helper_op_exec (H_Register f) hs = snd (jbpf_register_helper_function f hs)"
| "helper_op_exec (H_Deregister i) hs = snd (jbpf_deregister_helper_function i hs)"
| "helper_op_exec H_Reset hs = jbpf_reset_helper_functions hs"

definition helper_entry_ok :: "nat \<Rightarrow> jbpf_helper_func \<Rightarrow> bool" where
  "helper_entry_ok i f \<longleftrightarrow> (hf_reloc_id f = 0 \<or> hf_reloc_id f = int i \<and> hf_function_cb f \<noteq> 0)
    \<and> length (hf_name f) < MAX_HELPER_FUN_NAME_LEN"

definition helper_table_ok :: "jbpf_helper_func list \<Rightarrow> bool" where
  "helper_table_ok hs \<longleftrightarrow> length hs = MAX_HELPER_FUNC \<and> list_all2 helper_entry_ok [0..<MAX_HELPER_FUNC] hs"

lemma default_table_ok: "helper_table_ok default_helper_funcs"
proof -
  have "list_all2 helper_entry_ok [0..<64] default_helper_funcs"
    by (simp add: default_helper_funcs_def helper_zero_def helper_entry_ok_def MAX_HELPER_FUNC_def MAX_HELPER_FUN_NAME_LEN_def
        upt_rec numeral_eq_Suc)
  then show ?thesis by (auto simp: helper_table_ok_def MAX_HELPER_FUNC_def dest: list_all2_lengthD)
qed

lemma helper_table_upd:
  assumes "helper_table_ok hs" "i < MAX_HELPER_FUNC" "helper_entry_ok i f"
  shows "helper_table_ok (hs[i := f])"
proof -
  have "list_all2 helper_entry_ok ([0..<MAX_HELPER_FUNC][i := i]) (hs[i := f])"
    using assms by (intro list_all2_update_cong) (auto simp: helper_table_ok_def)
  moreover have "[0..<MAX_HELPER_FUNC][i := i] = [0..<MAX_HELPER_FUNC]"
    using assms(2) by (simp add: list_update_same_conv)
  ultimately show ?thesis using assms by (simp add: helper_table_ok_def)
qed

lemma helper_op_ok:
  assumes "helper_table_ok hs"
  shows "helper_table_ok (helper_op_exec op hs)"
proof (cases op)
  case (H_Register f)
  then show ?thesis
    using assms helper_table_upd [OF assms, of "nat (hf_reloc_id f)" "f\<lparr>hf_name := take (MAX_HELPER_FUN_NAME_LEN - 1) (hf_name f)\<rparr>"]
    by (auto simp: jbpf_register_helper_function_def Let_def helper_entry_ok_def MAX_HELPER_FUN_NAME_LEN_def)
next
  case (H_Deregister i)
  then show ?thesis
    using assms helper_table_upd [OF assms, of "nat i" helper_zero]
    by (auto simp: jbpf_deregister_helper_function_def helper_entry_ok_def helper_zero_def MAX_HELPER_FUN_NAME_LEN_def)
next
  case H_Reset
  then show ?thesis using default_table_ok by (simp add: jbpf_reset_helper_functions_def)
qed

lemma table_ids_distinct:
  assumes "list_all2 helper_entry_ok [m..<n] hs" "0 < m \<or> hf_reloc_id (hd hs) = 0"
  shows "distinct (map hf_reloc_id (filter (\<lambda>f. hf_reloc_id f \<noteq> 0) hs))
    \<and> (\<forall>f \<in> set hs. hf_reloc_id f = 0 \<or> int m \<le> hf_reloc_id f \<and> hf_reloc_id f < int n)"
  using assms
proof (induction hs arbitrary: m rule: list.induct)
  case (Cons f hs)
  from Cons.prems(1) have mn: "m < n" and f: "helper_entry_ok m f" and hs: "list_all2 helper_entry_ok [Suc m..<n] hs"
    by (auto simp: list_all2_Cons2 upt_eq_Cons_conv)
  have "distinct (map hf_reloc_id (filter (\<lambda>f. hf_reloc_id f \<noteq> 0) hs))
      \<and> (\<forall>f \<in> set hs. hf_reloc_id f = 0 \<or> int (Suc m) \<le> hf_reloc_id f \<and> hf_reloc_id f < int n)"
    using Cons.IH [OF hs] by simp
  then show ?case using f mn by (fastforce simp: helper_entry_ok_def)
qed simp

text \<open>C18: After any sequence of registrations, removals and resets the table of the helpers has 64 entries; an entry
  in use has the identifier of its place, a function and a name shorter than its field; so a virtual machine is given at
  most one function for an identifier, and only for identifiers between 1 and 63.\<close>

theorem helper_table_well_formed:
  "helper_table_ok (fold helper_op_exec hops default_helper_funcs)
   \<and> distinct (map hf_reloc_id (jbpf_register_helper_functions (fold helper_op_exec hops default_helper_funcs)))
   \<and> list_all (\<lambda>f. 0 < hf_reloc_id f \<and> hf_reloc_id f < int MAX_HELPER_FUNC)
       (jbpf_register_helper_functions (fold helper_op_exec hops default_helper_funcs))"
proof -
  let ?hs = "fold helper_op_exec hops default_helper_funcs"
  have "helper_table_ok hs \<Longrightarrow> helper_table_ok (fold helper_op_exec hops hs)" for hs
    using helper_op_ok by (induction hops arbitrary: hs) simp_all
  then have ok: "helper_table_ok ?hs" using default_table_ok by blast
  then have l: "list_all2 helper_entry_ok [0..<MAX_HELPER_FUNC] ?hs" by (simp add: helper_table_ok_def)
  have "helper_entry_ok 0 (?hs ! 0)" "?hs \<noteq> []"
    using list_all2_nthD [OF l, of 0] ok by (auto simp: MAX_HELPER_FUNC_def helper_table_ok_def)
  then have "hf_reloc_id (hd ?hs) = 0" by (auto simp: helper_entry_ok_def hd_conv_nth)
  from table_ids_distinct [OF l] this
  have d: "distinct (map hf_reloc_id (filter (\<lambda>f. hf_reloc_id f \<noteq> 0) ?hs))"
      "\<forall>f \<in> set ?hs. hf_reloc_id f = 0 \<or> 0 \<le> hf_reloc_id f \<and> hf_reloc_id f < int MAX_HELPER_FUNC" by auto
  then have "list_all (\<lambda>f. 0 < hf_reloc_id f \<and> hf_reloc_id f < int MAX_HELPER_FUNC) (filter (\<lambda>f. hf_reloc_id f \<noteq> 0) ?hs)"
    by (auto simp: order_le_less list_all_iff)
  then show ?thesis using ok d(1) unfolding jbpf_register_helper_functions_def by blast
qed

end
