(* ===== verification/Codeletset.thy ===== *)
theory Codeletset
  imports Helpers Hook
begin

text \<open>
  Loading and unloading of codelet sets, \<open>src/core/jbpf.c\<close>: the structures of \<open>src/core/jbpf_int.h\<close>, the linked
  maps of a set, the relocation of the maps of a codelet, the creation and the destruction of codelets, and the two
  entry points \<open>jbpf_codeletset_load\<close> and \<open>jbpf_codeletset_unload\<close>.

  All the structures are in memories that map addresses to them, the hash tables hold addresses, and
  addresses are the numbers of the calls of the allocator, as for the maps.  The function of a codelet at
  the address \<open>p\<close> is \<open>Suc p\<close>, its compiled code.  What is not part of the sources is in the environment:
  the files, the answers of the virtual machine, and the relocations it asks for when it loads an
  object file.  The access to a structure that is not there is a fault, an outer \<^const>\<open>None\<close>.
  The keys of the tables are names.  The code compares the whole of the field a name is in, which is
  the same for fields that are filled up with zeros.
\<close>

section \<open>State\<close>

definition JBPF_LINKED_MAP_ALIAS_NAME_LEN :: nat where "JBPF_LINKED_MAP_ALIAS_NAME_LEN = 1024"

definition JBPF_MAX_CODELET_MAPS :: nat where "JBPF_MAX_CODELET_MAPS = 64"

definition JBPF_MAX_LOADED_CODELETS :: int where "JBPF_MAX_LOADED_CODELETS = 64"

definition JBPF_MAX_LOADED_CODELETSETS :: nat where "JBPF_MAX_LOADED_CODELETSETS = 64"

record jbpf_linked_map =
  lm_map :: "nat option"
  lm_ref_count :: int
  lm_total_refs :: int

record 'h jbpf_codeletset =
  s_codeletset_id :: bytes
  s_codelets :: 'h
  s_linked_map_entries :: 'h

record 'h jbpf_codelet =
  c_codelet_fn :: jit_fn
  c_maps :: 'h
  c_name :: bytes
  c_hook_name :: bytes
  c_priority :: u32
  c_e_runtime_threshold :: u64
  c_codeletset :: nat
  c_loaded :: bool
  c_relocation_error :: bool

record ('h, 'r) jbpf_ctx =
  cx_maps :: "('h, 'r) maps_ctx"
  linked_mem :: "nat \<Rightarrow> jbpf_linked_map option"
  codelet_mem :: "nat \<Rightarrow> 'h jbpf_codelet option"
  set_mem :: "nat \<Rightarrow> 'h jbpf_codeletset option"
  codeletset_registry :: 'h
  total_num_codelets :: int
  hook_list :: "jbpf_hook list"

text \<open>A relocation of a map in an object file: the symbol, the definition it points to, and its size.\<close>

record map_reloc =
  rl_symbol_name :: bytes
  rl_map_def :: jbpf_load_map_def
  rl_symbol_size :: nat

text \<open>\<open>ce_relocs\<close> are the relocations \<open>ubpf_load_elf_ex\<close> asks for, \<open>ce_load\<close> whether it succeeds otherwise.\<close>

record core_env =
  ce_mem :: "nat \<Rightarrow> map_env"
  ce_file :: "bytes \<Rightarrow> bytes option"
  ce_vm :: "nat \<Rightarrow> bool"
  ce_relocs :: "bytes \<Rightarrow> map_reloc list"
  ce_load :: "bytes \<Rightarrow> bool"
  ce_compile :: "bytes \<Rightarrow> bool"
  ce_hook_mem :: "nat \<Rightarrow> bool"

definition sizeof_map_def :: nat where
  "sizeof_map_def = 32"

definition mem_alloc :: "core_env \<Rightarrow> ('h, 'r) jbpf_ctx \<Rightarrow> nat option \<times> ('h, 'r) jbpf_ctx" where
  "mem_alloc env ctx =
    (let p = clock (cx_maps ctx); ctx = ctx\<lparr>cx_maps := (cx_maps ctx)\<lparr>clock := Suc p\<rparr>\<rparr> in
     if me_ok (ce_mem env p) then (Some p, ctx) else (None, ctx))"

section \<open>Linked maps\<close>

text \<open>The name of a map in the table of the linked maps, \<open>codelet_map\<close>.\<close>

definition map_alias :: "bytes \<Rightarrow> bytes \<Rightarrow> bytes" where
  "map_alias codelet_name map_name = take (JBPF_LINKED_MAP_ALIAS_NAME_LEN - 2) (codelet_name @ [95] @ map_name)"

text \<open>One link of a codelet: its two aliases are added to the table, if they are not there, with one and
  the same linked map.\<close>

definition populate_link ::
  "('h, 'r) core_ops \<Rightarrow> core_env \<Rightarrow> bytes \<Rightarrow> jbpf_linked_map_descriptor \<Rightarrow> 'h \<times> ('h, 'r) jbpf_ctx
    \<Rightarrow> ('h \<times> ('h, 'r) jbpf_ctx) option" where
  "populate_link ops env codelet_name l st =
    (let ht = ops_ht ops; (table, ctx) = st;
         (p1, ctx) = mem_alloc env ctx; (p2, ctx) = mem_alloc env ctx in
     if p1 = None \<or> p2 = None then None
     else
       let alias1 = map_alias codelet_name (ld_map_name l);
           alias2 = map_alias (ld_linked_codelet_name l) (ld_linked_map_name l);
           old1 = ck_ht_get ht table alias1; old2 = ck_ht_get ht table alias2;
           missing_refs = (if old1 = None then 1 else 0) + (if old2 = None then 1 else 0);
           (lm, ctx) = (case old1 of
               Some x \<Rightarrow> (Some x, ctx)
             | None \<Rightarrow> (case old2 of Some x \<Rightarrow> (Some x, ctx) | None \<Rightarrow> mem_alloc env ctx))
       in do {
         linked_map1 \<leftarrow> lm;
         let ctx = (if old1 = None \<and> old2 = None
           then ctx\<lparr>linked_mem := (linked_mem ctx)(linked_map1 \<mapsto> \<lparr> lm_map = None, lm_ref_count = 0, lm_total_refs = 0 \<rparr>)\<rparr>
           else ctx);
         let linked_map2 = (case old2 of Some x \<Rightarrow> x | None \<Rightarrow> linked_map1);
         x \<leftarrow> linked_mem ctx linked_map1;
         let ctx = ctx\<lparr>linked_mem := (linked_mem ctx)(linked_map1 \<mapsto> x\<lparr>lm_total_refs := lm_total_refs x + missing_refs\<rparr>)\<rparr>;
         let table = (if old1 = None then snd (ck_ht_put ht table alias1 linked_map1) else table);
         let table = (if old2 = None then snd (ck_ht_put ht table alias2 linked_map2) else table);
         Some (table, ctx)
       })"

fun populate_links ::
  "('h, 'r) core_ops \<Rightarrow> core_env \<Rightarrow> (bytes \<times> jbpf_linked_map_descriptor) list \<Rightarrow> 'h \<times> ('h, 'r) jbpf_ctx
    \<Rightarrow> ('h \<times> ('h, 'r) jbpf_ctx) option" where
  "populate_links ops env [] st = Some st"
| "populate_links ops env ((n, l) # ls) st = Option.bind (populate_link ops env n l st) (populate_links ops env ls)"

definition req_links :: "jbpf_codeletset_load_req \<Rightarrow> (bytes \<times> jbpf_linked_map_descriptor) list" where
  "req_links req = concat (map (\<lambda>d. map (Pair (d_codelet_name d)) (links d)) (req_codelets req))"

definition jbpf_populate_linked_map_entries ::
  "('h, 'r) core_ops \<Rightarrow> core_env \<Rightarrow> jbpf_codeletset_load_req \<Rightarrow> ('h, 'r) jbpf_ctx \<Rightarrow> ('h \<times> ('h, 'r) jbpf_ctx) option" where
  "jbpf_populate_linked_map_entries ops env req ctx = do {
     table \<leftarrow> ck_ht_init (ops_ht ops) JBPF_MAX_CODELET_MAPS;
     populate_links ops env (req_links req) (table, ctx)
   }"

section \<open>The maps of a codelet\<close>

definition jbpf_codelet_register_map ::
  "('h, 'r) core_ops \<Rightarrow> nat \<Rightarrow> nat \<Rightarrow> ('h, 'r) jbpf_ctx \<Rightarrow> (int \<times> ('h, 'r) jbpf_ctx) option" where
  "jbpf_codelet_register_map ops codelet mp ctx = do {
     c \<leftarrow> codelet_mem ctx codelet;
     m \<leftarrow> map_mem (cx_maps ctx) mp;
     let (ok, h) = ck_ht_put (ops_ht ops) (c_maps c) (m_name m) mp;
     Some (if ok then 0 else - 1, ctx\<lparr>codelet_mem := (codelet_mem ctx)(codelet \<mapsto> c\<lparr>c_maps := h\<rparr>)\<rparr>)
   }"

definition jbpf_codelet_deregister_map ::
  "('h, 'r) core_ops \<Rightarrow> nat \<Rightarrow> nat \<Rightarrow> ('h, 'r) jbpf_ctx \<Rightarrow> ('h, 'r) jbpf_ctx option" where
  "jbpf_codelet_deregister_map ops codelet mp ctx = do {
     c \<leftarrow> codelet_mem ctx codelet;
     m \<leftarrow> map_mem (cx_maps ctx) mp;
     let h = snd (ck_ht_remove (ops_ht ops) (c_maps c) (m_name m));
     Some (ctx\<lparr>codelet_mem := (codelet_mem ctx)(codelet \<mapsto> c\<lparr>c_maps := h\<rparr>)\<rparr>)
   }"

definition jbpf_codelet_lookup_map :: "('h, 'r) core_ops \<Rightarrow> 'h jbpf_codelet \<Rightarrow> bytes \<Rightarrow> nat option" where
  "jbpf_codelet_lookup_map ops c map_name = ck_ht_get (ops_ht ops) (c_maps c) (take (JBPF_MAP_NAME_LEN - 1) map_name)"

definition set_relocation_error :: "nat \<Rightarrow> ('h, 'r) jbpf_ctx \<Rightarrow> ('h, 'r) jbpf_ctx option" where
  "set_relocation_error codelet ctx = do {
     c \<leftarrow> codelet_mem ctx codelet;
     Some (ctx\<lparr>codelet_mem := (codelet_mem ctx)(codelet \<mapsto> c\<lparr>c_relocation_error := True\<rparr>)\<rparr>)
   }"

text \<open>The object files of a codelet: the code, and for each channel that has serialisers those.\<close>

record jbpf_codelet_obj_files =
  of_codelet_obj :: bytes
  of_in_io :: "bytes list"
  of_out_io :: "bytes list"

text \<open>The channel of the descriptor with the name of the map, with its object file.\<close>

definition find_channel :: "bytes \<Rightarrow> (jbpf_io_channel_desc \<times> bytes) list \<Rightarrow> (bytes \<times> bytes) option" where
  "find_channel symbol_name chans =
    map_option (\<lambda>(chan, obj). (cd_stream_id chan, obj)) (find (\<lambda>(chan, obj). cd_name chan = symbol_name) chans)"

definition lift_maps ::
  "('a \<times> ('h, 'r) maps_ctx) option \<Rightarrow> ('h, 'r) jbpf_ctx \<Rightarrow> ('a \<times> ('h, 'r) jbpf_ctx) option" where
  "lift_maps r ctx = map_option (\<lambda>(x, ms). (x, ctx\<lparr>cx_maps := ms\<rparr>)) r"

text \<open>A map that is not linked.\<close>

definition reloc_own_map ::
  "('h, 'r) core_ops \<Rightarrow> core_env \<Rightarrow> nat \<Rightarrow> jbpf_codelet_descriptor \<Rightarrow> jbpf_codelet_obj_files \<Rightarrow> map_reloc
    \<Rightarrow> ('h, 'r) jbpf_ctx \<Rightarrow> (nat option \<times> ('h, 'r) jbpf_ctx) option" where
  "reloc_own_map ops env codelet desc obj_files rl ctx =
    (let ty = md_type (rl_map_def rl); nm = rl_symbol_name rl;
         create = (\<lambda>io_def. lift_maps (jbpf_create_map ops (ce_mem env) nm (rl_map_def rl) io_def (cx_maps ctx)) ctx);
         io_create = (\<lambda>chan. case chan of None \<Rightarrow> Some (None, ctx) | Some io_def \<Rightarrow> create (Some io_def))
     in do {
       (mp, ctx) \<leftarrow>
         (if ty = JBPF_MAP_TYPE_RINGBUF \<or> ty = JBPF_MAP_TYPE_OUTPUT
          then io_create (find_channel nm (zip (out_channels desc) (of_out_io obj_files)))
          else if ty = JBPF_MAP_TYPE_CONTROL_INPUT
          then io_create (find_channel nm (zip (in_channels desc) (of_in_io obj_files)))
          else create None);
       (case mp of
          None \<Rightarrow> do { ctx \<leftarrow> set_relocation_error codelet ctx; Some (None, ctx) }
        | Some mp \<Rightarrow> do {
            (result, ctx) \<leftarrow> jbpf_codelet_register_map ops codelet mp ctx;
            if result = - 1 then do {
              ms \<leftarrow> jbpf_destroy_map ops mp (cx_maps ctx);
              ctx \<leftarrow> set_relocation_error codelet (ctx\<lparr>cx_maps := ms\<rparr>);
              Some (None, ctx)
            }
            else Some (Some mp, ctx)
          })
     })"

text \<open>The first codelet of a link creates the map.\<close>

definition reloc_first_link ::
  "('h, 'r) core_ops \<Rightarrow> core_env \<Rightarrow> nat \<Rightarrow> nat \<Rightarrow> map_reloc \<Rightarrow> ('h, 'r) jbpf_ctx \<Rightarrow> (nat option \<times> ('h, 'r) jbpf_ctx) option" where
  "reloc_first_link ops env codelet lm rl ctx = do {
     (mp, ctx) \<leftarrow> lift_maps (jbpf_create_map ops (ce_mem env) (rl_symbol_name rl) (rl_map_def rl) None (cx_maps ctx)) ctx;
     (case mp of
        None \<Rightarrow> do { ctx \<leftarrow> set_relocation_error codelet ctx; Some (None, ctx) }
      | Some mp \<Rightarrow> do {
          x \<leftarrow> linked_mem ctx lm;
          let ctx = ctx\<lparr>linked_mem := (linked_mem ctx)(lm \<mapsto> x\<lparr>lm_map := Some mp\<rparr>)\<rparr>;
          (result, ctx) \<leftarrow> jbpf_codelet_register_map ops codelet mp ctx;
          if result = - 1 then do {
            ms \<leftarrow> jbpf_release_map ops (Some mp) (cx_maps ctx);
            ctx \<leftarrow> set_relocation_error codelet (ctx\<lparr>cx_maps := ms\<rparr>);
            Some (None, ctx)
          }
          else Some (Some mp, ctx)
        })
   }"

text \<open>A later one makes a copy of the structure with the same data; the allocation is not checked.\<close>

definition reloc_next_link ::
  "('h, 'r) core_ops \<Rightarrow> core_env \<Rightarrow> nat \<Rightarrow> jbpf_linked_map \<Rightarrow> map_reloc \<Rightarrow> ('h, 'r) jbpf_ctx
    \<Rightarrow> (nat option \<times> ('h, 'r) jbpf_ctx) option" where
  "reloc_next_link ops env codelet x rl ctx = do {
     p \<leftarrow> lm_map x;
     m \<leftarrow> map_mem (cx_maps ctx) p;
     let md = rl_map_def rl;
     if m_type m \<noteq> md_type md \<or> m_key_size m \<noteq> md_key_size md \<or> m_value_size m \<noteq> md_value_size md
       \<or> m_max_entries m \<noteq> md_max_entries md
     then do { ctx \<leftarrow> set_relocation_error codelet ctx; Some (None, ctx) }
     else do {
       let (mp, ctx) = mem_alloc env ctx;
       mp \<leftarrow> mp;
       let ms = cx_maps ctx;
       let ctx = ctx\<lparr>cx_maps := ms\<lparr>map_mem := (map_mem ms)(mp \<mapsto> m\<lparr>m_name := take (JBPF_MAP_NAME_LEN - 1) (rl_symbol_name rl)\<rparr>)\<rparr>\<rparr>;
       (result, ctx) \<leftarrow> jbpf_codelet_register_map ops codelet mp ctx;
       if result = - 1 then do { ctx \<leftarrow> set_relocation_error codelet ctx; Some (None, ctx) }
       else Some (Some mp, ctx)
     }
   }"

text \<open>The callback of the virtual machine; the result is the address of the map, \<^const>\<open>None\<close> for 0.\<close>

definition jbpf_do_map_relocation ::
  "('h, 'r) core_ops \<Rightarrow> core_env \<Rightarrow> nat \<Rightarrow> jbpf_codelet_descriptor \<Rightarrow> jbpf_codelet_obj_files \<Rightarrow> map_reloc
    \<Rightarrow> ('h, 'r) jbpf_ctx \<Rightarrow> (nat option \<times> ('h, 'r) jbpf_ctx) option" where
  "jbpf_do_map_relocation ops env codelet desc obj_files rl ctx =
    (if rl_symbol_size rl < sizeof_map_def then Some (None, ctx)
     else do {
       c \<leftarrow> codelet_mem ctx codelet;
       (case jbpf_codelet_lookup_map ops c (rl_symbol_name rl) of
          Some mp \<Rightarrow> Some (Some mp, ctx)
        | None \<Rightarrow> do {
            set \<leftarrow> set_mem ctx (c_codeletset c);
            (case ck_ht_get (ops_ht ops) (s_linked_map_entries set) (map_alias (c_name c) (rl_symbol_name rl)) of
               None \<Rightarrow> reloc_own_map ops env codelet desc obj_files rl ctx
             | Some lm \<Rightarrow>
                if is_io_type (md_type (rl_map_def rl)) then do {
                  ctx \<leftarrow> set_relocation_error codelet ctx;
                  Some (None, ctx)
                }
                else do {
                  x \<leftarrow> linked_mem ctx lm;
                  (mp, ctx) \<leftarrow> (if lm_ref_count x = 0 then reloc_first_link ops env codelet lm rl ctx
                    else reloc_next_link ops env codelet x rl ctx);
                  (case mp of
                     None \<Rightarrow> Some (None, ctx)
                   | Some mp \<Rightarrow> do {
                       x \<leftarrow> linked_mem ctx lm;
                       Some (Some mp, ctx\<lparr>linked_mem := (linked_mem ctx)(lm \<mapsto> x\<lparr>lm_ref_count := lm_ref_count x + 1\<rparr>)\<rparr>)
                     })
                })
          })
     })"

fun do_relocations ::
  "('h, 'r) core_ops \<Rightarrow> core_env \<Rightarrow> nat \<Rightarrow> jbpf_codelet_descriptor \<Rightarrow> jbpf_codelet_obj_files \<Rightarrow> map_reloc list
    \<Rightarrow> ('h, 'r) jbpf_ctx \<Rightarrow> ('h, 'r) jbpf_ctx option" where
  "do_relocations ops env codelet desc obj_files [] ctx = Some ctx"
| "do_relocations ops env codelet desc obj_files (rl # rls) ctx = do {
     (_, ctx) \<leftarrow> jbpf_do_map_relocation ops env codelet desc obj_files rl ctx;
     do_relocations ops env codelet desc obj_files rls ctx
   }"

text \<open>The release of one map of a codelet.\<close>

definition destroy_codelet_map ::
  "('h, 'r) core_ops \<Rightarrow> nat \<Rightarrow> nat \<Rightarrow> ('h, 'r) jbpf_ctx \<Rightarrow> ('h, 'r) jbpf_ctx option" where
  "destroy_codelet_map ops codelet mp ctx = do {
     ctx \<leftarrow> jbpf_codelet_deregister_map ops codelet mp ctx;
     c \<leftarrow> codelet_mem ctx codelet;
     m \<leftarrow> map_mem (cx_maps ctx) mp;
     set \<leftarrow> set_mem ctx (c_codeletset c);
     let (r, table) = ck_ht_remove (ops_ht ops) (s_linked_map_entries set) (map_alias (c_name c) (m_name m));
     let ctx = ctx\<lparr>set_mem := (set_mem ctx)(c_codeletset c \<mapsto> set\<lparr>s_linked_map_entries := table\<rparr>)\<rparr>;
     (case r of
        Some lm \<Rightarrow> do {
          x \<leftarrow> linked_mem ctx lm;
          let x = x\<lparr>lm_ref_count := lm_ref_count x - 1, lm_total_refs := lm_total_refs x - 1\<rparr>;
          let ctx = ctx\<lparr>linked_mem := (linked_mem ctx)(lm \<mapsto> x)\<rparr>;
          if lm_ref_count x = 0 then do {
            ms \<leftarrow> jbpf_release_map ops (Some mp) (cx_maps ctx);
            let ctx = ctx\<lparr>cx_maps := ms\<rparr>;
            Some (if lm_total_refs x = 0 then ctx\<lparr>linked_mem := (linked_mem ctx)(lm := None)\<rparr> else ctx)
          }
          else Some (ctx\<lparr>cx_maps := (cx_maps ctx)\<lparr>map_mem := (map_mem (cx_maps ctx))(mp := None)\<rparr>\<rparr>)
        }
      | None \<Rightarrow> do {
          ms \<leftarrow> jbpf_release_map ops (Some mp) (cx_maps ctx);
          Some (ctx\<lparr>cx_maps := ms\<rparr>)
        })
   }"

fun destroy_maps ::
  "('h, 'r) core_ops \<Rightarrow> nat \<Rightarrow> nat list \<Rightarrow> ('h, 'r) jbpf_ctx \<Rightarrow> ('h, 'r) jbpf_ctx option" where
  "destroy_maps ops codelet [] ctx = Some ctx"
| "destroy_maps ops codelet (mp # mps) ctx = Option.bind (destroy_codelet_map ops codelet mp ctx) (destroy_maps ops codelet mps)"

text \<open>The maps are collected in an array of 64 entries first.\<close>

definition jbpf_destroy_codelet_maps ::
  "('h, 'r) core_ops \<Rightarrow> nat \<Rightarrow> ('h, 'r) jbpf_ctx \<Rightarrow> ('h, 'r) jbpf_ctx option" where
  "jbpf_destroy_codelet_maps ops codelet ctx = do {
     c \<leftarrow> codelet_mem ctx codelet;
     let registered_maps = map snd (ck_ht_entries (ops_ht ops) (c_maps c));
     if length registered_maps > JBPF_MAX_CODELET_MAPS then None
     else destroy_maps ops codelet registered_maps ctx
   }"

section \<open>Codelets\<close>

definition free_codelet :: "nat \<Rightarrow> ('h, 'r) jbpf_ctx \<Rightarrow> ('h, 'r) jbpf_ctx" where
  "free_codelet codelet ctx = ctx\<lparr>codelet_mem := (codelet_mem ctx)(codelet := None)\<rparr>"

definition jbpf_create_codelet ::
  "('h, 'r) core_ops \<Rightarrow> core_env \<Rightarrow> nat \<Rightarrow> jbpf_codelet_descriptor \<Rightarrow> jbpf_codelet_obj_files
    \<Rightarrow> ('h, 'r) jbpf_ctx \<Rightarrow> (nat option \<times> ('h, 'r) jbpf_ctx) option" where
  "jbpf_create_codelet ops env codeletset desc obj_files ctx =
    (let (p, ctx) = mem_alloc env ctx in
     case p of
       None \<Rightarrow> Some (None, ctx)
     | Some codelet \<Rightarrow>
        (case ck_ht_init (ops_ht ops) JBPF_MAX_CODELET_MAPS of
           None \<Rightarrow> Some (None, ctx)
         | Some h \<Rightarrow>
            if \<not> ce_vm env codelet then Some (None, ctx)
            else
              let c = \<lparr> c_codelet_fn = 0, c_maps = h, c_name = take (JBPF_CODELET_NAME_LEN - 1) (d_codelet_name desc),
                    c_hook_name = take (JBPF_HOOK_NAME_LEN - 1) (d_hook_name desc), c_priority = d_priority desc,
                    c_e_runtime_threshold = d_runtime_threshold desc, c_codeletset = codeletset, c_loaded = False,
                    c_relocation_error = False \<rparr>;
                  obj = of_codelet_obj obj_files
              in do {
                ctx \<leftarrow> do_relocations ops env codelet desc obj_files (ce_relocs env obj)
                  (ctx\<lparr>codelet_mem := (codelet_mem ctx)(codelet \<mapsto> c)\<rparr>);
                c \<leftarrow> codelet_mem ctx codelet;
                if \<not> ce_load env obj \<or> c_relocation_error c \<or> \<not> ce_compile env obj then do {
                  ctx \<leftarrow> jbpf_destroy_codelet_maps ops codelet ctx;
                  Some (None, free_codelet codelet ctx)
                }
                else Some (Some codelet, ctx\<lparr>codelet_mem := (codelet_mem ctx)(codelet \<mapsto> c\<lparr>c_codelet_fn := Suc codelet\<rparr>)\<rparr>)
              }))"

definition jbpf_destroy_codelet ::
  "('h, 'r) core_ops \<Rightarrow> nat \<Rightarrow> ('h, 'r) jbpf_ctx \<Rightarrow> ('h, 'r) jbpf_ctx option" where
  "jbpf_destroy_codelet ops codelet ctx = do {
     ctx \<leftarrow> jbpf_destroy_codelet_maps ops codelet ctx;
     Some (free_codelet codelet ctx)
   }"

text \<open>Strings of characters as strings of bytes.\<close>

definition c_string :: "string \<Rightarrow> bytes" where
  "c_string s = map of_char s"

text \<open>The first hook with a name, and what an operation makes of it.\<close>

fun on_hook :: "bytes \<Rightarrow> (jbpf_hook \<Rightarrow> (int \<times> jbpf_hook) option) \<Rightarrow> jbpf_hook list \<Rightarrow> (int \<times> jbpf_hook list) option" where
  "on_hook hook_name f [] = Some (- 1, [])"
| "on_hook hook_name f (h # hs) =
    (if c_string (name h) = hook_name then do { (r, h') \<leftarrow> f h; Some (r, h' # hs) }
     else do { (r, hs') \<leftarrow> on_hook hook_name f hs; Some (r, h # hs') })"

definition jbpf_hook_exists :: "bytes \<Rightarrow> ('h, 'r) jbpf_ctx \<Rightarrow> bool" where
  "jbpf_hook_exists hook_name ctx \<longleftrightarrow> list_ex (\<lambda>h. c_string (name h) = hook_name) (hook_list ctx)"

definition jbpf_load_codelet ::
  "core_env \<Rightarrow> nat \<Rightarrow> ('h, 'r) jbpf_ctx \<Rightarrow> (int \<times> ('h, 'r) jbpf_ctx) option" where
  "jbpf_load_codelet env codelet ctx = do {
     c \<leftarrow> codelet_mem ctx codelet;
     (ret, hs) \<leftarrow> on_hook (c_hook_name c) (\<lambda>h. jbpf_register_codelet_hook (ce_hook_mem env) h (c_codelet_fn c)
       (c_e_runtime_threshold c) (c_priority c)) (hook_list ctx);
     let ctx = ctx\<lparr>hook_list := hs\<rparr>;
     Some (ret, if ret = 0 then ctx\<lparr>codelet_mem := (codelet_mem ctx)(codelet \<mapsto> c\<lparr>c_loaded := True\<rparr>)\<rparr> else ctx)
   }"

definition jbpf_unload_codelet ::
  "core_env \<Rightarrow> nat \<Rightarrow> ('h, 'r) jbpf_ctx \<Rightarrow> (int \<times> ('h, 'r) jbpf_ctx) option" where
  "jbpf_unload_codelet env codelet ctx = do {
     c \<leftarrow> codelet_mem ctx codelet;
     (ret, hs) \<leftarrow> on_hook (c_hook_name c) (\<lambda>h. jbpf_remove_codelet_hook (ce_hook_mem env) h (c_codelet_fn c)) (hook_list ctx);
     Some (ret, ctx\<lparr>hook_list := hs\<rparr>)
   }"

text \<open>The files of the serialisers of the channels of one direction, none when a file cannot be read.\<close>

fun read_serdes :: "core_env \<Rightarrow> jbpf_io_channel_desc list \<Rightarrow> bytes list option" where
  "read_serdes env [] = Some []"
| "read_serdes env (ch # chs) = do {
     obj \<leftarrow> (if cd_has_serde ch then ce_file env (cd_serde ch) else Some []);
     objs \<leftarrow> read_serdes env chs;
     Some (obj # objs)
   }"

definition jbpf_create_codelet_from_files ::
  "('h, 'r) core_ops \<Rightarrow> core_env \<Rightarrow> nat \<Rightarrow> jbpf_codelet_descriptor \<Rightarrow> ('h, 'r) jbpf_ctx
    \<Rightarrow> (nat option \<times> ('h, 'r) jbpf_ctx) option" where
  "jbpf_create_codelet_from_files ops env codeletset desc ctx =
    (if d_num_in_io_channel desc > int JBPF_MAX_IO_CHANNEL \<or> d_num_out_io_channel desc > int JBPF_MAX_IO_CHANNEL
     then Some (None, ctx)
     else case ce_file env (d_codelet_path desc) of
       None \<Rightarrow> Some (None, ctx)
     | Some obj \<Rightarrow>
        (case read_serdes env (in_channels desc) of
           None \<Rightarrow> Some (None, ctx)
         | Some ins \<Rightarrow>
            (case read_serdes env (out_channels desc) of
               None \<Rightarrow> Some (None, ctx)
             | Some outs \<Rightarrow>
                jbpf_create_codelet ops env codeletset desc \<lparr> of_codelet_obj = obj, of_in_io = ins, of_out_io = outs \<rparr> ctx)))"

definition jbpf_add_codelet_to_codeletset ::
  "('h, 'r) core_ops \<Rightarrow> core_env \<Rightarrow> nat \<Rightarrow> jbpf_codelet_descriptor \<Rightarrow> ('h, 'r) jbpf_ctx
    \<Rightarrow> (bool \<times> ('h, 'r) jbpf_ctx) option" where
  "jbpf_add_codelet_to_codeletset ops env codeletset desc ctx = do {
     (x, ctx) \<leftarrow> jbpf_create_codelet_from_files ops env codeletset desc ctx;
     (case x of
        None \<Rightarrow> Some (False, ctx)
      | Some codelet \<Rightarrow> do {
          c \<leftarrow> codelet_mem ctx codelet;
          set \<leftarrow> set_mem ctx codeletset;
          let h = snd (ck_ht_put (ops_ht ops) (s_codelets set) (c_name c) codelet);
          Some (True, ctx\<lparr>set_mem := (set_mem ctx)(codeletset \<mapsto> set\<lparr>s_codelets := h\<rparr>)\<rparr>)
        })
   }"

section \<open>Codelet sets\<close>

text \<open>The loop that adds the codelets; each one that could be created is counted.\<close>

fun add_codelets ::
  "('h, 'r) core_ops \<Rightarrow> core_env \<Rightarrow> nat \<Rightarrow> jbpf_codelet_descriptor list \<Rightarrow> ('h, 'r) jbpf_ctx
    \<Rightarrow> (bool \<times> ('h, 'r) jbpf_ctx) option" where
  "add_codelets ops env codeletset [] ctx = Some (True, ctx)"
| "add_codelets ops env codeletset (d # ds) ctx = do {
     (ok, ctx) \<leftarrow> jbpf_add_codelet_to_codeletset ops env codeletset d ctx;
     if \<not> ok then Some (False, ctx)
     else add_codelets ops env codeletset ds (ctx\<lparr>total_num_codelets := total_num_codelets ctx + 1\<rparr>)
   }"

text \<open>The check that every linked map has all its references; the error message reads the name of the map.\<close>

fun check_links :: "nat list \<Rightarrow> ('h, 'r) jbpf_ctx \<Rightarrow> bool option" where
  "check_links [] ctx = Some True"
| "check_links (lm # lms) ctx = do {
     x \<leftarrow> linked_mem ctx lm;
     if lm_ref_count x \<noteq> lm_total_refs x then do {
       p \<leftarrow> lm_map x;
       _ \<leftarrow> map_mem (cx_maps ctx) p;
       Some False
     }
     else check_links lms ctx
   }"

fun load_codelets :: "core_env \<Rightarrow> nat list \<Rightarrow> ('h, 'r) jbpf_ctx \<Rightarrow> (bool \<times> ('h, 'r) jbpf_ctx) option" where
  "load_codelets env [] ctx = Some (True, ctx)"
| "load_codelets env (c # cs) ctx = do {
     (status, ctx) \<leftarrow> jbpf_load_codelet env c ctx;
     if status = 0 then load_codelets env cs ctx else Some (False, ctx)
   }"

text \<open>The cleanup after an error: loaded codelets are unloaded, all are destroyed.\<close>

fun undo_codelets ::
  "('h, 'r) core_ops \<Rightarrow> core_env \<Rightarrow> nat list \<Rightarrow> ('h, 'r) jbpf_ctx \<Rightarrow> ('h, 'r) jbpf_ctx option" where
  "undo_codelets ops env [] ctx = Some ctx"
| "undo_codelets ops env (codelet # cs) ctx = do {
     c \<leftarrow> codelet_mem ctx codelet;
     ctx \<leftarrow> (if c_loaded c then do {
         (_, ctx) \<leftarrow> jbpf_unload_codelet env codelet ctx;
         Some (ctx\<lparr>total_num_codelets := total_num_codelets ctx - 1\<rparr>)
       } else Some ctx);
     ctx \<leftarrow> jbpf_destroy_codelet ops codelet ctx;
     undo_codelets ops env cs ctx
   }"

fun drop_aliases :: "nat list \<Rightarrow> ('h, 'r) jbpf_ctx \<Rightarrow> ('h, 'r) jbpf_ctx option" where
  "drop_aliases [] ctx = Some ctx"
| "drop_aliases (lm # lms) ctx = do {
     x \<leftarrow> linked_mem ctx lm;
     let x = x\<lparr>lm_total_refs := lm_total_refs x - 1\<rparr>;
     drop_aliases lms (ctx\<lparr>linked_mem := (linked_mem ctx)(lm := if lm_total_refs x = 0 then None else Some x)\<rparr>)
   }"

definition undo_load ::
  "('h, 'r) core_ops \<Rightarrow> core_env \<Rightarrow> nat \<Rightarrow> ('h, 'r) jbpf_ctx \<Rightarrow> ('h, 'r) jbpf_ctx option" where
  "undo_load ops env codeletset ctx = do {
     set \<leftarrow> set_mem ctx codeletset;
     ctx \<leftarrow> undo_codelets ops env (map snd (ck_ht_entries (ops_ht ops) (s_codelets set))) ctx;
     set \<leftarrow> set_mem ctx codeletset;
     ctx \<leftarrow> drop_aliases (map snd (ck_ht_entries (ops_ht ops) (s_linked_map_entries set))) ctx;
     Some (ctx\<lparr>set_mem := (set_mem ctx)(codeletset := None)\<rparr>)
   }"

text \<open>The part of the load that follows the checks, for a set at an address: 0 or the error.\<close>

definition build_codeletset ::
  "('h, 'r) core_ops \<Rightarrow> core_env \<Rightarrow> nat \<Rightarrow> jbpf_codelet_descriptor list \<Rightarrow> ('h, 'r) jbpf_ctx
    \<Rightarrow> (int \<times> ('h, 'r) jbpf_ctx) option" where
  "build_codeletset ops env codeletset ds ctx = do {
     (added, ctx) \<leftarrow> add_codelets ops env codeletset ds ctx;
     if \<not> added then Some (JBPF_CODELET_CREATION_FAIL, ctx)
     else do {
       set \<leftarrow> set_mem ctx codeletset;
       linked \<leftarrow> check_links (map snd (ck_ht_entries (ops_ht ops) (s_linked_map_entries set))) ctx;
       if \<not> linked then Some (JBPF_CODELET_LOAD_FAIL, ctx)
       else do {
         (loaded, ctx) \<leftarrow> load_codelets env (map snd (ck_ht_entries (ops_ht ops) (s_codelets set))) ctx;
         Some (if loaded then JBPF_CODELET_LOAD_SUCCESS else JBPF_CODELET_LOAD_FAIL, ctx)
       }
     }
   }"

definition jbpf_codeletset_load ::
  "('h, 'r) core_ops \<Rightarrow> core_env \<Rightarrow> jbpf_codeletset_load_req option \<Rightarrow> ('h, 'r) jbpf_ctx
    \<Rightarrow> (int \<times> ('h, 'r) jbpf_ctx) option" where
  "jbpf_codeletset_load ops env load_req ctx = do {
     outcome \<leftarrow> validate_codeletset (\<lambda>f. ce_file env f \<noteq> None) load_req;
     if outcome \<noteq> JBPF_CODELET_LOAD_SUCCESS then Some (outcome, ctx)
     else do {
     req \<leftarrow> load_req;
     let ds = req_codelets req;
     if \<not> list_all (\<lambda>d. jbpf_hook_exists (d_hook_name d) ctx) ds then Some (JBPF_CODELET_HOOK_NOT_EXIST, ctx)
     else if ck_ht_count (ops_ht ops) (codeletset_registry ctx) \<ge> JBPF_MAX_LOADED_CODELETSETS
     then Some (JBPF_CODELET_CREATION_FAIL, ctx)
     else if ck_ht_get (ops_ht ops) (codeletset_registry ctx) (lr_codeletset_id req) \<noteq> None
     then Some (JBPF_CODELET_LOAD_SUCCESS, ctx)
     else if total_num_codelets ctx + lr_num_codelet_descriptors req > JBPF_MAX_LOADED_CODELETS
       \<or> lr_num_codelet_descriptors req > int JBPF_MAX_CODELETS_IN_CODELETSET
     then Some (JBPF_CODELET_CREATION_FAIL, ctx)
     else
       let (p, ctx) = mem_alloc env ctx in
       case p of
         None \<Rightarrow> Some (JBPF_CODELET_LOAD_FAIL, ctx)
       | Some codeletset \<Rightarrow> do {
           codelets \<leftarrow> ck_ht_init (ops_ht ops) JBPF_MAX_CODELETS_IN_CODELETSET;
           (table, ctx) \<leftarrow> jbpf_populate_linked_map_entries ops env req ctx;
           let ctx = ctx\<lparr>set_mem := (set_mem ctx)(codeletset \<mapsto>
             \<lparr> s_codeletset_id = lr_codeletset_id req, s_codelets = codelets, s_linked_map_entries = table \<rparr>)\<rparr>;
           (outcome, ctx) \<leftarrow> build_codeletset ops env codeletset ds ctx;
           if outcome \<noteq> 0 then do {
             ctx \<leftarrow> undo_load ops env codeletset ctx;
             Some (outcome, ctx)
           }
           else Some (outcome, ctx\<lparr>codeletset_registry :=
             snd (ck_ht_put (ops_ht ops) (codeletset_registry ctx) (lr_codeletset_id req) codeletset)\<rparr>)
         }
     }
   }"

fun unload_codelets :: "core_env \<Rightarrow> nat list \<Rightarrow> ('h, 'r) jbpf_ctx \<Rightarrow> ('h, 'r) jbpf_ctx option" where
  "unload_codelets env [] ctx = Some ctx"
| "unload_codelets env (c # cs) ctx = do {
     (_, ctx) \<leftarrow> jbpf_unload_codelet env c ctx;
     unload_codelets env cs (ctx\<lparr>total_num_codelets := total_num_codelets ctx - 1\<rparr>)
   }"

fun destroy_codelets :: "('h, 'r) core_ops \<Rightarrow> nat list \<Rightarrow> ('h, 'r) jbpf_ctx \<Rightarrow> ('h, 'r) jbpf_ctx option" where
  "destroy_codelets ops [] ctx = Some ctx"
| "destroy_codelets ops (c # cs) ctx = Option.bind (jbpf_destroy_codelet ops c ctx) (destroy_codelets ops cs)"

definition jbpf_codeletset_unload ::
  "('h, 'r) core_ops \<Rightarrow> core_env \<Rightarrow> bytes option \<Rightarrow> ('h, 'r) jbpf_ctx \<Rightarrow> (int \<times> ('h, 'r) jbpf_ctx) option" where
  "jbpf_codeletset_unload ops env unload_req ctx =
    (case unload_req of
       None \<Rightarrow> Some (JBPF_CODELET_UNLOAD_FAIL, ctx)
     | Some codeletset_id \<Rightarrow>
        if validate_string_param codeletset_id JBPF_CODELETSET_NAME_LEN \<noteq> 1 then Some (JBPF_CODELET_PARAM_INVALID, ctx)
        else case ck_ht_get (ops_ht ops) (codeletset_registry ctx) codeletset_id of
          None \<Rightarrow> Some (JBPF_CODELET_UNLOAD_FAIL, ctx)
        | Some codeletset \<Rightarrow> do {
            set \<leftarrow> set_mem ctx codeletset;
            let codelet_list = map snd (ck_ht_entries (ops_ht ops) (s_codelets set));
            if length codelet_list > JBPF_MAX_CODELETS_IN_CODELETSET then None
            else do {
              ctx \<leftarrow> unload_codelets env codelet_list ctx;
              ctx \<leftarrow> destroy_codelets ops codelet_list ctx;
              Some (JBPF_CODELET_UNLOAD_SUCCESS, ctx\<lparr>
                codeletset_registry := snd (ck_ht_remove (ops_ht ops) (codeletset_registry ctx) codeletset_id),
                set_mem := (set_mem ctx)(codeletset := None)\<rparr>)
            }
          })"

section \<open>What the work on maps leaves alone\<close>

definition codelet_same :: "'h jbpf_codelet \<Rightarrow> 'h jbpf_codelet \<Rightarrow> bool" where
  "codelet_same c c' \<longleftrightarrow> c_codelet_fn c' = c_codelet_fn c \<and> c_name c' = c_name c \<and> c_hook_name c' = c_hook_name c
    \<and> c_priority c' = c_priority c \<and> c_e_runtime_threshold c' = c_e_runtime_threshold c
    \<and> c_codeletset c' = c_codeletset c \<and> c_loaded c' = c_loaded c"

definition set_same :: "'h jbpf_codeletset \<Rightarrow> 'h jbpf_codeletset \<Rightarrow> bool" where
  "set_same s s' \<longleftrightarrow> s_codeletset_id s' = s_codeletset_id s \<and> s_codelets s' = s_codelets s"

text \<open>The hooks, the counter, the registry, and of the codelets and the sets all but their maps.\<close>

definition core_same :: "('h, 'r) jbpf_ctx \<Rightarrow> ('h, 'r) jbpf_ctx \<Rightarrow> bool" where
  "core_same ctx ctx' \<longleftrightarrow> hook_list ctx' = hook_list ctx \<and> total_num_codelets ctx' = total_num_codelets ctx
    \<and> codeletset_registry ctx' = codeletset_registry ctx \<and> clock (cx_maps ctx) \<le> clock (cx_maps ctx')
    \<and> (\<forall>p. rel_option codelet_same (codelet_mem ctx p) (codelet_mem ctx' p))
    \<and> (\<forall>p. rel_option set_same (set_mem ctx p) (set_mem ctx' p))"

lemma codelet_same_refl [simp]: "codelet_same c c"
  by (simp add: codelet_same_def)

lemma set_same_refl [simp]: "set_same s s"
  by (simp add: set_same_def)

lemma rel_option_same [simp]: "rel_option codelet_same x x" "rel_option set_same y y"
  by (simp_all add: option.rel_refl)

lemma core_same_refl [simp]: "core_same ctx ctx"
  by (simp add: core_same_def)

lemma core_same_trans [trans]:
  assumes "core_same a b" "core_same b c"
  shows "core_same a c"
proof -
  have "rel_option codelet_same (codelet_mem a p) (codelet_mem c p)" for p
    using assms [unfolded core_same_def]
    by (cases "codelet_mem a p"; cases "codelet_mem b p"; cases "codelet_mem c p")
      (auto simp: codelet_same_def dest!: spec [of _ p])
  moreover have "rel_option set_same (set_mem a p) (set_mem c p)" for p
    using assms [unfolded core_same_def]
    by (cases "set_mem a p"; cases "set_mem b p"; cases "set_mem c p")
      (auto simp: set_same_def dest!: spec [of _ p])
  ultimately show ?thesis using assms by (simp add: core_same_def)
qed

lemma core_same_upd:
  "codelet_mem ctx p = Some c \<Longrightarrow> codelet_same c c' \<Longrightarrow> core_same ctx (ctx\<lparr>codelet_mem := (codelet_mem ctx)(p \<mapsto> c')\<rparr>)"
  "set_mem ctx q = Some s \<Longrightarrow> set_same s s' \<Longrightarrow> core_same ctx (ctx\<lparr>set_mem := (set_mem ctx)(q \<mapsto> s')\<rparr>)"
  "clock (cx_maps ctx) \<le> clock ms \<Longrightarrow> core_same ctx (ctx\<lparr>cx_maps := ms\<rparr>)"
  "core_same ctx (ctx\<lparr>linked_mem := lm\<rparr>)"
  by (simp_all add: core_same_def)

lemma codelet_same_upd [simp]:
  "codelet_same c (c\<lparr>c_maps := h\<rparr>)" "codelet_same c (c\<lparr>c_relocation_error := e\<rparr>)"
  by (simp_all add: codelet_same_def)

lemma set_same_upd [simp]: "set_same s (s\<lparr>s_linked_map_entries := t\<rparr>)"
  by (simp add: set_same_def)

lemma mem_alloc_spec:
  assumes "mem_alloc env ctx = (x, ctx')"
  shows "core_same ctx ctx' \<and> (x = None \<or> x = Some (clock (cx_maps ctx))) \<and> clock (cx_maps ctx') = Suc (clock (cx_maps ctx))
    \<and> codelet_mem ctx' = codelet_mem ctx \<and> set_mem ctx' = set_mem ctx \<and> linked_mem ctx' = linked_mem ctx
    \<and> map_mem (cx_maps ctx') = map_mem (cx_maps ctx)"
  using assms by (auto simp: mem_alloc_def Let_def core_same_def split: if_splits)

lemma create_map_clock:
  "jbpf_create_map ops E nm md io st = Some (x, st') \<Longrightarrow> clock st \<le> clock st'"
  by (auto simp: jbpf_create_map_def Let_def split: if_splits option.splits bind_splits)

lemma destroy_map_clock: "jbpf_destroy_map ops p st = Some st' \<Longrightarrow> clock st' = clock st"
  by (auto simp: jbpf_destroy_map_def destroy_data_def Let_def split: if_splits option.splits bind_splits map_data.splits)

lemma release_map_clock: "jbpf_release_map ops p st = Some st' \<Longrightarrow> clock st' = clock st"
  by (auto simp: jbpf_release_map_def Let_def dest: destroy_map_clock split: option.splits)

lemma lift_maps_same:
  "lift_maps (jbpf_create_map ops E nm md io (cx_maps ctx)) ctx = Some (x, ctx') \<Longrightarrow> core_same ctx ctx'"
  by (auto simp: lift_maps_def intro!: core_same_upd(3) dest: create_map_clock)

text \<open>A computation that, started in \<open>ctx\<close>, ends if it does not fault in a context that is the same in this sense.\<close>

definition stays :: "('h, 'r) jbpf_ctx \<Rightarrow> ('a \<times> ('h, 'r) jbpf_ctx) option \<Rightarrow> bool" where
  "stays ctx m \<longleftrightarrow> (\<forall>x ctx'. m = Some (x, ctx') \<longrightarrow> core_same ctx ctx')"

definition stays_ctx :: "('h, 'r) jbpf_ctx \<Rightarrow> ('h, 'r) jbpf_ctx option \<Rightarrow> bool" where
  "stays_ctx ctx m \<longleftrightarrow> (\<forall>ctx'. m = Some ctx' \<longrightarrow> core_same ctx ctx')"

lemma stays_simps [simp]:
  "stays ctx None" "stays ctx (Some (x, c)) = core_same ctx c"
  "stays_ctx ctx None" "stays_ctx ctx (Some c) = core_same ctx c"
  by (auto simp: stays_def stays_ctx_def)

lemma stays_bind:
  assumes "stays ctx m" "\<And>x c. stays c (k x c)"
  shows "stays ctx (Option.bind m (\<lambda>(x, c). k x c))"
  using assms by (cases m) (auto simp: stays_def intro: core_same_trans)

lemma stays_bind_ctx:
  assumes "stays_ctx ctx m" "\<And>c. stays c (k c)"
  shows "stays ctx (Option.bind m k)"
  using assms by (cases m) (auto simp: stays_def intro: core_same_trans)

lemma stays_ctx_bind:
  assumes "stays ctx m" "\<And>x c. stays_ctx c (k x c)"
  shows "stays_ctx ctx (Option.bind m (\<lambda>(x, c). k x c))"
  using assms by (cases m) (auto simp: stays_def stays_ctx_def intro: core_same_trans)

lemma stays_ctx_bind_ctx:
  assumes "stays_ctx ctx m" "\<And>c. stays_ctx c (k c)"
  shows "stays_ctx ctx (Option.bind m k)"
  using assms by (cases m) (auto simp: stays_ctx_def intro: core_same_trans)

lemma stays_read:
  "(\<And>x. m = Some x \<Longrightarrow> stays ctx (k x)) \<Longrightarrow> stays ctx (Option.bind m k)"
  "(\<And>x. m = Some x \<Longrightarrow> stays_ctx ctx (j x)) \<Longrightarrow> stays_ctx ctx (Option.bind m j)"
  by (cases m; simp)+

lemma stays_from:
  "core_same ctx c \<Longrightarrow> stays c m \<Longrightarrow> stays ctx m"
  "core_same ctx c \<Longrightarrow> stays_ctx c r \<Longrightarrow> stays_ctx ctx r"
  by (auto simp: stays_def stays_ctx_def intro: core_same_trans)

lemma lift_maps_stays [simp]:
  "stays ctx (lift_maps (jbpf_create_map ops E nm md io (cx_maps ctx)) ctx)"
  by (auto simp: stays_def lift_maps_def intro!: core_same_upd(3) dest: create_map_clock)

lemma register_map_stays [simp]: "stays ctx (jbpf_codelet_register_map ops codelet mp ctx)"
  by (auto simp: stays_def jbpf_codelet_register_map_def split_def Let_def intro: core_same_upd(1) split: bind_splits)

lemma deregister_map_stays [simp]: "stays_ctx ctx (jbpf_codelet_deregister_map ops codelet mp ctx)"
  by (auto simp: stays_ctx_def jbpf_codelet_deregister_map_def Let_def intro: core_same_upd(1) split: bind_splits)

lemma relocation_error_stays [simp]: "stays_ctx ctx (set_relocation_error codelet ctx)"
  by (auto simp: stays_ctx_def set_relocation_error_def intro: core_same_upd(1) split: bind_splits)

lemma destroy_map_same:
  "jbpf_destroy_map ops p (cx_maps ctx) = Some ms \<Longrightarrow> core_same ctx (ctx\<lparr>cx_maps := ms\<rparr>)"
  "jbpf_release_map ops x (cx_maps ctx) = Some ms \<Longrightarrow> core_same ctx (ctx\<lparr>cx_maps := ms\<rparr>)"
  by (auto intro!: core_same_upd(3) dest: destroy_map_clock release_map_clock)

lemma relocation_error_then [simp]: "stays ctx (Option.bind (set_relocation_error codelet ctx) (\<lambda>ctx. Some (x, ctx)))"
  by (rule stays_bind_ctx) simp_all

lemma reloc_own_stays [simp]: "stays ctx (reloc_own_map ops env codelet desc obj_files rl ctx)"
  unfolding reloc_own_map_def Let_def
proof (rule stays_bind, goal_cases)
  case 1
  show ?case by (simp split: option.split)
next
  case (2 mp ctx)
  have "stays ctx (do {
            (result, ctx) \<leftarrow> jbpf_codelet_register_map ops codelet p ctx;
            if result = - 1 then do {
              ms \<leftarrow> jbpf_destroy_map ops p (cx_maps ctx);
              ctx \<leftarrow> set_relocation_error codelet (ctx\<lparr>cx_maps := ms\<rparr>);
              Some (None, ctx)
            }
            else Some (Some p, ctx)
          })" for p
    by (rule stays_bind) (auto intro!: stays_read stays_from(1) [OF destroy_map_same(1) relocation_error_then])
  then show ?case by (simp split: option.split)
qed

lemma reloc_first_stays [simp]: "stays ctx (reloc_first_link ops env codelet lm rl ctx)"
  unfolding reloc_first_link_def
proof (rule stays_bind, goal_cases)
  case 1
  show ?case by simp
next
  case (2 mp ctx)
  have tail: "stays ctx (do {
          (result, ctx) \<leftarrow> jbpf_codelet_register_map ops codelet p ctx;
          if result = - 1 then do {
            ms \<leftarrow> jbpf_release_map ops (Some p) (cx_maps ctx);
            ctx \<leftarrow> set_relocation_error codelet (ctx\<lparr>cx_maps := ms\<rparr>);
            Some (None, ctx)
          }
          else Some (Some p, ctx)
        })" for p ctx
    by (rule stays_bind) (auto intro!: stays_read stays_from(1) [OF destroy_map_same(2) relocation_error_then])
  then show ?case
    by (auto simp: Let_def split: option.split intro!: stays_read stays_from(1) [OF core_same_upd(4) tail])
qed

lemma reloc_next_stays [simp]: "stays ctx (reloc_next_link ops env codelet y rl ctx)"
proof -
  have "stays c (do { (result, ctx) \<leftarrow> jbpf_codelet_register_map ops codelet p c;
      if result = - 1 then do { ctx \<leftarrow> set_relocation_error codelet ctx; Some (None, ctx) } else Some (Some p, ctx) })" for c p
    by (rule stays_bind) auto
  note tail = stays_from(1) [OF core_same_upd(3) this]
  have "stays ctx (let (p, ctx) = mem_alloc env ctx in do {
             mp \<leftarrow> p;
             let ctx = ctx\<lparr>cx_maps := (cx_maps ctx)\<lparr>map_mem := (map_mem (cx_maps ctx))(mp \<mapsto> m)\<rparr>\<rparr>;
             (result, ctx) \<leftarrow> jbpf_codelet_register_map ops codelet mp ctx;
             if result = - 1 then do { ctx \<leftarrow> set_relocation_error codelet ctx; Some (None, ctx) }
             else Some (Some mp, ctx)
           })" for m
  proof -
    obtain a c where a: "mem_alloc env ctx = (a, c)" by fastforce
    have "core_same ctx c" using mem_alloc_spec [OF a] by blast
    then show ?thesis unfolding a by (cases a) (simp_all add: stays_from(1) [OF _ tail])
  qed
  then show ?thesis unfolding reloc_next_link_def
    by (intro stays_read) (simp add: Let_def)
qed

lemma relocation_stays [simp]: "stays ctx (jbpf_do_map_relocation ops env codelet desc obj_files rl ctx)"
proof -
  have "stays ctx (case mp of
             None \<Rightarrow> Some (None, ctx)
           | Some mp \<Rightarrow> do {
               x \<leftarrow> linked_mem ctx lm;
               Some (Some mp, ctx\<lparr>linked_mem := (linked_mem ctx)(lm \<mapsto> x\<lparr>lm_ref_count := lm_ref_count x + 1\<rparr>)\<rparr>)
             })" for ctx :: "('a, 'b) jbpf_ctx" and mp lm
    by (auto split: option.split intro!: stays_read core_same_upd(4))
  note link = stays_bind [OF _ this]
  have "stays ctx (do {
      (mp, ctx) \<leftarrow> (if lm_ref_count x = 0 then reloc_first_link ops env codelet lm rl ctx
         else reloc_next_link ops env codelet x rl ctx);
      (case mp of
         None \<Rightarrow> Some (None, ctx)
       | Some mp \<Rightarrow> do {
           x \<leftarrow> linked_mem ctx lm;
           Some (Some mp, ctx\<lparr>linked_mem := (linked_mem ctx)(lm \<mapsto> x\<lparr>lm_ref_count := lm_ref_count x + 1\<rparr>)\<rparr>)
         }) })" for x lm
    by (rule link) simp
  note link = stays_read(1) [OF this]
  show ?thesis
    unfolding jbpf_do_map_relocation_def
    by (simp add: stays_read(1) link split: option.split)
qed

lemma relocations_stays [simp]: "stays_ctx ctx (do_relocations ops env codelet desc obj_files rls ctx)"
  by (induction rls arbitrary: ctx) (auto intro!: stays_ctx_bind)

lemma destroy_codelet_map_stays [simp]: "stays_ctx ctx (destroy_codelet_map ops codelet mp ctx)"
  unfolding destroy_codelet_map_def
proof (rule stays_ctx_bind_ctx [OF deregister_map_stays], intro stays_read, goal_cases)
  case (1 ctx c m st)
  obtain r table where rt: "ck_ht_remove (ops_ht ops) (s_linked_map_entries st) (map_alias (c_name c) (m_name m)) = (r, table)"
    by fastforce
  let ?c = "ctx\<lparr>set_mem := (set_mem ctx)(c_codeletset c \<mapsto> st\<lparr>s_linked_map_entries := table\<rparr>)\<rparr>"
  have s: "core_same ctx ?c" by (rule core_same_upd(2) [OF 1(3)]) simp
  show ?case unfolding rt Let_def prod.case
    by (rule stays_from(2) [OF s]) (auto simp: core_same_def split: option.split intro!: stays_read(2) dest!: release_map_clock)
qed

lemma destroy_maps_stays [simp]: "stays_ctx ctx (destroy_maps ops codelet mps ctx)"
  by (induction mps arbitrary: ctx) (auto intro!: stays_ctx_bind_ctx)

lemma destroy_codelet_maps_stays [simp]: "stays_ctx ctx (jbpf_destroy_codelet_maps ops codelet ctx)"
  by (auto simp: jbpf_destroy_codelet_maps_def Let_def intro!: stays_read)

end
