(* ===== verification/Lifecycle.thy ===== *)
theory Lifecycle
  imports Codeletset
begin

text \<open>
  What the steps of loading and unloading do to the hooks and to the codelets in memory: the chains of the
  hooks under the loads and unloads of single codelets, the part of the state that belongs to a codelet
  set, and what the creation and the destruction of codelets leave alone.
\<close>

section \<open>The chains of the hooks\<close>

definition hooks_ok :: "jbpf_hook list \<Rightarrow> bool" where
  "hooks_ok hs \<longleftrightarrow> list_all hook_wf hs \<and> distinct (map (\<lambda>h. c_string (name h)) hs)"

definition chain_of :: "jbpf_hook list \<Rightarrow> bytes \<Rightarrow> hook_codelet list" where
  "chain_of hs n = (case find (\<lambda>h. c_string (name h) = n) hs of None \<Rightarrow> [] | Some h \<Rightarrow> hook_chain h)"

abbreviation fns :: "hook_codelet list \<Rightarrow> jit_fn set" where
  "fns cs \<equiv> jbpf_codelet ` set cs"

definition hook_entry :: "'h jbpf_codelet \<Rightarrow> nat \<Rightarrow> hook_codelet" where
  "hook_entry c p = \<lparr> jbpf_codelet = Suc p, prio = c_priority c, time_thresh = c_e_runtime_threshold c \<rparr>"

lemma jbpf_codelet_entry [simp]: "jbpf_codelet (hook_entry c p) = Suc p"
  by (simp add: hook_entry_def)

lemma hook_entry_same: "codelet_same c c' \<Longrightarrow> hook_entry c' p = hook_entry c p"
  by (simp add: hook_entry_def codelet_same_def)

lemma on_hookE:
  assumes "on_hook n f hs = Some (r, hs')"
  obtains (none) "r = - 1" "hs' = hs" "n \<notin> (\<lambda>h. c_string (name h)) ` set hs"
  | (hook) xs h ys h' where "hs = xs @ h # ys" "c_string (name h) = n" "n \<notin> (\<lambda>h. c_string (name h)) ` set xs"
      "f h = Some (r, h')" "hs' = xs @ h' # ys"
proof -
  have "r = - 1 \<and> hs' = hs \<and> n \<notin> (\<lambda>h. c_string (name h)) ` set hs
    \<or> (\<exists>xs h ys h'. hs = xs @ h # ys \<and> c_string (name h) = n \<and> n \<notin> (\<lambda>h. c_string (name h)) ` set xs
      \<and> f h = Some (r, h') \<and> hs' = xs @ h' # ys)"
    using assms
  proof (induction hs arbitrary: hs')
    case (Cons h hs)
    show ?case
    proof (cases "c_string (name h) = n")
      case True
      then obtain h' where "f h = Some (r, h')" "hs' = h' # hs" using Cons.prems by (auto split: bind_splits)
      then show ?thesis using True by (metis append_Nil empty_iff image_empty list.set(1))
    next
      case False
      then obtain hs2 where 2: "on_hook n f hs = Some (r, hs2)" "hs' = h # hs2" using Cons.prems by (auto split: bind_splits)
      from Cons.IH [OF 2(1)] show ?thesis
      proof (elim disjE exE conjE)
        fix xs h1 ys h' assume "hs = xs @ h1 # ys" "c_string (name h1) = n" "n \<notin> (\<lambda>h. c_string (name h)) ` set xs"
          "f h1 = Some (r, h')" "hs2 = xs @ h' # ys"
        then show ?thesis using 2(2) False
          by (intro disjI2 exI [of _ "h # xs"] exI [of _ h1] exI [of _ ys] exI [of _ h']) auto
      qed (use 2 False in auto)
    qed
  qed simp
  then show thesis using that by blast
qed

lemma find_append: "find P (xs @ ys) = (case find P xs of None \<Rightarrow> find P ys | Some x \<Rightarrow> Some x)"
  by (induction xs) auto

lemma chain_of_split:
  assumes "n \<notin> (\<lambda>h. c_string (name h)) ` set xs" "c_string (name h) = n" "name h' = name h"
  shows "chain_of (xs @ h # ys) n = hook_chain h" "chain_of (xs @ h' # ys) = (chain_of (xs @ h # ys))(n := hook_chain h')"
proof -
  have none: "find (\<lambda>h. c_string (name h) = n) xs = None" using assms(1) by (auto simp: find_None_iff)
  then show "chain_of (xs @ h # ys) n = hook_chain h" using assms by (simp add: chain_of_def find_append)
  show "chain_of (xs @ h' # ys) = (chain_of (xs @ h # ys))(n := hook_chain h')"
    using none assms by (auto simp: fun_eq_iff chain_of_def find_append split: option.split)
qed

lemma register_name:
  "jbpf_register_codelet_hook alloc_ok h f th p = Some (r, h') \<Longrightarrow> name h' = name h"
  by (auto simp: jbpf_register_codelet_hook_def Let_def split: if_splits option.splits bind_splits)

lemma remove_name:
  "jbpf_remove_codelet_hook alloc_ok h f = Some (r, h') \<Longrightarrow> name h' = name h"
  by (auto simp: jbpf_remove_codelet_hook_def Let_def split: if_splits option.splits bind_splits)

lemma hooks_ok_split:
  "hooks_ok (xs @ h # ys) \<Longrightarrow> hook_wf h' \<Longrightarrow> name h' = name h \<Longrightarrow> hooks_ok (xs @ h' # ys)"
  by (simp add: hooks_ok_def)

lemma on_hook_register:
  assumes ok: "hooks_ok hs"
    and r: "on_hook n (\<lambda>h. jbpf_register_codelet_hook a h f th p) hs = Some (r, hs')"
  shows "hooks_ok hs' \<and> map name hs' = map name hs \<and>
    (r = 0 \<and> f \<noteq> 0 \<and> f \<notin> fns (chain_of hs n)
      \<and> chain_of hs' = (chain_of hs)(n := insert_prio \<lparr> jbpf_codelet = f, prio = p, time_thresh = th \<rparr> (chain_of hs n))
    \<or> r = - 1 \<and> hs' = hs)"
  using r
proof (cases rule: on_hookE)
  case none
  then show ?thesis using ok by simp
next
  case (hook xs h ys h')
  then have wf: "hook_wf h" using ok by (simp add: hooks_ok_def)
  have nm: "name h' = name h" using register_name [OF hook(4)] .
  note split = chain_of_split [OF hook(3,2) nm, of ys]
  obtain r1 h1 where 1: "jbpf_register_codelet_hook a h f th p = Some (r1, h1)" "hook_wf h1" "r1 = 0 \<or> r1 = - 1 \<and> h1 = h"
    "f \<in> fns (hook_chain h) \<Longrightarrow> r1 = - 1" "f = 0 \<Longrightarrow> r1 = - 1"
    "r1 = 0 \<Longrightarrow> hook_chain h1 = insert_prio \<lparr> jbpf_codelet = f, prio = p, time_thresh = th \<rparr> (hook_chain h)"
    by (rule hk.register_total [OF wf, where f = f and p = p and th = th and a = a]) blast
  have eq: "r1 = r" "h1 = h'" using 1(1) hook(4) by simp_all
  have "hooks_ok hs'" using hooks_ok_split [of xs h ys h'] ok hook 1(2) eq nm by simp
  moreover have "map name hs' = map name hs" using hook nm by simp
  ultimately show ?thesis
  proof (cases "r = 0")
    case True
    then show ?thesis using 1 eq hook split \<open>hooks_ok hs'\<close> \<open>map name hs' = map name hs\<close> by force
  next
    case False
    then show ?thesis using 1 eq hook \<open>hooks_ok hs'\<close> by simp
  qed
qed

lemma on_hook_remove:
  assumes ok: "hooks_ok hs" and a: "\<And>n. a n"
    and r: "on_hook n (\<lambda>h. jbpf_remove_codelet_hook a h f) hs = Some (r, hs')"
  shows "hooks_ok hs' \<and> map name hs' = map name hs
    \<and> chain_of hs' = (chain_of hs)(n := filter (\<lambda>e. jbpf_codelet e \<noteq> f) (chain_of hs n))"
  using r
proof (cases rule: on_hookE)
  case none
  then have "find (\<lambda>h. c_string (name h) = n) hs = None" by (auto simp: find_None_iff)
  then have "chain_of hs n = []" by (simp add: chain_of_def)
  then show ?thesis using none ok by (simp add: fun_upd_idem)
next
  case (hook xs h ys h')
  then have wf: "hook_wf h" using ok by (simp add: hooks_ok_def)
  have nm: "name h' = name h" using remove_name [OF hook(4)] .
  note split = chain_of_split [OF hook(3,2) nm, of ys]
  have "hook_wf h' \<and> hook_chain h' = filter (\<lambda>e. jbpf_codelet e \<noteq> f) (hook_chain h)"
  proof (cases "f \<in> fns (hook_chain h)")
    case False
    then have "h' = h" using remove_result [OF wf, of a f] hook(4) by simp
    moreover have "filter (\<lambda>e. jbpf_codelet e \<noteq> f) (hook_chain h) = hook_chain h"
      using False by (auto simp: filter_id_conv)
    ultimately show ?thesis using wf by simp
  next
    case True
    then show ?thesis using remove_result [OF wf, of a f] hook(4) a remove_wf [OF wf, of "\<lambda>e. jbpf_codelet e \<noteq> f"]
      by (auto split: if_splits)
  qed
  then show ?thesis using hook nm split ok hooks_ok_split [of xs h ys h'] by simp
qed

section \<open>What belongs to a codelet set\<close>

abbreviation hook_chains :: "('h, 'r) jbpf_ctx \<Rightarrow> bytes \<Rightarrow> hook_codelet list" where
  "hook_chains ctx \<equiv> chain_of (hook_list ctx)"

text \<open>Everything but the codelets at the addresses \<open>N\<close> and the sets at the addresses \<open>M\<close> is the same.\<close>

definition others_same :: "nat set \<Rightarrow> nat set \<Rightarrow> ('h, 'r) jbpf_ctx \<Rightarrow> ('h, 'r) jbpf_ctx \<Rightarrow> bool" where
  "others_same N M ctx ctx' \<longleftrightarrow> map name (hook_list ctx') = map name (hook_list ctx)
    \<and> codeletset_registry ctx' = codeletset_registry ctx \<and> clock (cx_maps ctx) \<le> clock (cx_maps ctx')
    \<and> (\<forall>n. filter (\<lambda>e. jbpf_codelet e \<notin> Suc ` N) (hook_chains ctx' n) = filter (\<lambda>e. jbpf_codelet e \<notin> Suc ` N) (hook_chains ctx n))
    \<and> (\<forall>p. p \<notin> N \<longrightarrow> rel_option codelet_same (codelet_mem ctx p) (codelet_mem ctx' p))
    \<and> (\<forall>p. p \<notin> M \<longrightarrow> rel_option set_same (set_mem ctx p) (set_mem ctx' p))"

definition fresh_above :: "('h, 'r) jbpf_ctx \<Rightarrow> bool" where
  "fresh_above ctx \<longleftrightarrow> (\<forall>p \<ge> clock (cx_maps ctx). codelet_mem ctx p = None \<and> set_mem ctx p = None)"

text \<open>Of the addresses in \<open>N\<close> only loaded codelets in \<open>P\<close> are on hooks, each on its own one; and those that are loaded
  are there.\<close>

definition placed :: "nat set \<Rightarrow> nat set \<Rightarrow> ('h, 'r) jbpf_ctx \<Rightarrow> bool" where
  "placed N P ctx \<longleftrightarrow>
    (\<forall>n e. e \<in> set (hook_chains ctx n) \<longrightarrow> jbpf_codelet e \<in> Suc ` N \<longrightarrow>
      (\<exists>p\<in>P. \<exists>c. codelet_mem ctx p = Some c \<and> c_loaded c \<and> c_hook_name c = n \<and> e = hook_entry c p))
    \<and> (\<forall>p\<in>P. \<forall>c. codelet_mem ctx p = Some c \<longrightarrow> c_loaded c \<longrightarrow> hook_entry c p \<in> set (hook_chains ctx (c_hook_name c)))"

definition compiled :: "nat set \<Rightarrow> ('h, 'r) jbpf_ctx \<Rightarrow> bool" where
  "compiled P ctx \<longleftrightarrow> (\<forall>p\<in>P. \<exists>c. codelet_mem ctx p = Some c \<and> c_codelet_fn c = Suc p)"

definition sound :: "nat set \<Rightarrow> nat set \<Rightarrow> ('h, 'r) jbpf_ctx \<Rightarrow> bool" where
  "sound N P ctx \<longleftrightarrow> hooks_ok (hook_list ctx) \<and> fresh_above ctx \<and> placed N P ctx \<and> compiled P ctx"

lemma placedD:
  "sound N P ctx \<Longrightarrow> e \<in> set (hook_chains ctx n) \<Longrightarrow> jbpf_codelet e \<in> Suc ` N \<Longrightarrow>
    \<exists>p\<in>P. \<exists>c. codelet_mem ctx p = Some c \<and> c_loaded c \<and> c_hook_name c = n \<and> e = hook_entry c p"
  "sound N P ctx \<Longrightarrow> p \<in> P \<Longrightarrow> codelet_mem ctx p = Some c \<Longrightarrow> c_loaded c \<Longrightarrow> hook_entry c p \<in> set (hook_chains ctx (c_hook_name c))"
  by (simp_all add: sound_def placed_def)

lemma stays_ctxD: "stays_ctx ctx m \<Longrightarrow> m = Some ctx' \<Longrightarrow> core_same ctx ctx'"
  by (simp add: stays_ctx_def)

lemma rel_codelet_trans:
  "rel_option codelet_same x y \<Longrightarrow> rel_option codelet_same y z \<Longrightarrow> rel_option codelet_same x z"
  by (cases x; cases y; cases z) (auto simp: codelet_same_def)

lemma rel_set_trans:
  "rel_option set_same x y \<Longrightarrow> rel_option set_same y z \<Longrightarrow> rel_option set_same x z"
  by (cases x; cases y; cases z) (auto simp: set_same_def)

lemma others_same_refl [simp]: "others_same N M ctx ctx"
  by (simp add: others_same_def)

lemma others_same_trans [trans]:
  "others_same N M a b \<Longrightarrow> others_same N M b c \<Longrightarrow> others_same N M a c"
  by (auto simp: others_same_def intro: rel_codelet_trans rel_set_trans)

lemma core_same_others: "core_same a b \<Longrightarrow> others_same N M a b"
  by (simp add: core_same_def others_same_def)

lemma core_same_codelet:
  "core_same a b \<Longrightarrow> codelet_mem a p = Some c \<Longrightarrow> \<exists>c'. codelet_mem b p = Some c' \<and> codelet_same c c'"
  "core_same a b \<Longrightarrow> codelet_mem b p = Some c' \<Longrightarrow> \<exists>c. codelet_mem a p = Some c \<and> codelet_same c c'"
  "core_same a b \<Longrightarrow> set_mem a q = Some s \<Longrightarrow> \<exists>s'. set_mem b q = Some s' \<and> set_same s s'"
  by (metis core_same_def option_rel_Some1, metis core_same_def option_rel_Some2, metis core_same_def option_rel_Some1)

lemma core_same_sound:
  assumes s: "core_same a b" and a: "sound N P a"
  shows "sound N P b"
proof -
  have h: "hook_list b = hook_list a" and cl: "clock (cx_maps a) \<le> clock (cx_maps b)" using s by (auto simp: core_same_def)
  have "fresh_above b"
  proof -
    have "codelet_mem b p = None \<and> set_mem b p = None" if "p \<ge> clock (cx_maps b)" for p
    proof -
      have "codelet_mem a p = None" "set_mem a p = None" using that cl a by (auto simp: sound_def fresh_above_def)
      then show ?thesis using s by (metis core_same_def rel_option_None1)
    qed
    then show ?thesis by (simp add: fresh_above_def)
  qed
  moreover have "placed N P b"
    unfolding placed_def h
  proof (intro conjI allI impI ballI, goal_cases)
    case (1 n e)
    then obtain p c where pc: "p \<in> P" "codelet_mem a p = Some c" "c_loaded c" "c_hook_name c = n" "e = hook_entry c p"
      using placedD(1) [OF a] by blast
    obtain c' where "codelet_mem b p = Some c'" "codelet_same c c'" using core_same_codelet(1) [OF s pc(2)] by blast
    then show ?case using pc hook_entry_same [of c c' p] by (intro bexI [of _ p] exI [of _ c']) (auto simp: codelet_same_def)
  next
    case (2 p c')
    obtain c where "codelet_mem a p = Some c" "codelet_same c c'" using core_same_codelet(2) [OF s 2(2)] by blast
    then show ?case using 2 placedD(2) [OF a, of p c] hook_entry_same [of c c' p] by (auto simp: codelet_same_def)
  qed
  moreover have "compiled P b"
    using a core_same_codelet(1) [OF s] by (fastforce simp: sound_def compiled_def codelet_same_def)
  ultimately show ?thesis using a h by (simp add: sound_def)
qed

subsection \<open>Loading the codelets of a set on their hooks\<close>

definition loaded_more :: "('h, 'r) jbpf_ctx \<Rightarrow> ('h, 'r) jbpf_ctx \<Rightarrow> bool" where
  "loaded_more ctx ctx' \<longleftrightarrow> set_mem ctx' = set_mem ctx \<and> total_num_codelets ctx' = total_num_codelets ctx
    \<and> linked_mem ctx' = linked_mem ctx \<and> cx_maps ctx' = cx_maps ctx
    \<and> (\<forall>p. codelet_mem ctx' p = codelet_mem ctx p \<or>
        (\<exists>c. codelet_mem ctx p = Some c \<and> codelet_mem ctx' p = Some (c\<lparr>c_loaded := True\<rparr>)))"

lemma loaded_more_trans: "loaded_more a b \<Longrightarrow> loaded_more b c \<Longrightarrow> loaded_more a c"
  unfolding loaded_more_def
proof (elim conjE, intro conjI allI, goal_cases)
  case (5 p)
  then show ?case by (elim allE [of _ p] disjE exE conjE) auto
qed auto

lemma load_codelet_step:
  assumes I: "sound N P ctx" and p: "p \<in> P" "P \<subseteq> N"
    and l: "jbpf_load_codelet env p ctx = Some (r, ctx')"
  shows "sound N P ctx' \<and> others_same N M ctx ctx' \<and> loaded_more ctx ctx'
    \<and> (r = 0 \<longrightarrow> (\<exists>c. codelet_mem ctx' p = Some c \<and> c_loaded c))"
proof -
  obtain c where c: "codelet_mem ctx p = Some c" "c_codelet_fn c = Suc p" using I p by (auto simp: sound_def compiled_def)
  obtain hs where hs: "on_hook (c_hook_name c) (\<lambda>h. jbpf_register_codelet_hook (ce_hook_mem env) h (Suc p)
       (c_e_runtime_threshold c) (c_priority c)) (hook_list ctx) = Some (r, hs)"
    and ctx': "ctx' = (if r = 0 then ctx\<lparr>hook_list := hs, codelet_mem := (codelet_mem ctx)(p \<mapsto> c\<lparr>c_loaded := True\<rparr>)\<rparr>
      else ctx\<lparr>hook_list := hs\<rparr>)"
    using l c by (auto simp: jbpf_load_codelet_def Let_def split: bind_splits)
  have ok: "hooks_ok (hook_list ctx)" using I by (simp add: sound_def)
  from on_hook_register [OF ok hs] consider
    (ok) "r = 0" "Suc p \<notin> fns (hook_chains ctx (c_hook_name c))"
      "chain_of hs = (hook_chains ctx)(c_hook_name c := insert_prio (hook_entry c p) (hook_chains ctx (c_hook_name c)))"
      "hooks_ok hs" "map name hs = map name (hook_list ctx)"
  | (no) "r = - 1" "hs = hook_list ctx"
    by (auto simp: hook_entry_def)
  then show ?thesis
  proof cases
    case no
    then show ?thesis using I ctx' by (simp add: loaded_more_def)
  next
    case ok
    have nl: "\<not> c_loaded c" using placedD(2) [OF I p(1) c(1)] ok(2) by force
    have e: "hook_entry (c\<lparr>c_loaded := True\<rparr>) q = hook_entry c q" for q by (simp add: hook_entry_def)
    have "placed N P ctx'"
      unfolding placed_def
    proof (intro conjI allI impI ballI, goal_cases)
      case (1 n e)
      show ?case
      proof (cases "e = hook_entry c p \<and> n = c_hook_name c")
        case True
        then show ?thesis using p ctx' ok(1) by (auto simp: e hook_entry_def intro!: bexI [of _ p])
      next
        case False
        then have "e \<in> set (hook_chains ctx n)" using 1 ctx' ok by (auto split: if_splits)
        then obtain q d where "q \<in> P" "codelet_mem ctx q = Some d" "c_loaded d" "c_hook_name d = n" "e = hook_entry d q"
          using 1(2) placedD(1) [OF I] by blast
        then show ?thesis using c nl ctx' ok(1) by (intro bexI [of _ q] exI [of _ d]) auto
      qed
    next
      case (2 q d)
      show ?case
      proof (cases "q = p")
        case True
        then have "d = c\<lparr>c_loaded := True\<rparr>" using 2 ctx' ok(1) by simp
        then show ?thesis using True ctx' ok by (simp add: e)
      next
        case False
        then have "hook_entry d q \<in> set (hook_chains ctx (c_hook_name d))" using 2 ctx' ok(1) placedD(2) [OF I] by simp
        then show ?thesis using ctx' ok by auto
      qed
    qed
    moreover have "fresh_above ctx'" using I ctx' ok(1) c by (auto simp: sound_def fresh_above_def)
    moreover have "compiled P ctx'" using I ctx' ok(1) c by (auto simp: sound_def compiled_def)
    ultimately have "sound N P ctx'" using ctx' ok by (simp add: sound_def)
    moreover have "others_same N M ctx ctx'"
      using ctx' ok p by (auto simp: others_same_def filter_insert_prio)
    moreover have "loaded_more ctx ctx'" using ctx' ok(1) c by (simp add: loaded_more_def)
    ultimately show ?thesis using ctx' ok(1) by simp
  qed
qed

lemma loaded_more_loaded:
  "loaded_more a b \<Longrightarrow> codelet_mem a p = Some c \<Longrightarrow> c_loaded c \<Longrightarrow> \<exists>c'. codelet_mem b p = Some c' \<and> c_loaded c'"
  unfolding loaded_more_def by (elim conjE allE [of _ p] disjE exE) auto

lemma load_codelets_spec:
  assumes "load_codelets env ps ctx = Some (ok, ctx')" "sound N P ctx" "set ps \<subseteq> P" "P \<subseteq> N"
  shows "sound N P ctx' \<and> others_same N M ctx ctx' \<and> loaded_more ctx ctx'
    \<and> (ok \<longrightarrow> (\<forall>p\<in>set ps. \<exists>c. codelet_mem ctx' p = Some c \<and> c_loaded c))"
  using assms
proof (induction ps arbitrary: ctx)
  case Nil
  then show ?case by (simp add: loaded_more_def)
next
  case (Cons p ps)
  obtain r ctx1 where 1: "jbpf_load_codelet env p ctx = Some (r, ctx1)"
    and rest: "(if r = 0 then load_codelets env ps ctx1 else Some (False, ctx1)) = Some (ok, ctx')"
    using Cons.prems(1) by (auto split: bind_splits)
  have s1: "sound N P ctx1" "others_same N M ctx ctx1" "loaded_more ctx ctx1"
    "r = 0 \<Longrightarrow> \<exists>c. codelet_mem ctx1 p = Some c \<and> c_loaded c"
    using load_codelet_step [OF Cons.prems(2) _ Cons.prems(4) 1, of M] Cons.prems(3) by simp_all
  show ?case
  proof (cases "r = 0")
    case False
    then show ?thesis using rest s1 by simp
  next
    case True
    then have l: "load_codelets env ps ctx1 = Some (ok, ctx')" using rest by simp
    have ih: "sound N P ctx'" "others_same N M ctx1 ctx'" "loaded_more ctx1 ctx'"
      "ok \<Longrightarrow> \<forall>p\<in>set ps. \<exists>c. codelet_mem ctx' p = Some c \<and> c_loaded c"
      using Cons.IH [OF l s1(1) _ Cons.prems(4)] Cons.prems(3) by simp_all
    have "\<exists>c. codelet_mem ctx' p = Some c \<and> c_loaded c" using s1(4) [OF True] loaded_more_loaded [OF ih(3)] by blast
    then show ?thesis using ih s1 others_same_trans [OF s1(2) ih(2)] loaded_more_trans [OF s1(3) ih(3)] by simp
  qed
qed

subsection \<open>Taking codelets off their hooks\<close>

lemma unload_codelet_step:
  assumes I: "sound N P ctx" and p: "p \<in> P" "P \<subseteq> N" and mem: "\<And>n. ce_hook_mem env n"
    and u: "jbpf_unload_codelet env p ctx = Some (r, ctx')"
  shows "hooks_ok (hook_list ctx') \<and> map name (hook_list ctx') = map name (hook_list ctx)
    \<and> ctx' = ctx\<lparr>hook_list := hook_list ctx'\<rparr>
    \<and> (\<forall>n. hook_chains ctx' n = filter (\<lambda>e. jbpf_codelet e \<noteq> Suc p) (hook_chains ctx n))"
proof -
  obtain c where c: "codelet_mem ctx p = Some c" "c_codelet_fn c = Suc p" using I p by (auto simp: sound_def compiled_def)
  obtain hs where hs: "on_hook (c_hook_name c) (\<lambda>h. jbpf_remove_codelet_hook (ce_hook_mem env) h (Suc p)) (hook_list ctx) = Some (r, hs)"
    and ctx': "ctx' = ctx\<lparr>hook_list := hs\<rparr>"
    using u c by (auto simp: jbpf_unload_codelet_def split: bind_splits)
  have ok: "hooks_ok (hook_list ctx)" using I by (simp add: sound_def)
  note r = on_hook_remove [of "hook_list ctx" "ce_hook_mem env", OF ok mem hs]
  have "filter (\<lambda>e. jbpf_codelet e \<noteq> Suc p) (hook_chains ctx n) = hook_chains ctx n" if "n \<noteq> c_hook_name c" for n
  proof -
    have "jbpf_codelet e \<noteq> Suc p" if e: "e \<in> set (hook_chains ctx n)" for e
    proof
      assume f: "jbpf_codelet e = Suc p"
      then have "jbpf_codelet e \<in> Suc ` N" using p by blast
      from placedD(1) [OF I e this] f have "c_hook_name c = n" using c by auto
      then show False using \<open>n \<noteq> c_hook_name c\<close> by simp
    qed
    then show ?thesis by (simp add: filter_id_conv)
  qed
  then show ?thesis using r ctx' by auto
qed

lemma removed_sound:
  assumes I: "sound N P ctx" and p: "p \<in> P" "P \<subseteq> N"
    and h: "hooks_ok hs" "\<And>n. chain_of hs n = filter (\<lambda>e. jbpf_codelet e \<noteq> Suc p) (hook_chains ctx n)"
  shows "sound N (P - {p}) (ctx\<lparr>hook_list := hs\<rparr>)"
proof -
  have "placed N (P - {p}) (ctx\<lparr>hook_list := hs\<rparr>)"
    unfolding placed_def
  proof (intro conjI allI impI ballI, goal_cases)
    case (1 n e)
    then have e: "e \<in> set (hook_chains ctx n)" "jbpf_codelet e \<noteq> Suc p" by (simp_all add: h(2))
    from placedD(1) [OF I e(1) 1(2)] obtain q c where "q \<in> P" "codelet_mem ctx q = Some c" "c_loaded c" "c_hook_name c = n" "e = hook_entry c q"
      by blast
    then show ?case using e(2) by (intro bexI [of _ q] exI [of _ c]) auto
  next
    case (2 q c)
    then show ?case using placedD(2) [OF I, of q c] by (simp add: h(2))
  qed
  then show ?thesis using I h(1) by (auto simp: sound_def fresh_above_def compiled_def)
qed

lemma removed_others:
  assumes p: "p \<in> N" and h: "\<And>n. chain_of hs n = filter (\<lambda>e. jbpf_codelet e \<noteq> Suc p) (hook_chains ctx n)"
    "map name hs = map name (hook_list ctx)"
  shows "others_same N M ctx (ctx\<lparr>hook_list := hs\<rparr>)"
proof -
  have "filter (\<lambda>e. jbpf_codelet e \<notin> Suc ` N) (filter (\<lambda>e. jbpf_codelet e \<noteq> Suc p) xs) = filter (\<lambda>e. jbpf_codelet e \<notin> Suc ` N) xs" for xs :: "hook_codelet list"
    using p by (induction xs) auto
  then show ?thesis using h by (simp add: others_same_def)
qed

lemma codelet_upd_frame:
  assumes "sound N P ctx" "p \<notin> P" "p \<in> N" "v = None \<or> p < clock (cx_maps ctx)"
  shows "sound N P (ctx\<lparr>codelet_mem := (codelet_mem ctx)(p := v)\<rparr>) \<and> others_same N M ctx (ctx\<lparr>codelet_mem := (codelet_mem ctx)(p := v)\<rparr>)"
proof -
  let ?ctx = "ctx\<lparr>codelet_mem := (codelet_mem ctx)(p := v)\<rparr>"
  have "placed N P ?ctx"
    unfolding placed_def
  proof (intro conjI allI impI ballI, goal_cases)
    case (1 n e)
    then have "e \<in> set (hook_chains ctx n)" by simp
    from placedD(1) [OF assms(1) this 1(2)] obtain q c where "q \<in> P" "codelet_mem ctx q = Some c" "c_loaded c" "c_hook_name c = n" "e = hook_entry c q"
      by blast
    then show ?case using assms(2) by (intro bexI [of _ q] exI [of _ c]) auto
  next
    case (2 q c)
    then show ?case using placedD(2) [OF assms(1), of q c] assms(2) by (auto split: if_splits)
  qed
  moreover have "compiled P ?ctx" using assms by (auto simp: sound_def compiled_def)
  moreover have "fresh_above ?ctx" using assms(1,4) by (auto simp: sound_def fresh_above_def)
  ultimately show ?thesis using assms by (simp add: sound_def others_same_def)
qed

text \<open>A codelet that is not on a hook any more is destroyed.\<close>

lemma destroy_codelet_step:
  assumes I: "sound N P ctx" and p: "p \<notin> P" "p \<in> N" and d: "jbpf_destroy_codelet ops p ctx = Some ctx'"
  shows "sound N P ctx' \<and> others_same N M ctx ctx' \<and> codelet_mem ctx' p = None
    \<and> total_num_codelets ctx' = total_num_codelets ctx \<and> (\<forall>q. q \<noteq> p \<longrightarrow> rel_option codelet_same (codelet_mem ctx q) (codelet_mem ctx' q))
    \<and> (\<forall>q. rel_option set_same (set_mem ctx q) (set_mem ctx' q))"
proof -
  obtain ctx1 where 1: "jbpf_destroy_codelet_maps ops p ctx = Some ctx1" "ctx' = free_codelet p ctx1"
    using d by (auto simp: jbpf_destroy_codelet_def split: bind_splits)
  have s: "core_same ctx ctx1" by (rule stays_ctxD [OF destroy_codelet_maps_stays 1(1)])
  have I1: "sound N P ctx1" by (rule core_same_sound [OF s I])
  show ?thesis
    using codelet_upd_frame [OF I1 p, of None M] others_same_trans [OF core_same_others [OF s], of N M ctx'] s 1(2)
    by (auto simp: free_codelet_def core_same_def)
qed

definition num_loaded :: "nat list \<Rightarrow> ('h, 'r) jbpf_ctx \<Rightarrow> int" where
  "num_loaded ps ctx = int (length (filter (\<lambda>p. \<exists>c. codelet_mem ctx p = Some c \<and> c_loaded c) ps))"

lemma num_loaded_cong:
  assumes "\<And>q. q \<in> set ps \<Longrightarrow> rel_option codelet_same (codelet_mem a q) (codelet_mem b q)"
  shows "num_loaded ps a = num_loaded ps b"
proof -
  have "(\<exists>c. codelet_mem a p = Some c \<and> c_loaded c) \<longleftrightarrow> (\<exists>c. codelet_mem b p = Some c \<and> c_loaded c)" if "p \<in> set ps" for p
    using assms [OF that] by (cases "codelet_mem a p"; cases "codelet_mem b p") (auto simp: codelet_same_def)
  then show ?thesis by (simp add: num_loaded_def cong: filter_cong)
qed

lemma undo_codelets_spec:
  assumes "undo_codelets ops env ps ctx = Some ctx'" "sound N (set ps) ctx" "set ps \<subseteq> N" "distinct ps"
    and mem: "\<And>n. ce_hook_mem env n"
  shows "sound N {} ctx' \<and> others_same N M ctx ctx' \<and> total_num_codelets ctx' = total_num_codelets ctx - num_loaded ps ctx
    \<and> (\<forall>p\<in>set ps. codelet_mem ctx' p = None) \<and> (\<forall>q. q \<notin> set ps \<longrightarrow> rel_option codelet_same (codelet_mem ctx q) (codelet_mem ctx' q))
    \<and> (\<forall>q. rel_option set_same (set_mem ctx q) (set_mem ctx' q))"
  using assms(1-4)
proof (induction ps arbitrary: ctx)
  case Nil
  then show ?case by (simp add: num_loaded_def)
next
  case (Cons p ps)
  let ?P = "set (p # ps)"
  have pN: "p \<in> ?P" "?P \<subseteq> N" using Cons.prems by auto
  obtain c where c: "codelet_mem ctx p = Some c" using Cons.prems(1) by (auto split: bind_splits)
  obtain ctx1 where 1: "(if c_loaded c then do {
         (_, ctx) \<leftarrow> jbpf_unload_codelet env p ctx;
         Some (ctx\<lparr>total_num_codelets := total_num_codelets ctx - 1\<rparr>)
       } else Some ctx) = Some ctx1"
    and rest: "Option.bind (jbpf_destroy_codelet ops p ctx1) (undo_codelets ops env ps) = Some ctx'"
    using Cons.prems(1) c by (auto simp: Option.bind_eq_Some_conv)
  have rem: "?P - {p} = set ps" using Cons.prems(4) by auto
  have cnt: "sound N P (x\<lparr>total_num_codelets := k\<rparr>) = sound N P x" "others_same N M y (x\<lparr>total_num_codelets := k\<rparr>) = others_same N M y x"
    for x y :: "('a, 'b) jbpf_ctx" and k P
    by (auto simp: sound_def placed_def compiled_def fresh_above_def others_same_def)
  have step: "sound N (set ps) ctx1 \<and> others_same N M ctx ctx1 \<and> codelet_mem ctx1 = codelet_mem ctx \<and> set_mem ctx1 = set_mem ctx
      \<and> total_num_codelets ctx1 = total_num_codelets ctx - (if c_loaded c then 1 else 0)"
  proof (cases "c_loaded c")
    case True
    then obtain r ctx0 where u: "jbpf_unload_codelet env p ctx = Some (r, ctx0)" "ctx1 = ctx0\<lparr>total_num_codelets := total_num_codelets ctx0 - 1\<rparr>"
      using 1 by (auto split: bind_splits)
    note st = unload_codelet_step [OF Cons.prems(2) pN mem u(1)]
    then obtain hs where hs: "ctx0 = ctx\<lparr>hook_list := hs\<rparr>" by metis
    have "sound N (set ps) ctx0" "others_same N M ctx ctx0"
      using removed_sound [OF Cons.prems(2) pN, of hs] removed_others [of p N hs ctx M] st pN rem hs by auto
    then show ?thesis using True u(2) hs by (simp add: cnt)
  next
    case False
    then have c1: "ctx1 = ctx" using 1 by simp
    have "placed N (set ps) ctx"
      unfolding placed_def
    proof (intro conjI allI impI ballI, goal_cases)
      case (1 n e)
      from placedD(1) [OF Cons.prems(2) 1] obtain q d where q: "q \<in> ?P" "codelet_mem ctx q = Some d" "c_loaded d" "c_hook_name d = n" "e = hook_entry d q"
        by blast
      then have "q \<noteq> p" using False c by auto
      then show ?case using q by (intro bexI [of _ q] exI [of _ d]) auto
    next
      case (2 q d)
      then show ?case using placedD(2) [OF Cons.prems(2), of q d] by simp
    qed
    then show ?thesis using c1 False Cons.prems(2) by (simp add: sound_def compiled_def)
  qed
  obtain ctx2 where d: "jbpf_destroy_codelet ops p ctx1 = Some ctx2" and u: "undo_codelets ops env ps ctx2 = Some ctx'"
    using rest by (auto simp: Option.bind_eq_Some_conv)
  note ds = destroy_codelet_step [where N = N and P = "set ps" and p = p and M = M, OF _ _ _ d]
  have s2: "sound N (set ps) ctx2" "others_same N M ctx1 ctx2" "codelet_mem ctx2 p = None" "total_num_codelets ctx2 = total_num_codelets ctx1"
    "\<forall>q. q \<noteq> p \<longrightarrow> rel_option codelet_same (codelet_mem ctx1 q) (codelet_mem ctx2 q)" "\<forall>q. rel_option set_same (set_mem ctx1 q) (set_mem ctx2 q)"
    using ds step Cons.prems(3,4) by simp_all
  note ih = Cons.IH [OF u s2(1)]
  have ih': "sound N {} ctx'" "others_same N M ctx2 ctx'" "total_num_codelets ctx' = total_num_codelets ctx2 - num_loaded ps ctx2"
    "\<forall>p\<in>set ps. codelet_mem ctx' p = None" "\<forall>q. q \<notin> set ps \<longrightarrow> rel_option codelet_same (codelet_mem ctx2 q) (codelet_mem ctx' q)"
    "\<forall>q. rel_option set_same (set_mem ctx2 q) (set_mem ctx' q)"
    using ih Cons.prems(3,4) by simp_all
  have n: "num_loaded ps ctx2 = num_loaded ps ctx"
    using s2(5) step Cons.prems(4) by (intro num_loaded_cong [symmetric]) auto
  have "codelet_mem ctx' p = None"
    using ih'(5) s2(3) Cons.prems(4) by (metis distinct.simps(2) rel_option_None1)
  moreover have "\<forall>q. q \<notin> ?P \<longrightarrow> rel_option codelet_same (codelet_mem ctx q) (codelet_mem ctx' q)"
    using s2(5) ih'(5) step by (auto intro: rel_codelet_trans)
  moreover have "\<forall>q. rel_option set_same (set_mem ctx q) (set_mem ctx' q)"
    using s2(6) ih'(6) step by (auto intro: rel_set_trans)
  moreover have "others_same N M ctx ctx'"
    using others_same_trans [OF others_same_trans [OF _ s2(2)] ih'(2)] step by blast
  moreover have "total_num_codelets ctx' = total_num_codelets ctx - num_loaded (p # ps) ctx"
    using ih'(3) s2(4) step n c by (auto simp: num_loaded_def)
  ultimately show ?case using ih'(1,4) by simp
qed

section \<open>Creating the codelets of a set\<close>

definition created :: "'h jbpf_codelet \<Rightarrow> nat \<Rightarrow> nat \<Rightarrow> jbpf_codelet_descriptor \<Rightarrow> bool" where
  "created c p S d \<longleftrightarrow> c_codelet_fn c = Suc p \<and> c_codeletset c = S
    \<and> c_name c = take (JBPF_CODELET_NAME_LEN - 1) (d_codelet_name d) \<and> c_hook_name c = take (JBPF_HOOK_NAME_LEN - 1) (d_hook_name d)
    \<and> c_priority c = d_priority d \<and> c_e_runtime_threshold c = d_runtime_threshold d"

lemma created_same: "created c p S d \<Longrightarrow> codelet_same c c' \<Longrightarrow> created c' p S d"
  by (simp add: created_def codelet_same_def)

text \<open>The frame of a step that makes a codelet at the next address, or none.\<close>

definition makes :: "('h, 'r) jbpf_ctx \<Rightarrow> ('h, 'r) jbpf_ctx \<Rightarrow> bool" where
  "makes ctx ctx' \<longleftrightarrow> hook_list ctx' = hook_list ctx \<and> total_num_codelets ctx' = total_num_codelets ctx
    \<and> codeletset_registry ctx' = codeletset_registry ctx \<and> clock (cx_maps ctx) \<le> clock (cx_maps ctx')
    \<and> (\<forall>q. q \<noteq> clock (cx_maps ctx) \<longrightarrow> rel_option codelet_same (codelet_mem ctx q) (codelet_mem ctx' q))
    \<and> (\<forall>q. rel_option set_same (set_mem ctx q) (set_mem ctx' q))"

lemma makes_refl [simp]: "makes ctx ctx"
  by (simp add: makes_def)

lemma core_same_makes: "core_same ctx ctx' \<Longrightarrow> makes ctx ctx'"
  by (simp add: core_same_def makes_def)

lemma makes_others: "makes ctx ctx' \<Longrightarrow> clock (cx_maps ctx) \<in> N \<Longrightarrow> others_same N M ctx ctx'"
  unfolding makes_def others_same_def by (metis (no_types, lifting))

lemma create_codelet_step:
  assumes I: "sound N P ctx" and k: "clock (cx_maps ctx) \<in> N"
    and r: "jbpf_create_codelet ops env S desc obj_files ctx = Some (x, ctx')"
  shows "sound N P ctx' \<and> makes ctx ctx'
    \<and> (\<forall>p. x = Some p \<longrightarrow> p = clock (cx_maps ctx) \<and> p < clock (cx_maps ctx')
        \<and> (\<exists>c. codelet_mem ctx' p = Some c \<and> created c p S desc \<and> \<not> c_loaded c))"
proof -
  let ?k = "clock (cx_maps ctx)"
  obtain a ctx0 where a: "mem_alloc env ctx = (a, ctx0)" by fastforce
  note al = mem_alloc_spec [OF a]
  have I0: "sound N P ctx0" using core_same_sound al I by blast
  have kP: "?k \<notin> P" using I by (auto simp: sound_def compiled_def fresh_above_def)
  have out: "sound N P ctx0 \<and> makes ctx ctx0" using I0 al core_same_makes by blast
  show ?thesis
  proof (cases "x = None \<and> ctx' = ctx0")
    case True
    then show ?thesis using out by simp
  next
    case False
    then obtain h where ah: "a = Some ?k" "ck_ht_init (ops_ht ops) JBPF_MAX_CODELET_MAPS = Some h" "ce_vm env ?k"
      using r al a unfolding jbpf_create_codelet_def Let_def by (auto split: option.splits if_splits)
    define c where "c = \<lparr> c_codelet_fn = 0, c_maps = h, c_name = take (JBPF_CODELET_NAME_LEN - 1) (d_codelet_name desc),
                    c_hook_name = take (JBPF_HOOK_NAME_LEN - 1) (d_hook_name desc), c_priority = d_priority desc,
                    c_e_runtime_threshold = d_runtime_threshold desc, c_codeletset = S, c_loaded = False,
                    c_relocation_error = False \<rparr>"
    let ?ctx1 = "ctx0\<lparr>codelet_mem := (codelet_mem ctx0)(?k \<mapsto> c)\<rparr>"
    obtain ctx2 c2 where 2: "do_relocations ops env ?k desc obj_files (ce_relocs env (of_codelet_obj obj_files)) ?ctx1 = Some ctx2"
        "codelet_mem ctx2 ?k = Some c2"
      and fin: "(if \<not> ce_load env (of_codelet_obj obj_files) \<or> c_relocation_error c2 \<or> \<not> ce_compile env (of_codelet_obj obj_files) then do {
                  ctx \<leftarrow> jbpf_destroy_codelet_maps ops ?k ctx2;
                  Some (None, free_codelet ?k ctx)
                }
                else Some (Some ?k, ctx2\<lparr>codelet_mem := (codelet_mem ctx2)(?k \<mapsto> c2\<lparr>c_codelet_fn := Suc ?k\<rparr>)\<rparr>)) = Some (x, ctx')"
      using r a ah unfolding jbpf_create_codelet_def Let_def c_def by (auto simp: Option.bind_eq_Some_conv)
    have I1: "sound N P ?ctx1" using codelet_upd_frame [OF I0 kP k] al by simp
    have m1: "makes ctx ?ctx1" using out by (simp add: makes_def)
    have s2: "core_same ?ctx1 ctx2" by (rule stays_ctxD [OF relocations_stays 2(1)])
    have I2: "sound N P ctx2" by (rule core_same_sound [OF s2 I1])
    have mtrans: "makes ctx b" if "makes ctx a" "core_same a b" for a b
      using that by (auto simp: makes_def core_same_def intro: rel_codelet_trans rel_set_trans)
    have m2: "makes ctx ctx2" by (rule mtrans [OF m1 s2])
    have cl: "?k < clock (cx_maps ctx2)" using s2 al by (simp add: core_same_def)
    have upd: "makes ctx (b\<lparr>codelet_mem := (codelet_mem b)(?k := v)\<rparr>)" if "makes ctx b" for b v
      using that by (simp add: makes_def)
    have cs: "codelet_same c c2" using core_same_codelet(1) [OF s2, of ?k c] 2(2) by simp
    show ?thesis
    proof (cases "\<not> ce_load env (of_codelet_obj obj_files) \<or> c_relocation_error c2 \<or> \<not> ce_compile env (of_codelet_obj obj_files)")
      case True
      then obtain ctx3 where 3: "jbpf_destroy_codelet_maps ops ?k ctx2 = Some ctx3" "x = None" "ctx' = free_codelet ?k ctx3"
        using fin by (auto simp: Option.bind_eq_Some_conv)
      have s3: "core_same ctx2 ctx3" by (rule stays_ctxD [OF destroy_codelet_maps_stays 3(1)])
      show ?thesis
        using codelet_upd_frame [OF core_same_sound [OF s3 I2] kP k, of None] upd [OF mtrans [OF m2 s3], of None] 3
        by (simp add: free_codelet_def)
    next
      case False
      then have 3: "x = Some ?k" "ctx' = ctx2\<lparr>codelet_mem := (codelet_mem ctx2)(?k \<mapsto> c2\<lparr>c_codelet_fn := Suc ?k\<rparr>)\<rparr>"
        using fin by auto
      have "created (c2\<lparr>c_codelet_fn := Suc ?k\<rparr>) ?k S desc \<and> \<not> c_loaded (c2\<lparr>c_codelet_fn := Suc ?k\<rparr>)"
        using cs by (simp add: created_def codelet_same_def c_def)
      then show ?thesis
        using codelet_upd_frame [OF I2 kP k, of "Some (c2\<lparr>c_codelet_fn := Suc ?k\<rparr>)"] cl upd [OF m2] 3 by simp
    qed
  qed
qed

lemma create_from_files_step:
  assumes "sound N P ctx" "clock (cx_maps ctx) \<in> N"
    and "jbpf_create_codelet_from_files ops env S desc ctx = Some (x, ctx')"
  shows "sound N P ctx' \<and> makes ctx ctx'
    \<and> (\<forall>p. x = Some p \<longrightarrow> p = clock (cx_maps ctx) \<and> p < clock (cx_maps ctx')
        \<and> (\<exists>c. codelet_mem ctx' p = Some c \<and> created c p S desc \<and> \<not> c_loaded c))"
proof (cases "x = None \<and> ctx' = ctx")
  case True
  then show ?thesis using assms(1) by simp
next
  case False
  then obtain obj_files where "jbpf_create_codelet ops env S desc obj_files ctx = Some (x, ctx')"
    using assms(3) unfolding jbpf_create_codelet_from_files_def by (auto split: if_splits option.splits)
  then show ?thesis by (rule create_codelet_step [OF assms(1,2)])
qed

definition members :: "('h, 'r) core_ops \<Rightarrow> nat \<Rightarrow> ('h, 'r) jbpf_ctx \<Rightarrow> nat set" where
  "members ops S ctx = {p. \<exists>st n. set_mem ctx S = Some st \<and> ck_ht_get (ops_ht ops) (s_codelets st) n = Some p}"

text \<open>The table of a set has its codelets under their names.\<close>

definition named :: "('h, 'r) core_ops \<Rightarrow> nat \<Rightarrow> ('h, 'r) jbpf_ctx \<Rightarrow> bool" where
  "named ops S ctx \<longleftrightarrow> (\<exists>st. set_mem ctx S = Some st \<and>
    (\<forall>n p. ck_ht_get (ops_ht ops) (s_codelets st) n = Some p \<longrightarrow>
      (\<exists>c. codelet_mem ctx p = Some c \<and> c_name c = n \<and> c_codeletset c = S)))"

text \<open>The state while a set is built or taken down, with all its codelets at addresses in \<open>N\<close>.\<close>

definition building :: "('h, 'r) core_ops \<Rightarrow> nat set \<Rightarrow> nat \<Rightarrow> ('h, 'r) jbpf_ctx \<Rightarrow> bool" where
  "building ops N S ctx \<longleftrightarrow> sound N (members ops S ctx) ctx \<and> members ops S ctx \<subseteq> N \<and> named ops S ctx
    \<and> (\<forall>p \<ge> clock (cx_maps ctx). p \<in> N)"

lemma members_same: "rel_option set_same (set_mem a S) (set_mem b S) \<Longrightarrow> members ops S b = members ops S a"
  by (cases "set_mem a S"; cases "set_mem b S") (auto simp: members_def set_same_def)

lemma named_same:
  assumes n: "named ops S a" and s: "rel_option set_same (set_mem a S) (set_mem b S)"
    and c: "\<And>p. p \<in> members ops S a \<Longrightarrow> rel_option codelet_same (codelet_mem a p) (codelet_mem b p)"
  shows "named ops S b"
proof -
  obtain st where st: "set_mem a S = Some st"
      "\<And>n p. ck_ht_get (ops_ht ops) (s_codelets st) n = Some p \<Longrightarrow> \<exists>c. codelet_mem a p = Some c \<and> c_name c = n \<and> c_codeletset c = S"
    using n by (auto simp: named_def)
  obtain st' where st': "set_mem b S = Some st'" "s_codelets st' = s_codelets st"
    using s st(1) by (cases "set_mem b S") (auto simp: set_same_def)
  have "\<exists>c. codelet_mem b p = Some c \<and> c_name c = m \<and> c_codeletset c = S"
    if "ck_ht_get (ops_ht ops) (s_codelets st) m = Some p" for m p
  proof -
    have "p \<in> members ops S a" using that st(1) by (auto simp: members_def)
    from c [OF this] st(2) [OF that] show ?thesis by (cases "codelet_mem b p") (auto simp: codelet_same_def)
  qed
  then show ?thesis using st' by (auto simp: named_def)
qed

lemma member_below:
  assumes "building ops N S ctx" "p \<in> members ops S ctx"
  shows "p < clock (cx_maps ctx)"
proof (rule ccontr)
  assume "\<not> p < clock (cx_maps ctx)"
  then have "codelet_mem ctx p = None" using assms(1) by (auto simp: building_def sound_def fresh_above_def)
  moreover have "codelet_mem ctx p \<noteq> None" using assms by (auto simp: building_def sound_def compiled_def)
  ultimately show False by simp
qed

lemma sound_insert:
  assumes I: "sound N P ctx" and c: "codelet_mem ctx p = Some c" "c_codelet_fn c = Suc p" "\<not> c_loaded c" and P': "P \<subseteq> P'" "P' \<subseteq> insert p P"
  shows "sound N P' ctx"
proof -
  have "placed N P' ctx"
    unfolding placed_def
  proof (intro conjI allI impI ballI, goal_cases)
    case (1 n e)
    from placedD(1) [OF I 1] show ?case using P' by blast
  next
    case (2 q d)
    then have "q \<in> P" using c P' by auto
    then show ?case using placedD(2) [OF I] 2 by simp
  qed
  moreover have "compiled P' ctx" using I c P' by (auto simp: sound_def compiled_def)
  ultimately show ?thesis using I by (simp add: sound_def)
qed

lemma sound_sets:
  "sound N P (ctx\<lparr>set_mem := (set_mem ctx)(S \<mapsto> st)\<rparr>) \<longleftrightarrow> sound N P ctx" if "S < clock (cx_maps ctx)"
  using that by (auto simp: sound_def placed_def compiled_def fresh_above_def)

text \<open>The hash table has memory for its insertions.\<close>

definition ht_put_ok :: "('h, 'r) core_ops \<Rightarrow> bool" where
  "ht_put_ok ops \<longleftrightarrow> (\<forall>h k v. ck_ht_get (ops_ht ops) h k = None \<longrightarrow> fst (ck_ht_put (ops_ht ops) h k v))"

definition tbl :: "('h, 'r) core_ops \<Rightarrow> nat \<Rightarrow> ('h, 'r) jbpf_ctx \<Rightarrow> bytes \<rightharpoonup> nat" where
  "tbl ops S ctx = (case set_mem ctx S of None \<Rightarrow> Map.empty | Some st \<Rightarrow> ck_ht_get (ops_ht ops) (s_codelets st))"

lemma tbl_members: "members ops S ctx = ran (tbl ops S ctx)"
  by (auto simp: members_def tbl_def ran_def split: option.splits)

lemma tbl_same: "rel_option set_same (set_mem a S) (set_mem b S) \<Longrightarrow> tbl ops S b = tbl ops S a"
  by (cases "set_mem a S"; cases "set_mem b S") (auto simp: tbl_def set_same_def)

lemma add_codelet_step:
  assumes ht: "ck_ht_spec (ops_ht ops)" and B: "building ops N S ctx" and S: "S \<in> M" "S < clock (cx_maps ctx)"
    and r: "jbpf_add_codelet_to_codeletset ops env S d ctx = Some (ok, ctx')"
  shows "building ops N S ctx' \<and> others_same N M ctx ctx' \<and> hook_list ctx' = hook_list ctx
    \<and> total_num_codelets ctx' = total_num_codelets ctx
    \<and> (\<forall>q. q \<noteq> clock (cx_maps ctx) \<longrightarrow> rel_option codelet_same (codelet_mem ctx q) (codelet_mem ctx' q))
    \<and> (\<not> ok \<longrightarrow> tbl ops S ctx' = tbl ops S ctx)
    \<and> (ok \<longrightarrow> (\<exists>c put. codelet_mem ctx' (clock (cx_maps ctx)) = Some c \<and> created c (clock (cx_maps ctx)) S d \<and> \<not> c_loaded c
        \<and> tbl ops S ctx' = (if put then (tbl ops S ctx)(c_name c \<mapsto> clock (cx_maps ctx)) else tbl ops S ctx)
        \<and> (put \<longrightarrow> tbl ops S ctx (c_name c) = None)
        \<and> (tbl ops S ctx (c_name c) = None \<longrightarrow> ht_put_ok ops \<longrightarrow> put)))"
proof -
  let ?k = "clock (cx_maps ctx)"
  obtain x ctx1 where 1: "jbpf_create_codelet_from_files ops env S d ctx = Some (x, ctx1)"
    using r by (auto simp: jbpf_add_codelet_to_codeletset_def split: bind_splits)
  have kN: "?k \<in> N" and I: "sound N (members ops S ctx) ctx" and PN: "members ops S ctx \<subseteq> N" and nm: "named ops S ctx"
    using B by (auto simp: building_def)
  note st = create_from_files_step [OF I kN 1]
  have cl: "?k \<le> clock (cx_maps ctx1)" using st by (simp add: makes_def)
  have os: "others_same N M ctx ctx1" using makes_others [OF _ kN] st by blast
  have "rel_option set_same (set_mem ctx S) (set_mem ctx1 S)" using st by (simp add: makes_def)
  then have mem1: "members ops S ctx1 = members ops S ctx" "tbl ops S ctx1 = tbl ops S ctx"
    by (simp_all add: members_same tbl_same)
  have nm1: "named ops S ctx1"
  proof (rule named_same [OF nm])
    show "rel_option codelet_same (codelet_mem ctx p) (codelet_mem ctx1 p)" if "p \<in> members ops S ctx" for p
      using member_below [OF B that] st by (simp add: makes_def)
  qed (use st in \<open>simp add: makes_def\<close>)
  have B1: "building ops N S ctx1" using st mem1 PN nm1 B cl by (auto simp: building_def)
  show ?thesis
  proof (cases x)
    case None
    then have "ok = False" "ctx' = ctx1" using r 1 by (auto simp: jbpf_add_codelet_to_codeletset_def)
    then show ?thesis using B1 os st mem1 by (simp add: makes_def)
  next
    case (Some p)
    then have p: "p = ?k" "p < clock (cx_maps ctx1)" using st by auto
    obtain c where c: "codelet_mem ctx1 p = Some c" "created c p S d" "\<not> c_loaded c" using st Some by auto
    obtain s1 where s1: "set_mem ctx1 S = Some s1" using nm1 by (auto simp: named_def)
    obtain put h where put: "ck_ht_put (ops_ht ops) (s_codelets s1) (c_name c) p = (put, h)" by fastforce
    have r': "ok" "ctx' = ctx1\<lparr>set_mem := (set_mem ctx1)(S \<mapsto> s1\<lparr>s_codelets := h\<rparr>)\<rparr>"
      using r 1 Some c s1 put by (auto simp: jbpf_add_codelet_to_codeletset_def)
    note pt = ht_put [OF ht put]
    have t1: "tbl ops S ctx = ck_ht_get (ops_ht ops) (s_codelets s1)" using mem1(2) s1 by (simp add: tbl_def)
    have t': "tbl ops S ctx' = (if put then (tbl ops S ctx)(c_name c \<mapsto> p) else tbl ops S ctx)"
      using pt r' t1 by (auto simp: tbl_def)
    have new: "put \<Longrightarrow> tbl ops S ctx (c_name c) = None" using pt t1 by simp
    have mem': "members ops S ctx' = (if put then insert p (members ops S ctx) else members ops S ctx)"
      using t' new by (auto simp: tbl_members ran_map_upd)
    have "sound N (members ops S ctx') ctx1"
    proof (rule sound_insert [of N "members ops S ctx" ctx1 p c])
      show "c_codelet_fn c = Suc p" using c by (simp add: created_def)
    qed (use st c mem' in auto)
    then have "sound N (members ops S ctx') ctx'" using r'(2) sound_sets [of S ctx1] S cl by simp
    moreover have "named ops S ctx'"
    proof -
      have "\<exists>d. codelet_mem ctx1 q = Some d \<and> c_name d = n \<and> c_codeletset d = S"
        if "ck_ht_get (ops_ht ops) h n = Some q" for n q
      proof (cases "put \<and> n = c_name c")
        case True
        then show ?thesis using that pt c by (simp add: created_def)
      next
        case False
        then have "ck_ht_get (ops_ht ops) (s_codelets s1) n = Some q" using that pt by (auto split: if_splits)
        then show ?thesis using nm1 s1 by (simp add: named_def)
      qed
      then show ?thesis using r'(2) by (simp add: named_def)
    qed
    moreover have "members ops S ctx' \<subseteq> N" using mem' PN kN p by auto
    ultimately have B': "building ops N S ctx'" using B1 r' by (simp add: building_def)
    moreover have "others_same N M ctx ctx'" using os r' S(1) by (auto simp: others_same_def)
    moreover have "put" if "tbl ops S ctx (c_name c) = None" "ht_put_ok ops"
      using that(2) [unfolded ht_put_ok_def, rule_format, of "s_codelets s1" "c_name c" p] that(1) t1 put by simp
    moreover have "hook_list ctx' = hook_list ctx" "total_num_codelets ctx' = total_num_codelets ctx"
      "\<forall>q. q \<noteq> ?k \<longrightarrow> rel_option codelet_same (codelet_mem ctx q) (codelet_mem ctx' q)"
      using st r'(2) by (simp_all add: makes_def)
    moreover have "codelet_mem ctx' ?k = Some c" using c r'(2) p by simp
    ultimately show ?thesis using r'(1) c(2,3) t' new p(1)
      by (intro conjI impI exI [of _ c] exI [of _ put]) simp_all
  qed
qed

end
