(* ===== verification/Load_Unload.thy ===== *)
theory Load_Unload
  imports Lifecycle
begin

text \<open>
  The correctness of \<open>jbpf_codeletset_load\<close> and \<open>jbpf_codeletset_unload\<close> of \<open>src/core/jbpf.c\<close> over every
  history of requests.
\<close>

section \<open>Building a set\<close>

lemma named_key:
  assumes "named ops S ctx" "tbl ops S ctx k = Some p"
  shows "\<exists>c. codelet_mem ctx p = Some c \<and> c_name c = k \<and> c_codeletset c = S"
proof -
  obtain st where "set_mem ctx S = Some st" "\<forall>n p. ck_ht_get (ops_ht ops) (s_codelets st) n = Some p \<longrightarrow>
      (\<exists>c. codelet_mem ctx p = Some c \<and> c_name c = n \<and> c_codeletset c = S)"
    using assms(1) unfolding named_def by blast
  then show ?thesis using assms(2) by (simp add: tbl_def)
qed

lemma populate_link_same:
  assumes "populate_link ops env n l (table, ctx) = Some (table', ctx')"
  shows "core_same ctx ctx'"
proof -
  obtain p1 ctx1 where 1: "mem_alloc env ctx = (p1, ctx1)" by fastforce
  obtain p2 ctx2 where 2: "mem_alloc env ctx1 = (p2, ctx2)" by fastforce
  obtain p3 ctx3 where 3: "mem_alloc env ctx2 = (p3, ctx3)" by fastforce
  have s2: "core_same ctx ctx2" using mem_alloc_spec [OF 1] mem_alloc_spec [OF 2] core_same_trans by blast
  have s3: "core_same ctx ctx3" using core_same_trans [OF s2] mem_alloc_spec [OF 3] by blast
  have up: "core_same ctx (c\<lparr>linked_mem := v\<rparr>)" "core_same ctx (c\<lparr>linked_mem := w, linked_mem := v\<rparr>)"
    if "core_same ctx c" for c v w
    using that by (auto simp: core_same_def)
  obtain c where c: "core_same ctx c" "\<exists>v. ctx' = c\<lparr>linked_mem := v\<rparr>"
    using assms 1 2 3 s2 s3 unfolding populate_link_def Let_def split_def
    by (auto simp: Option.bind_eq_Some_conv split: if_splits option.splits)
  then show ?thesis using up by blast
qed

lemma populate_links_same:
  "populate_links ops env ls (table, ctx) = Some (table', ctx') \<Longrightarrow> core_same ctx ctx'"
proof (induction ls arbitrary: table ctx)
  case (Cons x ls)
  obtain n l where x: "x = (n, l)" by fastforce
  obtain t1 c1 where 1: "populate_link ops env n l (table, ctx) = Some (t1, c1)" "populate_links ops env ls (t1, c1) = Some (table', ctx')"
    using Cons.prems x by (auto simp: Option.bind_eq_Some_conv)
  show ?case by (rule core_same_trans [OF populate_link_same [OF 1(1)] Cons.IH [OF 1(2)]])
qed simp

lemma populate_same:
  "jbpf_populate_linked_map_entries ops env req ctx = Some (table, ctx') \<Longrightarrow> core_same ctx ctx'"
  by (auto simp: jbpf_populate_linked_map_entries_def Option.bind_eq_Some_conv intro: populate_links_same)

lemma drop_aliases_same: "drop_aliases lms ctx = Some ctx' \<Longrightarrow> core_same ctx ctx'"
proof (induction lms arbitrary: ctx)
  case (Cons lm lms)
  obtain v where "drop_aliases lms (ctx\<lparr>linked_mem := v\<rparr>) = Some ctx'"
    using Cons.prems by (auto simp: Let_def Option.bind_eq_Some_conv)
  then show ?case using core_same_trans [OF core_same_upd(4) Cons.IH] by blast
qed simp

text \<open>The set has the codelet that a descriptor asks for.\<close>

definition has_codelet :: "('h, 'r) core_ops \<Rightarrow> nat \<Rightarrow> ('h, 'r) jbpf_ctx \<Rightarrow> jbpf_codelet_descriptor \<Rightarrow> bool" where
  "has_codelet ops S ctx d \<longleftrightarrow> (\<exists>p c. tbl ops S ctx (take (JBPF_CODELET_NAME_LEN - 1) (d_codelet_name d)) = Some p
    \<and> codelet_mem ctx p = Some c \<and> created c p S d)"

abbreviation codelet_key :: "jbpf_codelet_descriptor \<Rightarrow> bytes" where
  "codelet_key d \<equiv> take (JBPF_CODELET_NAME_LEN - 1) (d_codelet_name d)"

lemma has_codelet_mono:
  assumes "has_codelet ops S ctx d" "tbl ops S ctx \<subseteq>\<^sub>m tbl ops S ctx'"
    and "\<And>p. p \<in> members ops S ctx \<Longrightarrow> rel_option codelet_same (codelet_mem ctx p) (codelet_mem ctx' p)"
  shows "has_codelet ops S ctx' d"
proof -
  obtain p c where p: "tbl ops S ctx (codelet_key d) = Some p" "codelet_mem ctx p = Some c" "created c p S d"
    using assms(1) by (auto simp: has_codelet_def)
  then have "p \<in> members ops S ctx" by (auto simp: tbl_members ran_def)
  from assms(3) [OF this] obtain c' where "codelet_mem ctx' p = Some c'" "codelet_same c c'"
    using p(2) by (cases "codelet_mem ctx' p") auto
  moreover have "tbl ops S ctx' (codelet_key d) = Some p" using p(1) assms(2) by (metis domI map_le_def)
  ultimately show ?thesis using p(3) created_same by (auto simp: has_codelet_def)
qed

definition all_unloaded :: "nat set \<Rightarrow> ('h, 'r) jbpf_ctx \<Rightarrow> bool" where
  "all_unloaded P ctx \<longleftrightarrow> (\<forall>p\<in>P. \<forall>c. codelet_mem ctx p = Some c \<longrightarrow> \<not> c_loaded c)"

lemma add_codelets_spec:
  assumes ht: "ck_ht_spec (ops_ht ops)" and "building ops N S ctx" "S \<in> M" "S < clock (cx_maps ctx)"
    and "add_codelets ops env S ds ctx = Some (ok, ctx')" "all_unloaded (members ops S ctx) ctx"
  shows "building ops N S ctx' \<and> others_same N M ctx ctx' \<and> hook_list ctx' = hook_list ctx
    \<and> all_unloaded (members ops S ctx') ctx' \<and> S < clock (cx_maps ctx')
    \<and> total_num_codelets ctx \<le> total_num_codelets ctx' \<and> total_num_codelets ctx' \<le> total_num_codelets ctx + int (length ds)
    \<and> (ok \<longrightarrow> total_num_codelets ctx' = total_num_codelets ctx + int (length ds))
    \<and> tbl ops S ctx \<subseteq>\<^sub>m tbl ops S ctx'
    \<and> (\<forall>q < clock (cx_maps ctx). rel_option codelet_same (codelet_mem ctx q) (codelet_mem ctx' q))
    \<and> (ok \<longrightarrow> ht_put_ok ops \<longrightarrow> distinct (map codelet_key ds) \<longrightarrow> dom (tbl ops S ctx) \<inter> codelet_key ` set ds = {} \<longrightarrow>
        dom (tbl ops S ctx') = dom (tbl ops S ctx) \<union> codelet_key ` set ds \<and> (\<forall>d\<in>set ds. has_codelet ops S ctx' d))"
  using assms(2-)
proof (induction ds arbitrary: ctx)
  case Nil
  then show ?case by simp
next
  case (Cons d ds)
  let ?k = "clock (cx_maps ctx)"
  obtain ok1 ctx1 where 1: "jbpf_add_codelet_to_codeletset ops env S d ctx = Some (ok1, ctx1)"
    and rest: "(if \<not> ok1 then Some (False, ctx1) else add_codelets ops env S ds (ctx1\<lparr>total_num_codelets := total_num_codelets ctx1 + 1\<rparr>)) = Some (ok, ctx')"
    using Cons.prems(4) by (auto simp: Option.bind_eq_Some_conv)
  note st = add_codelet_step [OF ht Cons.prems(1,2,3) 1]
  have cl: "?k \<le> clock (cx_maps ctx1)" using st by (simp add: others_same_def)
  have below: "rel_option codelet_same (codelet_mem ctx q) (codelet_mem ctx1 q)" if "q < ?k" for q
    using st that by simp
  have unl: "\<not> c_loaded c" if "p \<in> members ops S ctx" "codelet_mem ctx1 p = Some c" for p c
    using below [OF member_below [OF Cons.prems(1) that(1)]] that Cons.prems(5)
    by (cases "codelet_mem ctx p") (auto simp: all_unloaded_def codelet_same_def)
  show ?case
  proof (cases ok1)
    case False
    then have c': "\<not> ok" "ctx' = ctx1" using rest by auto
    have t: "tbl ops S ctx1 = tbl ops S ctx" using st False by simp
    have "all_unloaded (members ops S ctx1) ctx1" using unl by (simp add: all_unloaded_def tbl_members t)
    then show ?thesis using st c' t Cons.prems(3) cl below by simp
  next
    case True
    from mp [OF st [THEN conjunct2, THEN conjunct2, THEN conjunct2, THEN conjunct2, THEN conjunct2, THEN conjunct2] this]
    obtain c put where c: "codelet_mem ctx1 ?k = Some c" "created c ?k S d" "\<not> c_loaded c"
        "tbl ops S ctx1 = (if put then (tbl ops S ctx)(c_name c \<mapsto> ?k) else tbl ops S ctx)"
        "put \<longrightarrow> tbl ops S ctx (c_name c) = None" "tbl ops S ctx (c_name c) = None \<longrightarrow> ht_put_ok ops \<longrightarrow> put"
      by (elim exE conjE) (rule that)
    let ?ctx2 = "ctx1\<lparr>total_num_codelets := total_num_codelets ctx1 + 1\<rparr>"
    have tot: "building ops N S ?ctx2 = building ops N S ctx1" "tbl ops S ?ctx2 = tbl ops S ctx1" "members ops S ?ctx2 = members ops S ctx1"
      "others_same N M ctx ?ctx2 = others_same N M ctx ctx1" "all_unloaded P ?ctx2 = all_unloaded P ctx1" for P
      by (simp_all add: building_def sound_def placed_def compiled_def fresh_above_def named_def members_def tbl_def others_same_def all_unloaded_def)
    have sub: "tbl ops S ctx \<subseteq>\<^sub>m tbl ops S ctx1" using c(4,5) by (auto simp: map_le_def)
    have "members ops S ctx1 \<subseteq> insert ?k (members ops S ctx)" using c(4) by (auto simp: tbl_members ran_def)
    then have un1: "all_unloaded (members ops S ctx1) ctx1" using unl c(1,3) by (auto simp: all_unloaded_def)
    have l: "add_codelets ops env S ds ?ctx2 = Some (ok, ctx')" using rest True by simp
    have pre: "building ops N S ?ctx2" "S < clock (cx_maps ?ctx2)" "all_unloaded (members ops S ?ctx2) ?ctx2"
      unfolding tot using st un1 Cons.prems(3) cl by simp_all
    have ih: "building ops N S ctx'" "others_same N M ?ctx2 ctx'" "hook_list ctx' = hook_list ctx1" "all_unloaded (members ops S ctx') ctx'"
      "S < clock (cx_maps ctx')" "total_num_codelets ?ctx2 \<le> total_num_codelets ctx'" "total_num_codelets ctx' \<le> total_num_codelets ?ctx2 + int (length ds)"
      "ok \<longrightarrow> total_num_codelets ctx' = total_num_codelets ?ctx2 + int (length ds)" "tbl ops S ctx1 \<subseteq>\<^sub>m tbl ops S ctx'"
      "\<forall>q < clock (cx_maps ctx1). rel_option codelet_same (codelet_mem ctx1 q) (codelet_mem ctx' q)"
      "ok \<longrightarrow> ht_put_ok ops \<longrightarrow> distinct (map codelet_key ds) \<longrightarrow> dom (tbl ops S ctx1) \<inter> codelet_key ` set ds = {} \<longrightarrow>
        dom (tbl ops S ctx') = dom (tbl ops S ctx1) \<union> codelet_key ` set ds \<and> (\<forall>d\<in>set ds. has_codelet ops S ctx' d)"
      using Cons.IH [OF pre(1) Cons.prems(2) pre(2) l pre(3), unfolded tot] by simp_all
    have os: "others_same N M ctx ctx'" using others_same_trans [OF _ ih(2)] st tot(4) by blast
    have rel: "\<forall>q < ?k. rel_option codelet_same (codelet_mem ctx q) (codelet_mem ctx' q)"
      using below ih(10) cl by (meson order.strict_trans2 rel_codelet_trans)
    have full: "dom (tbl ops S ctx') = dom (tbl ops S ctx) \<union> codelet_key ` set (d # ds) \<and> (\<forall>d\<in>set (d # ds). has_codelet ops S ctx' d)"
      if h: "ok" "ht_put_ok ops" "distinct (map codelet_key (d # ds))" "dom (tbl ops S ctx) \<inter> codelet_key ` set (d # ds) = {}"
    proof -
      have key: "c_name c = codelet_key d" using c(2) by (simp add: created_def)
      have "tbl ops S ctx (c_name c) = None" using h(4) key by auto
      then have t: "tbl ops S ctx1 = (tbl ops S ctx)(codelet_key d \<mapsto> ?k)" using c(4,6) h(2) key by simp
      have B1: "building ops N S ctx1" using st by blast
      have "?k \<in> members ops S ctx1" using t by (auto simp: tbl_members ran_def)
      have "has_codelet ops S ctx1 d" using c(1,2) t by (auto simp: has_codelet_def)
      then have "has_codelet ops S ctx' d"
        using has_codelet_mono [OF _ ih(9)] ih(10) member_below [OF B1] by blast
      then show ?thesis using ih(11) h t by auto
    qed
    show ?thesis using ih os rel full st map_le_trans [OF sub ih(9)] by auto
  qed
qed

lemma entries_members:
  assumes ht: "ck_ht_spec (ops_ht ops)" and n: "named ops S ctx" and st: "set_mem ctx S = Some st"
  shows "set (map snd (ck_ht_entries (ops_ht ops) (s_codelets st))) = members ops S ctx"
    "distinct (map snd (ck_ht_entries (ops_ht ops) (s_codelets st)))"
proof -
  let ?es = "ck_ht_entries (ops_ht ops) (s_codelets st)"
  note e = ht_entries [OF ht, of "s_codelets st"]
  have get: "(k, p) \<in> set ?es \<longleftrightarrow> ck_ht_get (ops_ht ops) (s_codelets st) k = Some p" for k p
    using e by (metis map_of_eq_Some_iff)
  show "set (map snd ?es) = members ops S ctx" using get st by (force simp: members_def)
  have nm: "\<exists>c. codelet_mem ctx p = Some c \<and> c_name c = k" if "ck_ht_get (ops_ht ops) (s_codelets st) k = Some p" for k p
    using named_key [OF n, of k p] st that by (auto simp: tbl_def)
  have "inj_on snd (set ?es)"
  proof (rule inj_onI)
    fix x y assume x: "x \<in> set ?es" and y: "y \<in> set ?es" and xy: "snd x = snd y"
    have "\<exists>c. codelet_mem ctx (snd x) = Some c \<and> c_name c = fst x" "\<exists>c. codelet_mem ctx (snd y) = Some c \<and> c_name c = fst y"
      using nm get [of "fst x" "snd x"] get [of "fst y" "snd y"] x y by simp_all
    then show "x = y" using xy by (auto simp: prod_eq_iff)
  qed
  then show "distinct (map snd ?es)" using e(1) distinct_map [of fst ?es] distinct_map [of snd ?es] by blast
qed

lemma loaded_more_named:
  assumes "loaded_more a b"
  shows "members ops S b = members ops S a" "tbl ops S b = tbl ops S a" "named ops S a \<Longrightarrow> named ops S b"
    "has_codelet ops S a d \<Longrightarrow> has_codelet ops S b d"
proof -
  have sets: "set_mem b = set_mem a" using assms by (simp add: loaded_more_def)
  then show t: "members ops S b = members ops S a" "tbl ops S b = tbl ops S a" by (simp_all add: members_def tbl_def)
  have mem: "\<exists>c'. codelet_mem b p = Some c' \<and> c' = c\<lparr>c_loaded := c_loaded c'\<rparr>" if "codelet_mem a p = Some c" for p c
    using assms that unfolding loaded_more_def by (elim conjE allE [of _ p] disjE exE) auto
  show "named ops S a \<Longrightarrow> named ops S b"
    using mem unfolding named_def sets by (metis jbpf_codelet.select_convs(3,7) jbpf_codelet.surjective jbpf_codelet.update_convs(8))
  show "has_codelet ops S a d \<Longrightarrow> has_codelet ops S b d"
  proof -
    assume "has_codelet ops S a d"
    then obtain p c where p: "tbl ops S a (codelet_key d) = Some p" "codelet_mem a p = Some c" "created c p S d"
      by (auto simp: has_codelet_def)
    obtain c' where c': "codelet_mem b p = Some c'" "c' = c\<lparr>c_loaded := c_loaded c'\<rparr>" using mem [OF p(2)] by blast
    have "created (c\<lparr>c_loaded := x\<rparr>) p S d" for x using p(3) by (simp add: created_def)
    then have "created c' p S d" using c'(2) by metis
    then show "has_codelet ops S b d" using p(1) c'(1) t(2) by (auto simp: has_codelet_def)
  qed
qed

lemma build_codeletset_spec:
  assumes ht: "ck_ht_spec (ops_ht ops)" and B: "building ops N S ctx" and S: "S \<in> M" "S < clock (cx_maps ctx)"
    and r: "build_codeletset ops env S ds ctx = Some (outcome, ctx')" and un: "all_unloaded (members ops S ctx) ctx"
  shows "building ops N S ctx' \<and> others_same N M ctx ctx' \<and> S < clock (cx_maps ctx')
    \<and> (outcome = 0 \<or> outcome = JBPF_CODELET_LOAD_FAIL \<or> outcome = JBPF_CODELET_CREATION_FAIL)
    \<and> total_num_codelets ctx \<le> total_num_codelets ctx' \<and> total_num_codelets ctx' \<le> total_num_codelets ctx + int (length ds)
    \<and> (outcome = JBPF_CODELET_CREATION_FAIL \<longrightarrow> all_unloaded (members ops S ctx') ctx')
    \<and> (outcome = 0 \<longrightarrow> (\<forall>p\<in>members ops S ctx'. \<exists>c. codelet_mem ctx' p = Some c \<and> c_loaded c)
        \<and> total_num_codelets ctx' = total_num_codelets ctx + int (length ds)
        \<and> (ht_put_ok ops \<longrightarrow> distinct (map codelet_key ds) \<longrightarrow> dom (tbl ops S ctx) = {} \<longrightarrow>
            dom (tbl ops S ctx') = codelet_key ` set ds \<and> (\<forall>d\<in>set ds. has_codelet ops S ctx' d)))"
proof -
  obtain added ctx1 where 1: "add_codelets ops env S ds ctx = Some (added, ctx1)"
    using r by (auto simp: build_codeletset_def Option.bind_eq_Some_conv)
  note add = add_codelets_spec [OF ht B S 1 un]
  have fail: "JBPF_CODELET_CREATION_FAIL \<noteq> 0" "JBPF_CODELET_LOAD_FAIL \<noteq> 0" "JBPF_CODELET_CREATION_FAIL \<noteq> JBPF_CODELET_LOAD_FAIL"
    "JBPF_CODELET_LOAD_SUCCESS = 0"
    by (simp_all add: load_codes)
  show ?thesis
  proof (cases "added \<and> (\<exists>st. set_mem ctx1 S = Some st \<and> check_links (map snd (ck_ht_entries (ops_ht ops) (s_linked_map_entries st))) ctx1 = Some True)")
    case False
    have "named ops S ctx1" using add by (simp add: building_def)
    then obtain st where st: "set_mem ctx1 S = Some st" by (auto simp: named_def)
    have "outcome = JBPF_CODELET_CREATION_FAIL \<or> outcome = JBPF_CODELET_LOAD_FAIL" "ctx' = ctx1"
      using r 1 False st by (auto simp: build_codeletset_def Option.bind_eq_Some_conv split: if_splits)
    then show ?thesis using add fail by auto
  next
    case True
    then obtain st where st: "set_mem ctx1 S = Some st"
        "check_links (map snd (ck_ht_entries (ops_ht ops) (s_linked_map_entries st))) ctx1 = Some True" by blast
    let ?ps = "map snd (ck_ht_entries (ops_ht ops) (s_codelets st))"
    obtain ok ctx2 where 2: "load_codelets env ?ps ctx1 = Some (ok, ctx2)"
      and out: "outcome = (if ok then JBPF_CODELET_LOAD_SUCCESS else JBPF_CODELET_LOAD_FAIL)" "ctx' = ctx2"
      using r 1 True st by (auto simp: build_codeletset_def Option.bind_eq_Some_conv)
    have B1: "building ops N S ctx1" using add by blast
    have ps: "set ?ps = members ops S ctx1" using entries_members(1) [OF ht _ st(1)] B1 by (simp add: building_def)
    have ld: "sound N (members ops S ctx1) ctx2" "others_same N M ctx1 ctx2" "loaded_more ctx1 ctx2"
      "ok \<longrightarrow> (\<forall>p\<in>members ops S ctx1. \<exists>c. codelet_mem ctx2 p = Some c \<and> c_loaded c)"
      using load_codelets_spec [OF 2, of N "members ops S ctx1" M, unfolded ps] B1 by (simp_all add: building_def)
    note lm = loaded_more_named [OF ld(3)]
    have B2: "building ops N S ctx2" using B1 ld(1,3) lm by (simp add: building_def loaded_more_def)
    have os: "others_same N M ctx ctx2" using others_same_trans [OF _ ld(2)] add by blast
    have tot: "total_num_codelets ctx2 = total_num_codelets ctx1" "cx_maps ctx2 = cx_maps ctx1" using ld(3) by (simp_all add: loaded_more_def)
    have add': "total_num_codelets ctx1 = total_num_codelets ctx + int (length ds)" using add True by simp
    have full: "dom (tbl ops S ctx2) = codelet_key ` set ds \<and> (\<forall>d\<in>set ds. has_codelet ops S ctx2 d)"
      if "ht_put_ok ops" "distinct (map codelet_key ds)" "dom (tbl ops S ctx) = {}"
      using add True that lm(2,4) by simp
    show ?thesis
    proof (cases ok)
      case ok: True
      then show ?thesis using out fail B2 os add tot add' ld(4) lm(1) full by simp
    next
      case False
      then show ?thesis using out fail B2 os add tot add' by simp
    qed
  qed
qed

lemma undo_load_spec:
  assumes ht: "ck_ht_spec (ops_ht ops)" and B: "building ops N S ctx" and S: "S \<in> M"
    and mem: "\<And>n. ce_hook_mem env n" and u: "undo_load ops env S ctx = Some ctx'"
  shows "sound N {} ctx' \<and> others_same N M ctx ctx' \<and> set_mem ctx' S = None
    \<and> total_num_codelets ctx' \<le> total_num_codelets ctx
    \<and> (all_unloaded (members ops S ctx) ctx \<longrightarrow> total_num_codelets ctx' = total_num_codelets ctx)"
proof -
  have n: "named ops S ctx" using B by (simp add: building_def)
  then obtain st where st: "set_mem ctx S = Some st" by (auto simp: named_def)
  let ?ps = "map snd (ck_ht_entries (ops_ht ops) (s_codelets st))"
  note ps = entries_members [OF ht n st]
  obtain ctx1 where 1: "undo_codelets ops env ?ps ctx = Some ctx1"
    using u st by (auto simp: undo_load_def Option.bind_eq_Some_conv)
  have un: "sound N {} ctx1" "others_same N M ctx ctx1" "total_num_codelets ctx1 = total_num_codelets ctx - num_loaded ?ps ctx"
    "\<forall>q. rel_option set_same (set_mem ctx q) (set_mem ctx1 q)"
    using undo_codelets_spec [OF 1 _ _ ps(2) mem, of N M] B ps(1) by (simp_all add: building_def)
  obtain st1 where st1: "set_mem ctx1 S = Some st1" using u st 1 by (auto simp: undo_load_def Option.bind_eq_Some_conv)
  obtain ctx2 where 2: "drop_aliases (map snd (ck_ht_entries (ops_ht ops) (s_linked_map_entries st1))) ctx1 = Some ctx2"
    and ctx': "ctx' = ctx2\<lparr>set_mem := (set_mem ctx2)(S := None)\<rparr>"
    using u st 1 st1 by (auto simp: undo_load_def Option.bind_eq_Some_conv)
  have s2: "core_same ctx1 ctx2" by (rule drop_aliases_same [OF 2])
  have I2: "sound N {} ctx2" by (rule core_same_sound [OF s2 un(1)])
  have "sound N {} ctx'" using I2 ctx' by (auto simp: sound_def placed_def compiled_def fresh_above_def)
  moreover have "others_same N M ctx ctx'"
    using others_same_trans [OF un(2) core_same_others [OF s2]] ctx' S by (simp add: others_same_def)
  moreover have "total_num_codelets ctx' = total_num_codelets ctx1" using s2 ctx' by (simp add: core_same_def)
  moreover have "num_loaded ?ps ctx = 0" if "all_unloaded (members ops S ctx) ctx"
  proof -
    have "filter (\<lambda>p. \<exists>c. codelet_mem ctx p = Some c \<and> c_loaded c) ?ps = []"
      using that unfolding all_unloaded_def filter_empty_conv ps(1) by blast
    then show ?thesis by (simp add: num_loaded_def)
  qed
  ultimately show ?thesis using un(3) ctx' by (auto simp: num_loaded_def)
qed

section \<open>The invariant of the core\<close>

definition reg :: "('h, 'r) core_ops \<Rightarrow> ('h, 'r) jbpf_ctx \<Rightarrow> bytes \<rightharpoonup> nat" where
  "reg ops ctx = ck_ht_get (ops_ht ops) (codeletset_registry ctx)"

text \<open>All the codelets of a set are in memory, loaded, and on their hooks.\<close>

definition set_up :: "('h, 'r) core_ops \<Rightarrow> ('h, 'r) jbpf_ctx \<Rightarrow> nat \<Rightarrow> bool" where
  "set_up ops ctx S \<longleftrightarrow> named ops S ctx \<and> (\<forall>p\<in>members ops S ctx. \<exists>c. codelet_mem ctx p = Some c \<and> c_codelet_fn c = Suc p
     \<and> c_loaded c \<and> hook_entry c p \<in> set (hook_chains ctx (c_hook_name c)))"

text \<open>What is on a hook is a codelet of a registered set.\<close>

definition owned :: "('h, 'r) core_ops \<Rightarrow> ('h, 'r) jbpf_ctx \<Rightarrow> bytes \<Rightarrow> hook_codelet \<Rightarrow> bool" where
  "owned ops ctx n e \<longleftrightarrow> (\<exists>sid S p c. reg ops ctx sid = Some S \<and> p \<in> members ops S ctx \<and> codelet_mem ctx p = Some c
     \<and> c_loaded c \<and> c_hook_name c = n \<and> e = hook_entry c p)"

definition core_wf :: "('h, 'r) core_ops \<Rightarrow> ('h, 'r) jbpf_ctx \<Rightarrow> bool" where
  "core_wf ops ctx \<longleftrightarrow> hooks_ok (hook_list ctx) \<and> fresh_above ctx
    \<and> (\<forall>n. \<forall>e\<in>set (hook_chains ctx n). owned ops ctx n e)
    \<and> (\<forall>sid S. reg ops ctx sid = Some S \<longrightarrow> set_up ops ctx S)
    \<and> (\<forall>sid sid' S. reg ops ctx sid = Some S \<longrightarrow> reg ops ctx sid' = Some S \<longrightarrow> sid = sid')"

lemma core_wfD:
  "core_wf ops ctx \<Longrightarrow> e \<in> set (hook_chains ctx n) \<Longrightarrow> owned ops ctx n e"
  "core_wf ops ctx \<Longrightarrow> reg ops ctx sid = Some S \<Longrightarrow> set_up ops ctx S"
  "core_wf ops ctx \<Longrightarrow> reg ops ctx sid = Some S \<Longrightarrow> reg ops ctx sid' = Some S \<Longrightarrow> sid = sid'"
  "core_wf ops ctx \<Longrightarrow> hooks_ok (hook_list ctx)" "core_wf ops ctx \<Longrightarrow> fresh_above ctx"
  by (auto simp: core_wf_def)

lemma chain_others:
  assumes "others_same N M ctx ctx'" "jbpf_codelet e \<notin> Suc ` N"
  shows "e \<in> set (hook_chains ctx' n) \<longleftrightarrow> e \<in> set (hook_chains ctx n)"
proof -
  have "set (filter (\<lambda>e. jbpf_codelet e \<notin> Suc ` N) (hook_chains ctx' n)) = set (filter (\<lambda>e. jbpf_codelet e \<notin> Suc ` N) (hook_chains ctx n))"
    using assms(1) by (simp add: others_same_def)
  then show ?thesis using assms(2) by auto
qed

lemma set_up_others:
  assumes u: "set_up ops ctx S" and o: "others_same N M ctx ctx'" and S: "S \<notin> M" and N: "members ops S ctx \<inter> N = {}"
  shows "set_up ops ctx' S" "members ops S ctx' = members ops S ctx"
proof -
  have s: "rel_option set_same (set_mem ctx S) (set_mem ctx' S)" using o S by (simp add: others_same_def)
  then show m: "members ops S ctx' = members ops S ctx" by (rule members_same)
  have rel: "rel_option codelet_same (codelet_mem ctx p) (codelet_mem ctx' p)" if "p \<in> members ops S ctx" for p
    using o N that by (auto simp: others_same_def)
  have "named ops S ctx'" using u rel by (intro named_same [OF _ s]) (auto simp: set_up_def)
  moreover have "\<exists>c. codelet_mem ctx' p = Some c \<and> c_codelet_fn c = Suc p \<and> c_loaded c \<and> hook_entry c p \<in> set (hook_chains ctx' (c_hook_name c))"
    if p: "p \<in> members ops S ctx" for p
  proof -
    obtain c where c: "codelet_mem ctx p = Some c" "c_codelet_fn c = Suc p" "c_loaded c" "hook_entry c p \<in> set (hook_chains ctx (c_hook_name c))"
      using u p by (auto simp: set_up_def)
    obtain c' where c': "codelet_mem ctx' p = Some c'" "codelet_same c c'" using rel [OF p] c(1) by (cases "codelet_mem ctx' p") auto
    have "hook_entry c p \<in> set (hook_chains ctx' (c_hook_name c))" using c(4) p N by (subst chain_others [OF o]) auto
    then show ?thesis using c c' hook_entry_same [of c c' p] by (auto simp: codelet_same_def)
  qed
  ultimately show "set_up ops ctx' S" using m by (simp add: set_up_def)
qed

lemma owned_others:
  assumes e: "e \<in> set (hook_chains ctx' n)" "jbpf_codelet e \<notin> Suc ` N" and wf: "core_wf ops ctx" and o: "others_same N M ctx ctx'"
  obtains sid S p c c' where "reg ops ctx sid = Some S" "p \<in> members ops S ctx" "p \<notin> N" "codelet_mem ctx' p = Some c'"
    "c_loaded c'" "c_hook_name c' = n" "e = hook_entry c' p" "codelet_mem ctx p = Some c" "codelet_same c c'"
proof -
  have "e \<in> set (hook_chains ctx n)" using chain_others [OF o e(2)] e(1) by blast
  then obtain sid S p c where p: "reg ops ctx sid = Some S" "p \<in> members ops S ctx" "codelet_mem ctx p = Some c"
      "c_loaded c" "c_hook_name c = n" "e = hook_entry c p"
    using core_wfD(1) [OF wf] unfolding owned_def by blast
  have pN: "p \<notin> N" using p(6) e(2) by auto
  then have "rel_option codelet_same (codelet_mem ctx p) (codelet_mem ctx' p)" using o by (simp add: others_same_def)
  then obtain c' where c': "codelet_mem ctx' p = Some c'" "codelet_same c c'" using p(3) by (cases "codelet_mem ctx' p") auto
  then show thesis using that [OF p(1,2) pN c'(1) _ _ _ p(3) c'(2)] p hook_entry_same [OF c'(2), of p] by (simp add: codelet_same_def)
qed

lemma wf_member_below:
  assumes "core_wf ops ctx" "reg ops ctx sid = Some S"
  shows "S < clock (cx_maps ctx)" "p \<in> members ops S ctx \<Longrightarrow> p < clock (cx_maps ctx)"
proof -
  have u: "set_up ops ctx S" and f: "fresh_above ctx" using core_wfD(2,5) assms by blast+
  show "S < clock (cx_maps ctx)" using u f by (auto simp: set_up_def named_def fresh_above_def not_less [symmetric])
  show "p < clock (cx_maps ctx)" if "p \<in> members ops S ctx"
  proof -
    have "codelet_mem ctx p \<noteq> None" using u that by (auto simp: set_up_def)
    then show ?thesis using f by (auto simp: fresh_above_def not_less [symmetric])
  qed
qed

lemma wf_sound:
  assumes wf: "core_wf ops ctx"
  shows "sound {clock (cx_maps ctx)..} {} ctx"
proof -
  have "jbpf_codelet e \<notin> Suc ` {clock (cx_maps ctx)..}" if "e \<in> set (hook_chains ctx n)" for n e
    using core_wfD(1) [OF wf that] wf_member_below(2) [OF wf] by (fastforce simp: owned_def)
  then show ?thesis using wf by (auto simp: sound_def placed_def compiled_def core_wf_def)
qed

lemma sound_empty_chain:
  assumes "sound N {} ctx"
  shows "filter (\<lambda>e. jbpf_codelet e \<notin> Suc ` N) (hook_chains ctx n) = hook_chains ctx n"
  using placedD(1) [OF assms] by (fastforce simp: filter_id_conv)

lemma others_chains:
  assumes "sound N {} ctx" "sound N {} ctx'" "others_same N M ctx ctx'"
  shows "hook_chains ctx' = hook_chains ctx"
  using assms(3) sound_empty_chain [OF assms(1)] sound_empty_chain [OF assms(2)] by (auto simp: others_same_def)

text \<open>A failed load leaves everything registered as it was.\<close>

lemma wf_failed:
  assumes wf: "core_wf ops ctx" and o: "others_same N N ctx ctx'" "N = {clock (cx_maps ctx)..}" and s: "sound N {} ctx'"
  shows "core_wf ops ctx'"
proof -
  have r: "reg ops ctx' = reg ops ctx" using o(1) by (simp add: others_same_def reg_def)
  have dis: "S \<notin> N \<and> members ops S ctx \<inter> N = {}" if "reg ops ctx sid = Some S" for sid S
    using wf_member_below [OF wf that] o(2) by fastforce
  have up: "set_up ops ctx' S \<and> members ops S ctx' = members ops S ctx" if "reg ops ctx sid = Some S" for sid S
    using set_up_others [OF _ o(1)] dis [OF that] core_wfD(2) [OF wf that] by blast
  have "owned ops ctx' n e" if e: "e \<in> set (hook_chains ctx' n)" for n e
  proof -
    have "jbpf_codelet e \<notin> Suc ` N" using placedD(1) [OF s e] by blast
    then show ?thesis
      by (rule owned_others [OF e _ wf o(1)]) (use up r in \<open>fastforce simp: owned_def\<close>)
  qed
  then show ?thesis using up wf s r by (auto simp: core_wf_def sound_def)
qed

section \<open>Loading a set\<close>

lemma all_pass_true: "all_pass f is = Some True \<Longrightarrow> i \<in> set is \<Longrightarrow> f i = Some True"
  by (induction "is") (auto simp: Option.bind_eq_Some_conv split: if_splits)

lemma validated_codelets:
  assumes v: "validate_codeletset fe (Some req) = Some JBPF_CODELET_LOAD_SUCCESS"
  shows "distinct (map codelet_key (req_codelets req))" "length (req_codelets req) = nat (lr_num_codelet_descriptors req)"
    "\<forall>d\<in>set (req_codelets req). name_ok (d_codelet_name d) \<and> name_ok (d_hook_name d)"
proof -
  let ?n = "lr_num_codelet_descriptors req" and ?ds = "lr_codelet_descriptor req"
  have nz: "JBPF_CODELET_PARAM_INVALID \<noteq> JBPF_CODELET_LOAD_SUCCESS" by (simp add: load_codes)
  have 1: "all_pass (\<lambda>i. Option.bind (arr_get ?ds i) (validate_codelet fe)) (up_to ?n) = Some True"
    and 2: "all_pass (\<lambda>(i, j). do { d \<leftarrow> arr_get ?ds i; d' \<leftarrow> arr_get ?ds j; Some (d_codelet_name d \<noteq> d_codelet_name d') }) (pairs_up_to ?n) = Some True"
    using v nz unfolding validate_codeletset_def by (auto simp: Option.bind_eq_Some_conv split: if_splits)
  have d: "i < length ?ds \<and> name_ok (d_codelet_name (?ds ! i)) \<and> name_ok (d_hook_name (?ds ! i))" if "i < nat ?n" for i
  proof -
    have "Option.bind (arr_get ?ds i) (validate_codelet fe) = Some True"
      using all_pass_true [OF 1, of i] that by (simp add: up_to_def)
    then have i: "i < length ?ds" "validate_codelet fe (?ds ! i) = Some True" by (auto simp: arr_get_def split: if_splits)
    then show ?thesis
      by (auto simp: validate_codelet_def request_limits string_param_ok split: if_splits)
  qed
  then have len: "nat ?n \<le> length ?ds" by (meson not_le order_less_irrefl)
  then show l: "length (req_codelets req) = nat ?n" by (simp add: req_codelets_def)
  show ok: "\<forall>d\<in>set (req_codelets req). name_ok (d_codelet_name d) \<and> name_ok (d_hook_name d)"
    using d len by (auto simp: req_codelets_def in_set_conv_nth)
  have key: "codelet_key x = d_codelet_name x" if "x \<in> set (req_codelets req)" for x
    using ok that by (auto simp: name_ok_def request_limits)
  have "d_codelet_name (?ds ! i) \<noteq> d_codelet_name (?ds ! j)" if "i < j" "j < nat ?n" for i j
  proof -
    have "(i, j) \<in> set (pairs_up_to ?n)" using that by (force simp: pairs_up_to_def up_to_def)
    from all_pass_true [OF 2 this] show ?thesis by (auto simp: Option.bind_eq_Some_conv arr_get_def split: if_splits)
  qed
  then have "sorted_wrt (\<noteq>) (map d_codelet_name (req_codelets req))"
    using len by (auto simp: sorted_wrt_iff_nth_less req_codelets_def)
  then have "distinct (map d_codelet_name (req_codelets req))" by (simp only: sorted_wrt_neq)
  then show "distinct (map codelet_key (req_codelets req))" using key by (simp cong: map_cong)
qed

text \<open>How a load ends: before anything is changed, without memory for the set, or after the set was built.\<close>

lemma load_cases:
  assumes ht: "ck_ht_spec (ops_ht ops)" and wf: "core_wf ops ctx" and N: "N = {clock (cx_maps ctx)..}"
    and r: "jbpf_codeletset_load ops env load_req ctx = Some (r, ctx')"
  obtains (refused) "ctx' = ctx" "r \<noteq> 0"
  | (again) req where "load_req = Some req" "reg ops ctx (lr_codeletset_id req) \<noteq> None" "ctx' = ctx" "r = 0"
  | (no_memory) "core_same ctx ctx'" "r \<noteq> 0"
  | (built) req S ctx1 ctx2 where "load_req = Some req" "S = clock (cx_maps ctx)" "reg ops ctx (lr_codeletset_id req) = None"
      "validate_codeletset (\<lambda>f. ce_file env f \<noteq> None) load_req = Some JBPF_CODELET_LOAD_SUCCESS"
      "list_all (\<lambda>d. jbpf_hook_exists (d_hook_name d) ctx) (req_codelets req)"
      "building ops N S ctx1" "others_same N N ctx ctx1" "all_unloaded (members ops S ctx1) ctx1" "S < clock (cx_maps ctx1)"
      "tbl ops S ctx1 = Map.empty" "total_num_codelets ctx1 = total_num_codelets ctx"
      "build_codeletset ops env S (req_codelets req) ctx1 = Some (r, ctx2)"
      "if r \<noteq> 0 then undo_load ops env S ctx2 = Some ctx' else ctx' = ctx2\<lparr>codeletset_registry :=
             snd (ck_ht_put (ops_ht ops) (codeletset_registry ctx2) (lr_codeletset_id req) S)\<rparr>"
proof -
  have codes: "JBPF_CODELET_HOOK_NOT_EXIST \<noteq> 0" "JBPF_CODELET_CREATION_FAIL \<noteq> 0" "JBPF_CODELET_LOAD_FAIL \<noteq> 0" "JBPF_CODELET_LOAD_SUCCESS = 0"
    by (simp_all add: load_codes)
  obtain outcome where v: "validate_codeletset (\<lambda>f. ce_file env f \<noteq> None) load_req = Some outcome"
    using r by (auto simp: jbpf_codeletset_load_def Option.bind_eq_Some_conv)
  show thesis
  proof (cases "outcome \<noteq> JBPF_CODELET_LOAD_SUCCESS")
    case True
    then have "ctx' = ctx" "r \<noteq> 0" using r v codes by (auto simp: jbpf_codeletset_load_def)
    then show thesis by (rule refused)
  next
    case False
    then have v0: "validate_codeletset (\<lambda>f. ce_file env f \<noteq> None) load_req = Some JBPF_CODELET_LOAD_SUCCESS" using v by simp
    obtain req where req: "load_req = Some req" using r v False by (auto simp: jbpf_codeletset_load_def Option.bind_eq_Some_conv)
    obtain a c0 where a: "mem_alloc env ctx = (a, c0)" by fastforce
    note al = mem_alloc_spec [OF a]
    consider (no) "ctx' = ctx" "r \<noteq> 0" | (dup) "reg ops ctx (lr_codeletset_id req) \<noteq> None" "ctx' = ctx" "r = 0"
      | (mem) "a = None" "ctx' = c0" "r \<noteq> 0"
      | (go) S codelets table c1 c2 where "a = Some S" "reg ops ctx (lr_codeletset_id req) = None"
          "list_all (\<lambda>d. jbpf_hook_exists (d_hook_name d) ctx) (req_codelets req)"
          "ck_ht_init (ops_ht ops) JBPF_MAX_CODELETS_IN_CODELETSET = Some codelets"
          "jbpf_populate_linked_map_entries ops env req c0 = Some (table, c1)"
          "build_codeletset ops env S (req_codelets req) (c1\<lparr>set_mem := (set_mem c1)(S \<mapsto>
             \<lparr> s_codeletset_id = lr_codeletset_id req, s_codelets = codelets, s_linked_map_entries = table \<rparr>)\<rparr>) = Some (r, c2)"
          "if r \<noteq> 0 then undo_load ops env S c2 = Some ctx' else ctx' = c2\<lparr>codeletset_registry :=
             snd (ck_ht_put (ops_ht ops) (codeletset_registry c2) (lr_codeletset_id req) S)\<rparr>"
      using r a codes unfolding jbpf_codeletset_load_def v0 req Let_def reg_def
      by (auto simp: Option.bind_eq_Some_conv split: if_splits option.splits)
    then show thesis
    proof cases
      case no
      then show thesis by (rule refused)
    next
      case dup
      then show thesis by (rule again [OF req])
    next
      case mem
      then show thesis using al by (intro no_memory) auto
    next
      case go
      let ?c = "c1\<lparr>set_mem := (set_mem c1)(S \<mapsto> \<lparr> s_codeletset_id = lr_codeletset_id req, s_codelets = codelets, s_linked_map_entries = table \<rparr>)\<rparr>"
      have S: "S = clock (cx_maps ctx)" using al go(1) by simp
      have s1: "core_same ctx c1" using core_same_trans [OF _ populate_same [OF go(5)]] al by blast
      have "clock (cx_maps c0) \<le> clock (cx_maps c1)" using populate_same [OF go(5)] by (simp add: core_same_def)
      then have cl: "S < clock (cx_maps c1)" using al S by simp
      have I1: "sound N {} c1" using core_same_sound [OF s1 wf_sound [OF wf]] N by simp
      have emp: "ck_ht_get (ops_ht ops) codelets = Map.empty" by (rule ht_init [OF ht go(4)])
      have mem: "members ops S ?c = {}" "tbl ops S ?c = Map.empty" "named ops S ?c" using emp by (simp_all add: members_def tbl_def named_def)
      have "sound N {} ?c" using I1 sound_sets [OF cl] by blast
      then have B: "building ops N S ?c" using mem N cl s1 by (auto simp: building_def core_same_def)
      have os: "others_same N N ctx ?c" using core_same_others [OF s1, of N N] N S by (simp add: others_same_def)
      have tot: "total_num_codelets ?c = total_num_codelets ctx" using s1 by (simp add: core_same_def)
      show thesis
        by (rule built [OF req S go(2) v0 go(3) B os _ _ mem(2) tot go(6,7)]) (use mem(1) cl in \<open>simp_all add: all_unloaded_def\<close>)
    qed
  qed
qed

text \<open>The state after a successful load: the new set is registered and up, and everything else is as before.\<close>

lemma wf_loaded:
  assumes ht: "ck_ht_spec (ops_ht ops)" and put: "ht_put_ok ops" and wf: "core_wf ops ctx" and N: "N = {clock (cx_maps ctx)..}"
    and B: "building ops N S ctx2" and o: "others_same N N ctx ctx2" and S: "S = clock (cx_maps ctx)"
    and ld: "\<forall>p\<in>members ops S ctx2. \<exists>c. codelet_mem ctx2 p = Some c \<and> c_loaded c" and new: "reg ops ctx sid = None"
    and ctx': "ctx' = ctx2\<lparr>codeletset_registry := snd (ck_ht_put (ops_ht ops) (codeletset_registry ctx2) sid S)\<rparr>"
  shows "core_wf ops ctx' \<and> reg ops ctx' = (reg ops ctx)(sid \<mapsto> S)"
proof -
  have r2: "codeletset_registry ctx2 = codeletset_registry ctx" using o by (simp add: others_same_def)
  obtain ok h where h: "ck_ht_put (ops_ht ops) (codeletset_registry ctx) sid S = (ok, h)" by fastforce
  have "ok" using put new h unfolding ht_put_ok_def reg_def by (metis fst_conv)
  then have r': "reg ops ctx' = (reg ops ctx)(sid \<mapsto> S)" using ht_put [OF ht h] ctx' r2 h by (simp add: reg_def)
  have same: "members ops T ctx' = members ops T ctx2" "set_up ops ctx' T = set_up ops ctx2 T" "codelet_mem ctx' = codelet_mem ctx2"
    "hook_list ctx' = hook_list ctx2" for T
    using ctx' by (simp_all add: members_def set_up_def named_def)
  have I: "sound N (members ops S ctx2) ctx2" using B by (simp add: building_def)
  have dis: "T \<notin> N \<and> members ops T ctx \<inter> N = {}" if "reg ops ctx i = Some T" for i T
    using wf_member_below [OF wf that] N by fastforce
  have up: "set_up ops ctx2 T \<and> members ops T ctx2 = members ops T ctx" if "reg ops ctx i = Some T" for i T
    using set_up_others [OF _ o] dis [OF that] core_wfD(2) [OF wf that] by blast
  have upS: "set_up ops ctx2 S"
  proof -
    have "\<exists>c. codelet_mem ctx2 p = Some c \<and> c_codelet_fn c = Suc p \<and> c_loaded c \<and> hook_entry c p \<in> set (hook_chains ctx2 (c_hook_name c))"
      if p: "p \<in> members ops S ctx2" for p
    proof -
      obtain c where c: "codelet_mem ctx2 p = Some c" "c_loaded c" using ld p by blast
      moreover have "c_codelet_fn c = Suc p" using I p c(1) by (auto simp: sound_def compiled_def)
      ultimately show ?thesis using placedD(2) [OF I p c] by blast
    qed
    then show ?thesis using B by (simp add: set_up_def building_def)
  qed
  have "owned ops ctx' n e" if "e \<in> set (hook_chains ctx' n)" for n e
  proof (cases "jbpf_codelet e \<in> Suc ` N")
    case True
    have e: "e \<in> set (hook_chains ctx2 n)" using that same by simp
    from placedD(1) [OF I e True] show ?thesis unfolding owned_def r' same by (metis fun_upd_same)
  next
    case False
    have e: "e \<in> set (hook_chains ctx2 n)" using that same by simp
    show ?thesis
    proof (rule owned_others [OF e False wf o])
      fix i T p c c' assume a: "reg ops ctx i = Some T" "p \<in> members ops T ctx" "p \<notin> N" "codelet_mem ctx2 p = Some c'"
        "c_loaded c'" "c_hook_name c' = n" "e = hook_entry c' p"
      have "i \<noteq> sid" using a(1) new by auto
      then show ?thesis using a up [OF a(1)] unfolding owned_def r' same
        by (intro exI [of _ i] exI [of _ T] exI [of _ p] exI [of _ c']) simp
    qed
  qed
  moreover have "set_up ops ctx' T" if "reg ops ctx' i = Some T" for i T
    using that up upS r' same by (auto split: if_splits)
  moreover have "i = j" if "reg ops ctx' i = Some T" "reg ops ctx' j = Some T" for i j T
    using that dis S N core_wfD(3) [OF wf] unfolding r' by (auto split: if_splits)
  moreover have "hooks_ok (hook_list ctx') \<and> fresh_above ctx'" using I ctx' by (simp add: sound_def fresh_above_def)
  ultimately show ?thesis using r' unfolding core_wf_def by blast
qed

lemma core_same_wf: "core_same ctx ctx' \<Longrightarrow> core_wf ops ctx \<Longrightarrow> core_wf ops ctx'"
  by (rule wf_failed [OF _ core_same_others refl]) (auto intro: core_same_sound wf_sound)

text \<open>All that is said about a load.\<close>

lemma load_spec:
  assumes ht: "ck_ht_spec (ops_ht ops)" and put: "ht_put_ok ops" and wf: "core_wf ops ctx" and mem: "\<And>n. ce_hook_mem env n"
    and r: "jbpf_codeletset_load ops env load_req ctx = Some (r, ctx')"
  shows "core_wf ops ctx' \<and> map name (hook_list ctx') = map name (hook_list ctx)
    \<and> (r \<noteq> 0 \<longrightarrow> hook_chains ctx' = hook_chains ctx \<and> codeletset_registry ctx' = codeletset_registry ctx)
    \<and> (r = 0 \<longrightarrow> (\<exists>req. load_req = Some req \<and>
        (reg ops ctx (lr_codeletset_id req) \<noteq> None \<and> ctx' = ctx \<or>
         reg ops ctx (lr_codeletset_id req) = None \<and> reg ops ctx' = (reg ops ctx)(lr_codeletset_id req \<mapsto> clock (cx_maps ctx))
         \<and> total_num_codelets ctx' = total_num_codelets ctx + int (length (req_codelets req))
         \<and> (\<forall>n. filter (\<lambda>e. jbpf_codelet e \<le> clock (cx_maps ctx)) (hook_chains ctx' n) = hook_chains ctx n)
         \<and> (\<forall>p\<in>members ops (clock (cx_maps ctx)) ctx'. clock (cx_maps ctx) \<le> p)
         \<and> (\<forall>n. \<forall>e\<in>set (hook_chains ctx' n). clock (cx_maps ctx) < jbpf_codelet e \<longrightarrow>
              jbpf_codelet e \<in> Suc ` members ops (clock (cx_maps ctx)) ctx')
         \<and> dom (tbl ops (clock (cx_maps ctx)) ctx') = codelet_key ` set (req_codelets req)
         \<and> distinct (map codelet_key (req_codelets req))
         \<and> (\<forall>d\<in>set (req_codelets req). name_ok (d_codelet_name d) \<and> name_ok (d_hook_name d)
              \<and> jbpf_hook_exists (d_hook_name d) ctx \<and> has_codelet ops (clock (cx_maps ctx)) ctx' d))))"
proof -
  define N where "N = {clock (cx_maps ctx)..}"
  have sN: "jbpf_codelet e \<notin> Suc ` N \<longleftrightarrow> jbpf_codelet e \<le> clock (cx_maps ctx)" for e
  proof (cases "jbpf_codelet e")
    case (Suc k)
    then show ?thesis by (auto simp: N_def)
  qed auto
  show ?thesis
    using ht wf N_def r
  proof (cases rule: load_cases)
    case refused
    then show ?thesis using wf by simp
  next
    case again
    then show ?thesis using wf by simp
  next
    case no_memory
    then show ?thesis using core_same_wf [OF no_memory(1) wf] by (auto simp: core_same_def)
  next
    case (built req S ctx1 ctx2)
    have SN: "S \<in> N" using built(2) by (simp add: N_def)
    note b = build_codeletset_spec [OF ht built(6) SN built(9,12,8)]
    have B2: "building ops N S ctx2" using b by blast
    have o2: "others_same N N ctx ctx2" using others_same_trans [OF built(7)] b by blast
    show ?thesis
    proof (cases "r = 0")
      case False
      then have u: "undo_load ops env S ctx2 = Some ctx'" using built(13) by simp
      have us: "sound N {} ctx'" "others_same N N ctx2 ctx'"
        "total_num_codelets ctx' \<le> total_num_codelets ctx2"
        using undo_load_spec [OF ht B2 SN mem u] by simp_all
      have o': "others_same N N ctx ctx'" by (rule others_same_trans [OF o2 us(2)])
      have "hook_chains ctx' = hook_chains ctx" using others_chains [OF _ us(1) o'] wf_sound [OF wf] by (simp add: N_def)
      then show ?thesis using False wf_failed [OF wf o' N_def us(1)] o' by (simp add: others_same_def)
    next
      case True
      then have ctx': "ctx' = ctx2\<lparr>codeletset_registry := snd (ck_ht_put (ops_ht ops) (codeletset_registry ctx2) (lr_codeletset_id req) S)\<rparr>"
        using built(13) by simp
      note v = validated_codelets [OF built(4) [unfolded built(1)]]
      have ld: "\<forall>p\<in>members ops S ctx2. \<exists>c. codelet_mem ctx2 p = Some c \<and> c_loaded c"
        and tot: "total_num_codelets ctx2 = total_num_codelets ctx + int (length (req_codelets req))"
        and dm: "dom (tbl ops S ctx2) = codelet_key ` set (req_codelets req)" "\<forall>d\<in>set (req_codelets req). has_codelet ops S ctx2 d"
        using b True put v(1) built(10,11) by auto
      have w: "core_wf ops ctx'" "reg ops ctx' = (reg ops ctx)(lr_codeletset_id req \<mapsto> S)"
        using wf_loaded [OF ht put wf N_def B2 o2 built(2) ld built(3) ctx'] by auto
      have same: "members ops S ctx' = members ops S ctx2" "tbl ops S ctx' = tbl ops S ctx2" "hook_list ctx' = hook_list ctx2"
        "has_codelet ops S ctx' d = has_codelet ops S ctx2 d" "total_num_codelets ctx' = total_num_codelets ctx2" for d
        using ctx' by (simp_all add: members_def tbl_def has_codelet_def)
      have old: "filter (\<lambda>e. jbpf_codelet e \<le> clock (cx_maps ctx)) (hook_chains ctx' n) = hook_chains ctx n" for n
        using o2 sound_empty_chain [of N ctx n] wf_sound [OF wf] unfolding same others_same_def sN [symmetric] by (simp add: N_def)
      have I2: "sound N (members ops S ctx2) ctx2" "members ops S ctx2 \<subseteq> N" using B2 by (simp_all add: building_def)
      have mine: "jbpf_codelet e \<in> Suc ` members ops S ctx2" if "e \<in> set (hook_chains ctx2 n)" "clock (cx_maps ctx) < jbpf_codelet e" for n e
        using placedD(1) [OF I2(1) that(1)] sN [of e] that(2) by auto
      note clk = built(2) [symmetric]
      have "map name (hook_list ctx2) = map name (hook_list ctx)" using o2 by (simp add: others_same_def)
      then show ?thesis
        unfolding clk same
        using True w old [unfolded clk same] mine [unfolded clk] I2(2) [unfolded N_def clk] built(1,3,5) tot dm v
        by (auto simp: list_all_iff)
    qed
  qed
qed

section \<open>Unloading a set\<close>

lemma total_frame:
  "sound N P (ctx\<lparr>total_num_codelets := k\<rparr>) = sound N P ctx"
  "others_same N M x (ctx\<lparr>total_num_codelets := k\<rparr>) = others_same N M x ctx"
  by (simp_all add: sound_def placed_def compiled_def fresh_above_def others_same_def)

lemma unload_codelets_spec:
  assumes "unload_codelets env ps ctx = Some ctx'" "sound N (set ps) ctx" "set ps \<subseteq> N" "distinct ps"
    and mem: "\<And>n. ce_hook_mem env n"
  shows "sound N {} ctx' \<and> others_same N M ctx ctx' \<and> total_num_codelets ctx' = total_num_codelets ctx - int (length ps)
    \<and> set_mem ctx' = set_mem ctx"
  using assms(1-4)
proof (induction ps arbitrary: ctx)
  case (Cons p ps)
  have pN: "p \<in> set (p # ps)" "set (p # ps) \<subseteq> N" using Cons.prems by auto
  obtain r ctx0 where u: "jbpf_unload_codelet env p ctx = Some (r, ctx0)"
    and rest: "unload_codelets env ps (ctx0\<lparr>total_num_codelets := total_num_codelets ctx0 - 1\<rparr>) = Some ctx'"
    using Cons.prems(1) by (auto simp: Option.bind_eq_Some_conv)
  note st = unload_codelet_step [OF Cons.prems(2) pN mem u]
  then obtain hs where hs: "ctx0 = ctx\<lparr>hook_list := hs\<rparr>" by metis
  have rem: "set (p # ps) - {p} = set ps" using Cons.prems(4) by auto
  have 1: "sound N (set ps) ctx0" "others_same N M ctx ctx0"
    using removed_sound [OF Cons.prems(2) pN, of hs] removed_others [of p N hs ctx M] st pN rem hs by auto
  let ?ctx1 = "ctx0\<lparr>total_num_codelets := total_num_codelets ctx0 - 1\<rparr>"
  have "sound N {} ctx' \<and> others_same N M ?ctx1 ctx' \<and> total_num_codelets ctx' = total_num_codelets ?ctx1 - int (length ps)
      \<and> set_mem ctx' = set_mem ?ctx1"
    using Cons.IH [OF rest] 1(1) Cons.prems(3,4) by (simp add: total_frame)
  moreover have "others_same N M ctx ?ctx1" using 1(2) by (simp add: total_frame)
  ultimately show ?case using others_same_trans [of N M ctx ?ctx1 ctx'] hs by simp
qed simp

lemma destroy_codelets_spec:
  assumes "destroy_codelets ops ps ctx = Some ctx'" "sound N {} ctx" "set ps \<subseteq> N"
  shows "sound N {} ctx' \<and> others_same N M ctx ctx' \<and> total_num_codelets ctx' = total_num_codelets ctx"
  using assms
proof (induction ps arbitrary: ctx)
  case (Cons p ps)
  obtain ctx1 where 1: "jbpf_destroy_codelet ops p ctx = Some ctx1" "destroy_codelets ops ps ctx1 = Some ctx'"
    using Cons.prems(1) by (auto simp: Option.bind_eq_Some_conv)
  have st: "sound N {} ctx1" "others_same N M ctx ctx1" "total_num_codelets ctx1 = total_num_codelets ctx"
    using destroy_codelet_step [OF Cons.prems(2) _ _ 1(1), of M] Cons.prems(3) by simp_all
  show ?case using Cons.IH [OF 1(2) st(1)] Cons.prems(3) others_same_trans [OF st(2), of ctx'] st(3) by simp
qed simp

lemma wf_sound_members:
  assumes wf: "core_wf ops ctx" and S: "reg ops ctx sid = Some S"
  shows "sound (members ops S ctx) (members ops S ctx) ctx"
proof -
  have u: "set_up ops ctx S" by (rule core_wfD(2) [OF wf S])
  have "\<exists>p\<in>members ops S ctx. \<exists>c. codelet_mem ctx p = Some c \<and> c_loaded c \<and> c_hook_name c = n \<and> e = hook_entry c p"
    if "e \<in> set (hook_chains ctx n)" "jbpf_codelet e \<in> Suc ` members ops S ctx" for n e
    using core_wfD(1) [OF wf that(1)] that(2) unfolding owned_def by auto
  moreover have "hook_entry c p \<in> set (hook_chains ctx (c_hook_name c))"
    if "p \<in> members ops S ctx" "codelet_mem ctx p = Some c" for p c
    using u that by (auto simp: set_up_def)
  ultimately have "placed (members ops S ctx) (members ops S ctx) ctx" by (auto simp: placed_def)
  moreover have "compiled (members ops S ctx) ctx" using u by (fastforce simp: set_up_def compiled_def)
  ultimately show ?thesis using core_wfD(4,5) [OF wf] by (simp add: sound_def)
qed

lemma members_disjoint:
  assumes "set_up ops ctx S" "set_up ops ctx T" "S \<noteq> T"
  shows "members ops S ctx \<inter> members ops T ctx = {}"
proof -
  have "\<exists>c. codelet_mem ctx p = Some c \<and> c_codeletset c = U" if U: "set_up ops ctx U" and p: "p \<in> members ops U ctx" for p U
  proof -
    obtain n where "tbl ops U ctx n = Some p" using p by (auto simp: tbl_members ran_def)
    then show ?thesis using named_key U unfolding set_up_def by blast
  qed
  note own = this
  show ?thesis
  proof (rule ccontr)
    assume "members ops S ctx \<inter> members ops T ctx \<noteq> {}"
    then obtain p where "p \<in> members ops S ctx" "p \<in> members ops T ctx" by blast
    then show False using own [OF assms(1)] own [OF assms(2)] assms(3) by force
  qed
qed

lemma unload_spec:
  assumes ht: "ck_ht_spec (ops_ht ops)" and wf: "core_wf ops ctx" and mem: "\<And>n. ce_hook_mem env n"
    and r: "jbpf_codeletset_unload ops env unload_req ctx = Some (r, ctx')"
  shows "core_wf ops ctx' \<and> map name (hook_list ctx') = map name (hook_list ctx) \<and> (r \<noteq> 0 \<longrightarrow> ctx' = ctx)
    \<and> (r = 0 \<longrightarrow> (\<exists>sid S. unload_req = Some sid \<and> reg ops ctx sid = Some S \<and> reg ops ctx' = (reg ops ctx)(sid := None)
        \<and> (\<forall>n. hook_chains ctx' n = filter (\<lambda>e. jbpf_codelet e \<notin> Suc ` members ops S ctx) (hook_chains ctx n))
        \<and> total_num_codelets ctx' = total_num_codelets ctx - int (card (members ops S ctx)) \<and> set_mem ctx' S = None))"
proof -
  have codes: "JBPF_CODELET_UNLOAD_FAIL \<noteq> 0" "JBPF_CODELET_PARAM_INVALID \<noteq> 0" "JBPF_CODELET_UNLOAD_SUCCESS = 0"
    by (simp_all add: load_codes)
  show ?thesis
  proof (cases "r \<noteq> 0 \<and> ctx' = ctx")
    case True
    then show ?thesis using wf by simp
  next
    case False
    then obtain sid S where sid: "unload_req = Some sid" "reg ops ctx sid = Some S"
      using r codes unfolding jbpf_codeletset_unload_def reg_def by (auto split: option.splits if_splits)
    obtain st where st: "set_mem ctx S = Some st" using core_wfD(2) [OF wf sid(2)] by (auto simp: set_up_def named_def)
    let ?ps = "map snd (ck_ht_entries (ops_ht ops) (s_codelets st))" and ?N = "members ops S ctx"
    obtain ctx1 ctx2 where 1: "unload_codelets env ?ps ctx = Some ctx1" and 2: "destroy_codelets ops ?ps ctx1 = Some ctx2"
      and r0: "r = 0" and ctx': "ctx' = ctx2\<lparr>codeletset_registry := snd (ck_ht_remove (ops_ht ops) (codeletset_registry ctx2) sid),
                set_mem := (set_mem ctx2)(S := None)\<rparr>"
      using r sid st codes False unfolding jbpf_codeletset_unload_def reg_def
      by (auto simp: Option.bind_eq_Some_conv Let_def split: if_splits)
    have u: "set_up ops ctx S" by (rule core_wfD(2) [OF wf sid(2)])
    then have nm: "named ops S ctx" by (simp add: set_up_def)
    note ps = entries_members [OF ht nm st]
    note I = wf_sound_members [OF wf sid(2)]
    have s1: "sound ?N {} ctx1" "others_same ?N {S} ctx ctx1" "total_num_codelets ctx1 = total_num_codelets ctx - int (card ?N)"
      using unload_codelets_spec [OF 1 _ _ ps(2) mem, of ?N "{S}"] I ps(1) distinct_card [OF ps(2)] by simp_all
    have s2: "sound ?N {} ctx2" "others_same ?N {S} ctx1 ctx2" "total_num_codelets ctx2 = total_num_codelets ctx1"
      using destroy_codelets_spec [OF 2 s1(1), of "{S}"] ps(1) by simp_all
    have o2: "others_same ?N {S} ctx ctx2" by (rule others_same_trans [OF s1(2) s2(2)])
    have ch: "hook_chains ctx' n = filter (\<lambda>e. jbpf_codelet e \<notin> Suc ` ?N) (hook_chains ctx n)" for n
      using o2 sound_empty_chain [OF s2(1)] ctx' by (simp add: others_same_def)
    have rr: "codeletset_registry ctx2 = codeletset_registry ctx" using o2 by (simp add: others_same_def)
    have r': "reg ops ctx' = (reg ops ctx)(sid := None)"
      using ht_remove [OF ht, of "codeletset_registry ctx" sid] ctx' rr by (cases "ck_ht_remove (ops_ht ops) (codeletset_registry ctx) sid") (simp add: reg_def)
    define o' where "o' = others_same ?N {S} ctx (ctx'\<lparr>codeletset_registry := codeletset_registry ctx\<rparr>)"
    have "o'" using o2 ctx' rr by (simp add: o'_def others_same_def)
    then have o3: "others_same ?N {S} ctx (ctx'\<lparr>codeletset_registry := codeletset_registry ctx\<rparr>)" by (simp add: o'_def)
    have same: "set_up ops (ctx'\<lparr>codeletset_registry := x\<rparr>) T = set_up ops ctx' T" "members ops T (ctx'\<lparr>codeletset_registry := x\<rparr>) = members ops T ctx'" for T x
      by (simp_all add: set_up_def named_def members_def)
    have up: "set_up ops ctx' T \<and> members ops T ctx' = members ops T ctx" if "reg ops ctx i = Some T" "i \<noteq> sid" for i T
    proof -
      have T: "T \<noteq> S" using core_wfD(3) [OF wf that(1), of sid] sid(2) that(2) by blast
      have uT: "set_up ops ctx T" by (rule core_wfD(2) [OF wf that(1)])
      show ?thesis using set_up_others [OF uT o3] T members_disjoint [OF uT u T] same by simp
    qed
    have "owned ops ctx' n e" if "e \<in> set (hook_chains ctx' n)" for n e
    proof -
      have eN: "jbpf_codelet e \<notin> Suc ` ?N" using that ch by auto
      have e: "e \<in> set (hook_chains (ctx'\<lparr>codeletset_registry := codeletset_registry ctx\<rparr>) n)" using that by simp
      show ?thesis
      proof (rule owned_others [OF e eN wf o3])
        fix i T p c c' assume a: "reg ops ctx i = Some T" "p \<in> members ops T ctx" "p \<notin> ?N"
          "codelet_mem (ctx'\<lparr>codeletset_registry := codeletset_registry ctx\<rparr>) p = Some c'" "c_loaded c'" "c_hook_name c' = n" "e = hook_entry c' p"
        have i: "i \<noteq> sid" using a(1,2,3) sid(2) by auto
        show ?thesis using a i up [OF a(1) i] unfolding owned_def r'
          by (intro exI [of _ i] exI [of _ T] exI [of _ p] exI [of _ c']) simp
      qed
    qed
    moreover have "set_up ops ctx' T" if "reg ops ctx' i = Some T" for i T
      using that up [of i T] by (auto simp: r' split: if_splits)
    moreover have "i = j" if "reg ops ctx' i = Some T" "reg ops ctx' j = Some T" for i j T
      using that core_wfD(3) [OF wf, of i T j] by (auto simp: r' split: if_splits)
    moreover have "hooks_ok (hook_list ctx') \<and> fresh_above ctx'" using s2(1) ctx' by (simp add: sound_def fresh_above_def)
    ultimately have "core_wf ops ctx'" unfolding core_wf_def by blast
    moreover have "map name (hook_list ctx') = map name (hook_list ctx)" using o2 ctx' by (simp add: others_same_def)
    ultimately show ?thesis using r0 sid r' ch s2(3) s1(3) ctx' by simp
  qed
qed

section \<open>Histories of requests\<close>

text \<open>The state after the start: the hooks have no codelets, and there are no sets.\<close>

definition core_init :: "('h, 'r) core_ops \<Rightarrow> (string \<times> hook_type) list \<Rightarrow> ('h, 'r) jbpf_ctx \<Rightarrow> bool" where
  "core_init ops hooks ctx \<longleftrightarrow> hook_list ctx = map (\<lambda>(n, ty). DEFINE_JBPF_HOOK n ty) hooks \<and> distinct (map (\<lambda>(n, ty). c_string n) hooks)
    \<and> codelet_mem ctx = Map.empty \<and> set_mem ctx = Map.empty \<and> reg ops ctx = Map.empty"

text \<open>The states that requests lead to, as long as there is memory for the arrays of the hooks.\<close>

inductive lcm_reach :: "('h, 'r) core_ops \<Rightarrow> ('h, 'r) jbpf_ctx \<Rightarrow> bool" for ops where
  boot: "core_init ops hooks ctx \<Longrightarrow> lcm_reach ops ctx"
| load: "lcm_reach ops ctx \<Longrightarrow> (\<And>n. ce_hook_mem env n) \<Longrightarrow> jbpf_codeletset_load ops env load_req ctx = Some (r, ctx') \<Longrightarrow> lcm_reach ops ctx'"
| unload: "lcm_reach ops ctx \<Longrightarrow> (\<And>n. ce_hook_mem env n) \<Longrightarrow> jbpf_codeletset_unload ops env unload_req ctx = Some (r, ctx') \<Longrightarrow> lcm_reach ops ctx'"

lemma chain_of_hook:
  assumes "hooks_ok hs" "h \<in> set hs"
  shows "chain_of hs (c_string (name h)) = hook_chain h"
proof -
  obtain xs ys where hs: "hs = xs @ h # ys" using split_list [OF assms(2)] by blast
  have "c_string (name h) \<notin> (\<lambda>h. c_string (name h)) ` set xs" using assms(1) hs by (auto simp: hooks_ok_def)
  then show ?thesis using chain_of_split(1) [of "c_string (name h)" xs h h ys] hs by simp
qed

lemma chain_of_mem:
  assumes "e \<in> set (chain_of hs n)"
  obtains h where "h \<in> set hs" "c_string (name h) = n" "e \<in> set (hook_chain h)"
proof -
  obtain h where h: "find (\<lambda>h. c_string (name h) = n) hs = Some h" "e \<in> set (hook_chain h)"
    using assms by (cases "find (\<lambda>h. c_string (name h) = n) hs") (auto simp: chain_of_def)
  have "h \<in> set hs \<and> c_string (name h) = n" using h(1) by (auto simp: find_Some_iff)
  then show thesis using that h(2) by blast
qed

lemma core_init_wf: "core_init ops hooks ctx \<Longrightarrow> core_wf ops ctx"
proof -
  assume i: "core_init ops hooks ctx"
  have c: "hook_chain (DEFINE_JBPF_HOOK n ty) = []" for n ty by (simp add: DEFINE_JBPF_HOOK_def hook_chain_def)
  have nm: "name (DEFINE_JBPF_HOOK n ty) = n" for n ty by (simp add: DEFINE_JBPF_HOOK_def)
  have ok: "hooks_ok (hook_list ctx)"
    using i by (auto simp: core_init_def hooks_ok_def list_all_iff define_hook_wf comp_def split_def nm)
  have "e \<notin> set (hook_chains ctx n)" for n e
  proof
    assume "e \<in> set (hook_chains ctx n)"
    then show False by (rule chain_of_mem) (use i c in \<open>auto simp: core_init_def\<close>)
  qed
  then show ?thesis using i ok by (auto simp: core_wf_def core_init_def fresh_above_def)
qed

lemma reach_wf:
  assumes "lcm_reach ops ctx" "ck_ht_spec (ops_ht ops)" "ht_put_ok ops"
  shows "core_wf ops ctx"
  using assms
proof (induction rule: lcm_reach.induct)
  case (boot hooks ctx)
  then show ?case by (simp add: core_init_wf)
next
  case (load ctx env load_req r ctx')
  show ?case using load_spec [OF load.prems load.IH [OF load.prems] load.hyps(2,3)] by blast
next
  case (unload ctx env unload_req r ctx')
  show ?case using unload_spec [OF unload.prems(1) unload.IH [OF unload.prems] unload.hyps(2,3)] by blast
qed

lemma same_chains:
  fixes ctx ctx' :: "('h, 'r) jbpf_ctx"
  assumes "hooks_ok (hook_list ctx)" "hooks_ok (hook_list ctx')" "map name (hook_list ctx') = map name (hook_list ctx)"
    "hook_chains ctx' = hook_chains ctx"
  shows "map hook_chain (hook_list ctx') = map hook_chain (hook_list ctx)"
proof -
  have 1: "map hook_chain (hook_list c) = map (\<lambda>n. hook_chains c (c_string n)) (map name (hook_list c))" if "hooks_ok (hook_list c)" for c :: "('h, 'r) jbpf_ctx"
    using chain_of_hook [OF that] by simp
  show ?thesis unfolding 1 [OF assms(1)] 1 [OF assms(2)] assms(3,4) ..
qed

text \<open>A concrete machine: the hash table is an association list, the only file is a codelet without maps, and there
  is one hook.\<close>

definition wit_core_env :: core_env where
  "wit_core_env = \<lparr> ce_mem = wit_map_env, ce_file = (\<lambda>f. if f = [112] then Some [1] else None), ce_vm = (\<lambda>_. True), ce_relocs = (\<lambda>_. []),
     ce_load = (\<lambda>_. True), ce_compile = (\<lambda>_. True), ce_hook_mem = (\<lambda>_. True) \<rparr>"

definition wit_ctx :: "((bytes \<times> nat) list, nat list \<times> nat) jbpf_ctx" where
  "wit_ctx = \<lparr> cx_maps = wit_maps, linked_mem = Map.empty, codelet_mem = Map.empty, set_mem = Map.empty,
     codeletset_registry = [], total_num_codelets = 0, hook_list = [DEFINE_JBPF_HOOK ''h'' JBPF_HOOK_TYPE_MON] \<rparr>"

lemma wit_core:
  shows wit_ops_spec: "ck_ht_spec (ops_ht wit_ops)" and wit_put: "ht_put_ok wit_ops" and wit_boot: "lcm_reach wit_ops wit_ctx"
    and wit_hook_mem: "ce_hook_mem wit_core_env n"
proof -
  show "ck_ht_spec (ops_ht wit_ops)" by (simp add: wit_ops_def alist_ht_spec)
  show "ht_put_ok wit_ops" by (simp add: ht_put_ok_def wit_ops_def alist_ht_def)
  have "core_init wit_ops [(''h'', JBPF_HOOK_TYPE_MON)] wit_ctx"
    by (simp add: core_init_def wit_ctx_def reg_def wit_ops_def alist_ht_def)
  then show "lcm_reach wit_ops wit_ctx" by (rule lcm_reach.boot)
  show "ce_hook_mem wit_core_env n" by (simp add: wit_core_env_def)
qed

lemma wit_load:
  obtains ctx where "jbpf_codeletset_load wit_ops wit_core_env (Some (wit_load_req wit_desc)) wit_ctx = Some (JBPF_CODELET_LOAD_SUCCESS, ctx)"
    "map (length \<circ> hook_chain) (hook_list ctx) = [1]" "jbpf_codeletset_unload wit_ops wit_core_env (Some [115]) ctx \<noteq> None"
proof -
  have "map_option (\<lambda>(r, ctx). (r, map (length \<circ> hook_chain) (hook_list ctx), jbpf_codeletset_unload wit_ops wit_core_env (Some [115]) ctx = None))
      (jbpf_codeletset_load wit_ops wit_core_env (Some (wit_load_req wit_desc)) wit_ctx) = Some (JBPF_CODELET_LOAD_SUCCESS, [1], False)"
    by code_simp
  then show thesis using that by auto
qed

section \<open>Properties\<close>







end
