(* ===== verification/Load_Faults.thy ===== *)
theory Load_Faults
  imports Load_Unload
begin

text \<open>
  What goes wrong in loading and unloading of codelet sets: the counter of the codelets after failed loads, the
  unload that runs out of memory, and links that no codelet uses.
\<close>

section \<open>Codelets without maps\<close>

text \<open>A codelet that can be created and has neither maps nor channels.\<close>

definition plain_codelet :: "core_env \<Rightarrow> jbpf_codelet_descriptor \<Rightarrow> bool" where
  "plain_codelet env d \<longleftrightarrow> d_num_in_io_channel d = 0 \<and> d_num_out_io_channel d = 0 \<and> (\<exists>obj. ce_file env (d_codelet_path d) = Some obj
    \<and> ce_relocs env obj = [] \<and> ce_load env obj \<and> ce_compile env obj)"

text \<open>There is memory for the structures of the core.\<close>

definition core_memory :: "('h, 'r) core_ops \<Rightarrow> core_env \<Rightarrow> bool" where
  "core_memory ops env \<longleftrightarrow> (\<forall>p. me_ok (ce_mem env p) \<and> ce_vm env p) \<and> (\<forall>n. ck_ht_init (ops_ht ops) n \<noteq> None)"

lemma core_alloc:
  "core_memory ops env \<Longrightarrow> mem_alloc env ctx = (Some (clock (cx_maps ctx)), ctx\<lparr>cx_maps := (cx_maps ctx)\<lparr>clock := Suc (clock (cx_maps ctx))\<rparr>\<rparr>)"
  by (simp add: core_memory_def mem_alloc_def Let_def)

lemma plain_add:
  assumes m: "core_memory ops env" and d: "plain_codelet env d" and st: "set_mem ctx S = Some st"
  obtains c h where "ck_ht_init (ops_ht ops) JBPF_MAX_CODELET_MAPS = Some h" "c_maps c = h" "\<not> c_loaded c"
    "jbpf_add_codelet_to_codeletset ops env S d ctx = Some (True, ctx\<lparr>cx_maps := (cx_maps ctx)\<lparr>clock := Suc (clock (cx_maps ctx))\<rparr>,
      codelet_mem := (codelet_mem ctx)(clock (cx_maps ctx) \<mapsto> c),
      set_mem := (set_mem ctx)(S \<mapsto> st\<lparr>s_codelets := snd (ck_ht_put (ops_ht ops) (s_codelets st) (c_name c) (clock (cx_maps ctx)))\<rparr>)\<rparr>)"
proof -
  obtain h where h: "ck_ht_init (ops_ht ops) JBPF_MAX_CODELET_MAPS = Some h" using m by (auto simp: core_memory_def)
  obtain obj where obj: "ce_file env (d_codelet_path d) = Some obj" "ce_relocs env obj = []" "ce_load env obj" "ce_compile env obj"
    using d by (auto simp: plain_codelet_def)
  let ?k = "clock (cx_maps ctx)"
  let ?c = "\<lparr> c_codelet_fn = Suc ?k, c_maps = h, c_name = take (JBPF_CODELET_NAME_LEN - 1) (d_codelet_name d),
      c_hook_name = take (JBPF_HOOK_NAME_LEN - 1) (d_hook_name d), c_priority = d_priority d,
      c_e_runtime_threshold = d_runtime_threshold d, c_codeletset = S, c_loaded = False, c_relocation_error = False \<rparr>"
  have ch: "in_channels d = []" "out_channels d = []" "\<not> d_num_in_io_channel d > int JBPF_MAX_IO_CHANNEL" "\<not> d_num_out_io_channel d > int JBPF_MAX_IO_CHANNEL"
    using d by (simp_all add: plain_codelet_def in_channels_def out_channels_def)
  have vm: "ce_vm env ?k" using m by (simp add: core_memory_def)
  have "jbpf_create_codelet_from_files ops env S d ctx = Some (Some ?k, ctx\<lparr>cx_maps := (cx_maps ctx)\<lparr>clock := Suc ?k\<rparr>,
      codelet_mem := (codelet_mem ctx)(?k \<mapsto> ?c)\<rparr>)"
    using h obj ch vm by (simp add: jbpf_create_codelet_from_files_def jbpf_create_codelet_def core_alloc [OF m])
  then have "jbpf_add_codelet_to_codeletset ops env S d ctx = Some (True, ctx\<lparr>cx_maps := (cx_maps ctx)\<lparr>clock := Suc ?k\<rparr>,
      codelet_mem := (codelet_mem ctx)(?k \<mapsto> ?c),
      set_mem := (set_mem ctx)(S \<mapsto> st\<lparr>s_codelets := snd (ck_ht_put (ops_ht ops) (s_codelets st) (c_name ?c) ?k)\<rparr>)\<rparr>)"
    using st by (simp add: jbpf_add_codelet_to_codeletset_def)
  then show thesis by (rule that [OF h, of ?c, rotated 2]) simp_all
qed

lemma empty_entries:
  assumes "ck_ht_spec ck" "ck_ht_get ck h = Map.empty"
  shows "ck_ht_entries ck h = []"
  using ht_entries(2) [OF assms(1), of h] assms(2) by simp

lemma singleton_entries:
  assumes ht: "ck_ht_spec ck" and g: "ck_ht_get ck h = [k \<mapsto> v]"
  shows "ck_ht_entries ck h = [(k, v)]"
proof -
  let ?es = "ck_ht_entries ck h"
  note e = ht_entries [OF ht, of h]
  have "x = (k, v)" if "x \<in> set ?es" for x
    using that e g map_of_is_SomeI [OF e(1), of "fst x" "snd x"] by (cases x) (auto split: if_splits)
  moreover have "(k, v) \<in> set ?es" using e(2) g by (intro map_of_SomeD) simp
  ultimately have "set ?es = {(k, v)}" by blast
  moreover have "distinct ?es" using e(1) by (simp add: distinct_map)
  ultimately have "set ?es = {(k, v)}" "length ?es = 1" using distinct_card [of ?es] by simp_all
  then show ?thesis by (cases ?es) auto
qed

section \<open>Failed loads\<close>

text \<open>The request of two codelets, of which the second has no file.\<close>

lemma leak_step:
  assumes ht: "ck_ht_spec (ops_ht ops)" and m: "core_memory ops env"
    and v: "validate_codeletset (\<lambda>f. ce_file env f \<noteq> None) (Some req) = Some JBPF_CODELET_LOAD_SUCCESS"
    and ds: "req_codelets req = [d1, d2]" "req_links req = []"
    and hk: "jbpf_hook_exists (d_hook_name d1) ctx" "jbpf_hook_exists (d_hook_name d2) ctx"
    and reg: "ck_ht_count (ops_ht ops) (codeletset_registry ctx) < JBPF_MAX_LOADED_CODELETSETS" "reg ops ctx (lr_codeletset_id req) = None"
    and tot: "total_num_codelets ctx \<le> 62"
    and pl: "plain_codelet env d1" and nf: "ce_file env (d_codelet_path d2) = None"
  obtains ctx' where "jbpf_codeletset_load ops env (Some req) ctx = Some (JBPF_CODELET_CREATION_FAIL, ctx')"
    "hook_list ctx' = hook_list ctx" "codeletset_registry ctx' = codeletset_registry ctx"
    "total_num_codelets ctx' = total_num_codelets ctx + 1"
proof -
  have num: "lr_num_codelet_descriptors req = 2" using validated_codelets(2) [OF v] ds by auto
  let ?k = "clock (cx_maps ctx)"
  let ?c0 = "ctx\<lparr>cx_maps := (cx_maps ctx)\<lparr>clock := Suc ?k\<rparr>\<rparr>"
  obtain cs lt where init: "ck_ht_init (ops_ht ops) JBPF_MAX_CODELETS_IN_CODELETSET = Some cs" "ck_ht_init (ops_ht ops) JBPF_MAX_CODELET_MAPS = Some lt"
    using m unfolding core_memory_def by (meson option.exhaust)
  have emp: "ck_ht_get (ops_ht ops) cs = Map.empty" "ck_ht_entries (ops_ht ops) lt = []"
    using ht_init [OF ht init(1)] empty_entries [OF ht ht_init [OF ht init(2)]] by simp_all
  let ?st = "\<lparr> s_codeletset_id = lr_codeletset_id req, s_codelets = cs, s_linked_map_entries = lt \<rparr>"
  let ?c1 = "?c0\<lparr>set_mem := (set_mem ctx)(?k \<mapsto> ?st)\<rparr>"
  have pop: "jbpf_populate_linked_map_entries ops env req ?c0 = Some (lt, ?c0)"
    using init ds by (simp add: jbpf_populate_linked_map_entries_def)
  have st: "set_mem ?c1 ?k = Some ?st" by simp
  obtain c h where c0: "ck_ht_init (ops_ht ops) JBPF_MAX_CODELET_MAPS = Some h" "c_maps c = h" "\<not> c_loaded c"
    and add: "jbpf_add_codelet_to_codeletset ops env ?k d1 ?c1 = Some (True, ?c1\<lparr>cx_maps := (cx_maps ?c1)\<lparr>clock := Suc (clock (cx_maps ?c1))\<rparr>,
      codelet_mem := (codelet_mem ?c1)(clock (cx_maps ?c1) \<mapsto> c),
      set_mem := (set_mem ?c1)(?k \<mapsto> ?st\<lparr>s_codelets := snd (ck_ht_put (ops_ht ops) (s_codelets ?st) (c_name c) (clock (cx_maps ?c1)))\<rparr>)\<rparr>)"
    by (rule plain_add [OF m pl st])
  have c: "c_maps c = lt" "\<not> c_loaded c" using c0 init(2) by simp_all
  let ?h = "snd (ck_ht_put (ops_ht ops) cs (c_name c) (Suc ?k))"
  let ?c2 = "ctx\<lparr>cx_maps := (cx_maps ctx)\<lparr>clock := Suc (Suc ?k)\<rparr>, codelet_mem := (codelet_mem ctx)(Suc ?k \<mapsto> c),
      set_mem := (set_mem ctx)(?k \<mapsto> ?st\<lparr>s_codelets := ?h\<rparr>), total_num_codelets := total_num_codelets ctx + 1\<rparr>"
  have fail: "jbpf_add_codelet_to_codeletset ops env ?k d2 x = Some (False, x)" for x
    using nf by (simp add: jbpf_add_codelet_to_codeletset_def jbpf_create_codelet_from_files_def)
  have build: "build_codeletset ops env ?k (req_codelets req) ?c1 = Some (JBPF_CODELET_CREATION_FAIL, ?c2)"
    using add by (simp add: build_codeletset_def ds fail)
  have entries: "map snd (ck_ht_entries (ops_ht ops) ?h) \<in> {[], [Suc ?k]}"
  proof (cases "ck_ht_put (ops_ht ops) cs (c_name c) (Suc ?k)")
    case (Pair ok h')
    from ht_put [OF ht this] have "ck_ht_get (ops_ht ops) h' = [c_name c \<mapsto> Suc ?k] \<or> ck_ht_get (ops_ht ops) h' = Map.empty"
      using emp(1) by (auto split: if_splits)
    then show ?thesis using Pair singleton_entries [OF ht, of h'] empty_entries [OF ht, of h'] by auto
  qed
  have destroy: "jbpf_destroy_codelet ops (Suc ?k) ?c2 = Some (free_codelet (Suc ?k) ?c2)"
    using c emp(2) by (simp add: jbpf_destroy_codelet_def jbpf_destroy_codelet_maps_def)
  have undo: "\<exists>cm. undo_codelets ops env (map snd (ck_ht_entries (ops_ht ops) ?h)) ?c2 = Some (?c2\<lparr>codelet_mem := cm\<rparr>)"
  proof (cases "map snd (ck_ht_entries (ops_ht ops) ?h) = []")
    case True
    then show ?thesis by (intro exI [of _ "codelet_mem ?c2"]) simp
  next
    case False
    then have "map snd (ck_ht_entries (ops_ht ops) ?h) = [Suc ?k]" using entries by auto
    then show ?thesis using c destroy by (simp add: free_codelet_def) blast
  qed
  then obtain cm where cm: "undo_codelets ops env (map snd (ck_ht_entries (ops_ht ops) ?h)) ?c2 = Some (?c2\<lparr>codelet_mem := cm\<rparr>)" by blast
  have ul: "undo_load ops env ?k ?c2 = Some (?c2\<lparr>codelet_mem := cm, set_mem := (set_mem ctx)(?k := None)\<rparr>)"
    using cm emp(2) by (simp add: undo_load_def)
  have "jbpf_codeletset_load ops env (Some req) ctx = Some (JBPF_CODELET_CREATION_FAIL, ?c2\<lparr>codelet_mem := cm, set_mem := (set_mem ctx)(?k := None)\<rparr>)"
    using v hk reg tot num init pop build ul core_alloc [OF m, of ctx]
    by (simp add: jbpf_codeletset_load_def ds reg_def JBPF_MAX_LOADED_CODELETS_def JBPF_MAX_CODELETS_IN_CODELETSET_def load_codes)
  then show thesis by (rule that) simp_all
qed

text \<open>The same request again and again.\<close>

fun load_times :: "('h, 'r) core_ops \<Rightarrow> core_env \<Rightarrow> jbpf_codeletset_load_req \<Rightarrow> nat \<Rightarrow> ('h, 'r) jbpf_ctx \<Rightarrow> (int list \<times> ('h, 'r) jbpf_ctx) option" where
  "load_times ops env req 0 ctx = Some ([], ctx)"
| "load_times ops env req (Suc k) ctx = do {
     (r, ctx) \<leftarrow> jbpf_codeletset_load ops env (Some req) ctx;
     (rs, ctx) \<leftarrow> load_times ops env req k ctx;
     Some (r # rs, ctx)
   }"

lemma hook_exists_cong: "hook_list ctx' = hook_list ctx \<Longrightarrow> jbpf_hook_exists n ctx' = jbpf_hook_exists n ctx"
  by (simp add: jbpf_hook_exists_def)

lemma leak_times:
  assumes ht: "ck_ht_spec (ops_ht ops)" and m: "core_memory ops env"
    and v: "validate_codeletset (\<lambda>f. ce_file env f \<noteq> None) (Some req) = Some JBPF_CODELET_LOAD_SUCCESS"
    and ds: "req_codelets req = [d1, d2]" "req_links req = []"
    and pl: "plain_codelet env d1" and nf: "ce_file env (d_codelet_path d2) = None"
    and hk: "jbpf_hook_exists (d_hook_name d1) ctx" "jbpf_hook_exists (d_hook_name d2) ctx"
    and reg: "ck_ht_count (ops_ht ops) (codeletset_registry ctx) < JBPF_MAX_LOADED_CODELETSETS" "reg ops ctx (lr_codeletset_id req) = None"
    and tot: "total_num_codelets ctx + int k \<le> 63"
  shows "\<exists>ctx'. load_times ops env req k ctx = Some (replicate k JBPF_CODELET_CREATION_FAIL, ctx') \<and> hook_list ctx' = hook_list ctx
    \<and> codeletset_registry ctx' = codeletset_registry ctx \<and> total_num_codelets ctx' = total_num_codelets ctx + int k"
  using hk reg tot
proof (induction k arbitrary: ctx)
  case (Suc k)
  have "total_num_codelets ctx \<le> 62" using Suc.prems(5) by simp
  then obtain ctx1 where 1: "jbpf_codeletset_load ops env (Some req) ctx = Some (JBPF_CODELET_CREATION_FAIL, ctx1)"
    "hook_list ctx1 = hook_list ctx" "codeletset_registry ctx1 = codeletset_registry ctx" "total_num_codelets ctx1 = total_num_codelets ctx + 1"
    by (rule leak_step [OF ht m v ds Suc.prems(1-4) _ pl nf])
  have "\<exists>ctx'. load_times ops env req k ctx1 = Some (replicate k JBPF_CODELET_CREATION_FAIL, ctx') \<and> hook_list ctx' = hook_list ctx1
    \<and> codeletset_registry ctx' = codeletset_registry ctx1 \<and> total_num_codelets ctx' = total_num_codelets ctx1 + int k"
    using Suc.prems 1 by (intro Suc.IH) (simp_all add: hook_exists_cong [OF 1(2)] reg_def)
  then show ?case using 1 by auto
qed simp

text \<open>C22: Failed loads use up the codelets.  A load that fails at its second codelet because the file cannot be read leaves
  the first one counted, although it is destroyed.  After 63 such loads, all of which are reported as failed and none of
  which leaves anything on a hook or in the registry, every valid request for a new set of two or
  more codelets is refused with \<open>JBPF_CODELET_CREATION_FAIL\<close>, whatever the files and the memory.\<close>

theorem failed_loads_exhaust_codelets:
  assumes "ck_ht_spec (ops_ht ops)" and "core_memory ops env"
    and "validate_codeletset (\<lambda>f. ce_file env f \<noteq> None) (Some req) = Some JBPF_CODELET_LOAD_SUCCESS"
    and "req_codelets req = [d1, d2]" and "req_links req = []"
    and "plain_codelet env d1" and "ce_file env (d_codelet_path d2) = None"
    and "jbpf_hook_exists (d_hook_name d1) ctx" and "jbpf_hook_exists (d_hook_name d2) ctx"
    and "ck_ht_count (ops_ht ops) (codeletset_registry ctx) < JBPF_MAX_LOADED_CODELETSETS" and "reg ops ctx (lr_codeletset_id req) = None"
    and "total_num_codelets ctx = 0"
  shows "\<exists>ctx'. load_times ops env req 63 ctx = Some (replicate 63 JBPF_CODELET_CREATION_FAIL, ctx') \<and> hook_list ctx' = hook_list ctx
    \<and> codeletset_registry ctx' = codeletset_registry ctx
    \<and> (\<forall>env2 req2. validate_codeletset (\<lambda>f. ce_file env2 f \<noteq> None) (Some req2) = Some JBPF_CODELET_LOAD_SUCCESS
        \<longrightarrow> list_all (\<lambda>d. jbpf_hook_exists (d_hook_name d) ctx) (req_codelets req2) \<longrightarrow> reg ops ctx (lr_codeletset_id req2) = None
        \<longrightarrow> lr_num_codelet_descriptors req2 \<ge> 2
        \<longrightarrow> jbpf_codeletset_load ops env2 (Some req2) ctx' = Some (JBPF_CODELET_CREATION_FAIL, ctx'))"
proof -
  obtain ctx' where c: "load_times ops env req 63 ctx = Some (replicate 63 JBPF_CODELET_CREATION_FAIL, ctx')" "hook_list ctx' = hook_list ctx"
      "codeletset_registry ctx' = codeletset_registry ctx" "total_num_codelets ctx' = 63"
    using leak_times [OF assms(1-11), of 63] assms(12) by auto
  have "jbpf_codeletset_load ops env2 (Some req2) ctx' = Some (JBPF_CODELET_CREATION_FAIL, ctx')"
    if "validate_codeletset (\<lambda>f. ce_file env2 f \<noteq> None) (Some req2) = Some JBPF_CODELET_LOAD_SUCCESS"
      "list_all (\<lambda>d. jbpf_hook_exists (d_hook_name d) ctx) (req_codelets req2)" "reg ops ctx (lr_codeletset_id req2) = None"
      "lr_num_codelet_descriptors req2 \<ge> 2" for env2 req2
    using that assms(10) c by (simp add: jbpf_codeletset_load_def hook_exists_cong [OF c(2)] reg_def JBPF_MAX_LOADED_CODELETS_def)
  then show ?thesis using c by (intro exI [of _ ctx']) simp
qed

definition wit_two :: jbpf_codeletset_load_req where
  "wit_two = \<lparr> lr_codeletset_id = [115], lr_num_codelet_descriptors = 2,
     lr_codelet_descriptor = [wit_desc, wit_desc\<lparr>d_codelet_name := [100], d_codelet_path := [113]\<rparr>] \<rparr>"

lemma wit_two_valid:
  "validate_codeletset (\<lambda>f. ce_file wit_core_env f \<noteq> None) (Some wit_two) = Some JBPF_CODELET_LOAD_SUCCESS"
  by code_simp

theorem failed_loads_exhaust_codelets_witness:
  "\<exists>ctx'. load_times wit_ops wit_core_env wit_two 63 wit_ctx = Some (replicate 63 JBPF_CODELET_CREATION_FAIL, ctx')
    \<and> codeletset_registry ctx' = [] \<and> jbpf_codeletset_load wit_ops wit_core_env (Some wit_two) ctx' = Some (JBPF_CODELET_CREATION_FAIL, ctx')"
proof -
  have m: "core_memory wit_ops wit_core_env" by (simp add: core_memory_def wit_core_env_def wit_map_env_def wit_ops_def alist_ht_def)
  have ds: "req_codelets wit_two = [wit_desc, wit_desc\<lparr>d_codelet_name := [100], d_codelet_path := [113]\<rparr>]" "req_links wit_two = []"
    by (simp_all add: req_codelets_def wit_two_def req_links_def links_def wit_desc_def)
  have pl: "plain_codelet wit_core_env wit_desc" "ce_file wit_core_env (d_codelet_path (wit_desc\<lparr>d_codelet_name := [100], d_codelet_path := [113]\<rparr>)) = None"
    by (simp_all add: plain_codelet_def wit_core_env_def wit_desc_def)
  have hk: "jbpf_hook_exists (d_hook_name wit_desc) wit_ctx" "jbpf_hook_exists (d_hook_name (wit_desc\<lparr>d_codelet_name := [100], d_codelet_path := [113]\<rparr>)) wit_ctx"
    by (simp_all add: jbpf_hook_exists_def wit_ctx_def wit_desc_def DEFINE_JBPF_HOOK_def c_string_def)
  have rg: "ck_ht_count (ops_ht wit_ops) (codeletset_registry wit_ctx) < JBPF_MAX_LOADED_CODELETSETS" "reg wit_ops wit_ctx (lr_codeletset_id wit_two) = None"
    "total_num_codelets wit_ctx = 0"
    by (simp_all add: ck_ht_count_def reg_def wit_ops_def alist_ht_def wit_ctx_def JBPF_MAX_LOADED_CODELETSETS_def)
  from failed_loads_exhaust_codelets [OF wit_ops_spec m wit_two_valid ds pl hk rg]
  obtain ctx' where c: "load_times wit_ops wit_core_env wit_two 63 wit_ctx = Some (replicate 63 JBPF_CODELET_CREATION_FAIL, ctx')"
    "codeletset_registry ctx' = codeletset_registry wit_ctx" "jbpf_codeletset_load wit_ops wit_core_env (Some wit_two) ctx' = Some (JBPF_CODELET_CREATION_FAIL, ctx')"
    using wit_two_valid ds(1) hk rg(2) by (auto simp: wit_two_def)
  then show ?thesis by (auto simp: wit_ctx_def)
qed

section \<open>Unloading without memory\<close>

lemma on_hook_remove_nomem:
  assumes ok: "hooks_ok hs" and a: "\<And>n. \<not> a n" and r: "on_hook n (\<lambda>h. jbpf_remove_codelet_hook a h f) hs = Some (r, hs')"
  shows "hooks_ok hs' \<and> (\<forall>k. (\<exists>e\<in>set (chain_of hs k). jbpf_codelet e \<noteq> f) \<longrightarrow> chain_of hs' k = chain_of hs k)"
  using r
proof (cases rule: on_hookE)
  case none
  then show ?thesis using ok by simp
next
  case (hook xs h ys h')
  then have wf: "hook_wf h" using ok by (simp add: hooks_ok_def)
  have nm: "name h' = name h" using remove_name [OF hook(4)] .
  note split = chain_of_split [OF hook(3,2) nm, of ys]
  have h': "hook_wf h'" "(\<exists>e\<in>set (hook_chain h). jbpf_codelet e \<noteq> f) \<Longrightarrow> h' = h"
    using remove_result [OF wf, of a f] hook(4) a wf by (auto simp: filter_empty_conv split: if_splits)
  show ?thesis
  proof (intro conjI allI impI)
    show "hooks_ok hs'" using hooks_ok_split [of xs h ys h'] ok hook h'(1) nm by simp
    fix k assume k: "\<exists>e\<in>set (chain_of hs k). jbpf_codelet e \<noteq> f"
    show "chain_of hs' k = chain_of hs k"
    proof (cases "k = n")
      case True
      then show ?thesis using k h'(2) hook split(1) by simp
    next
      case False
      then show ?thesis using split(2) hook by simp
    qed
  qed
qed

lemma unload_codelets_nomem:
  assumes "unload_codelets env ps ctx = Some ctx'" "hooks_ok (hook_list ctx)" "compiled (set ps) ctx" "set ps \<subseteq> N"
    "\<exists>e\<in>set (hook_chains ctx k). jbpf_codelet e \<notin> Suc ` N" and a: "\<And>n. \<not> ce_hook_mem env n"
  shows "hook_chains ctx' k = hook_chains ctx k"
  using assms(1-5)
proof (induction ps arbitrary: ctx)
  case (Cons p ps)
  obtain c where c: "codelet_mem ctx p = Some c" "c_codelet_fn c = Suc p" using Cons.prems(3) by (auto simp: compiled_def)
  obtain r hs where hs: "on_hook (c_hook_name c) (\<lambda>h. jbpf_remove_codelet_hook (ce_hook_mem env) h (Suc p)) (hook_list ctx) = Some (r, hs)"
    and rest: "unload_codelets env ps (ctx\<lparr>hook_list := hs, total_num_codelets := total_num_codelets ctx - 1\<rparr>) = Some ctx'"
    using Cons.prems(1) c by (auto simp: jbpf_unload_codelet_def Option.bind_eq_Some_conv)
  have "\<exists>e\<in>set (hook_chains ctx k). jbpf_codelet e \<noteq> Suc p" using Cons.prems(4,5) by fastforce
  then have st: "hooks_ok hs" "chain_of hs k = hook_chains ctx k"
    using on_hook_remove_nomem [OF Cons.prems(2) a hs] by blast+
  show ?case using Cons.IH [OF rest] st Cons.prems(3-5) by (simp add: compiled_def)
qed simp

lemma destroy_codelets_frees:
  "destroy_codelets ops ps ctx = Some ctx' \<Longrightarrow>
    hook_list ctx' = hook_list ctx \<and> (\<forall>p. p \<in> set ps \<or> codelet_mem ctx p = None \<longrightarrow> codelet_mem ctx' p = None)"
proof (induction ps arbitrary: ctx)
  case (Cons p ps)
  obtain ctx1 ctx2 where 1: "jbpf_destroy_codelet_maps ops p ctx = Some ctx1" "destroy_codelets ops ps (free_codelet p ctx1) = Some ctx'"
    using Cons.prems by (auto simp: jbpf_destroy_codelet_def Option.bind_eq_Some_conv)
  have s: "core_same ctx ctx1" by (rule stays_ctxD [OF destroy_codelet_maps_stays 1(1)])
  then have "codelet_mem ctx q = None \<Longrightarrow> codelet_mem ctx1 q = None" for q by (metis core_same_def rel_option_None1)
  then show ?case using Cons.IH [OF 1(2)] s by (auto simp: free_codelet_def core_same_def)
qed simp


definition wit_two_sets :: "((bytes \<times> nat) list, nat list \<times> nat) jbpf_ctx option" where
  "wit_two_sets = do {
     (_, ctx) \<leftarrow> jbpf_codeletset_load wit_ops wit_core_env (Some (wit_load_req wit_desc)) wit_ctx;
     (_, ctx) \<leftarrow> jbpf_codeletset_load wit_ops wit_core_env (Some ((wit_load_req wit_desc)\<lparr>lr_codeletset_id := [116]\<rparr>)) ctx;
     Some ctx
   }"

lemma wit_two_sets_reach:
  assumes "wit_two_sets = Some ctx"
  shows "lcm_reach wit_ops ctx"
proof -
  obtain r ctx1 r2 where 1: "jbpf_codeletset_load wit_ops wit_core_env (Some (wit_load_req wit_desc)) wit_ctx = Some (r, ctx1)"
    and 2: "jbpf_codeletset_load wit_ops wit_core_env (Some ((wit_load_req wit_desc)\<lparr>lr_codeletset_id := [116]\<rparr>)) ctx1 = Some (r2, ctx)"
    using assms by (auto simp: wit_two_sets_def Option.bind_eq_Some_conv)
  show ?thesis by (rule lcm_reach.load [OF lcm_reach.load [OF wit_boot wit_hook_mem 1] wit_hook_mem 2])
qed

definition wit_no_memory :: core_env where
  "wit_no_memory = wit_core_env\<lparr>ce_hook_mem := (\<lambda>_. False)\<rparr>"


section \<open>Links that are not used\<close>

text \<open>The table of the links after the requested links were entered: no codelet has a map for them yet.\<close>

definition links_new :: "('h, 'r) core_ops \<Rightarrow> 'h \<Rightarrow> ('h, 'r) jbpf_ctx \<Rightarrow> bool" where
  "links_new ops table ctx \<longleftrightarrow> (\<forall>k lm. ck_ht_get (ops_ht ops) table k = Some lm \<longrightarrow> lm < clock (cx_maps ctx) \<and>
     (\<exists>x. linked_mem ctx lm = Some x \<and> lm_map x = None \<and> lm_ref_count x = 0 \<and> lm_total_refs x > 0))"

lemma links_newD:
  "links_new ops table ctx \<Longrightarrow> ck_ht_get (ops_ht ops) table k = Some lm \<Longrightarrow> lm < clock (cx_maps ctx) \<and>
     (\<exists>x. linked_mem ctx lm = Some x \<and> lm_map x = None \<and> lm_ref_count x = 0 \<and> lm_total_refs x > 0)"
  by (simp add: links_new_def)

lemma ht_put_get:
  assumes "ck_ht_spec ck" "ck_ht_get ck (snd (ck_ht_put ck h k v)) j = Some w"
  shows "ck_ht_get ck h j = Some w \<or> w = v"
  using assms(2) ht_put [OF assms(1), of h k v] by (cases "ck_ht_put ck h k v") (auto split: if_splits)

lemma links_new_upd:
  assumes n: "links_new ops table ctx" and c: "clock (cx_maps ctx) \<le> clock (cx_maps ctx')" "lm < clock (cx_maps ctx')"
    and l: "linked_mem ctx' = (linked_mem ctx)(lm \<mapsto> x)" "lm_map x = None" "lm_ref_count x = 0" "lm_total_refs x > 0"
    and t: "\<And>k w. ck_ht_get (ops_ht ops) table' k = Some w \<Longrightarrow> ck_ht_get (ops_ht ops) table k = Some w \<or> w = lm"
  shows "links_new ops table' ctx'"
  unfolding links_new_def
proof (intro allI impI)
  fix k w assume "ck_ht_get (ops_ht ops) table' k = Some w"
  then consider "w = lm" | "w \<noteq> lm" "ck_ht_get (ops_ht ops) table k = Some w" using t by blast
  then show "w < clock (cx_maps ctx') \<and> (\<exists>x. linked_mem ctx' w = Some x \<and> lm_map x = None \<and> lm_ref_count x = 0 \<and> 0 < lm_total_refs x)"
  proof cases
    case 2
    then show ?thesis using links_newD [OF n 2(2)] c l(1) by auto
  qed (use c l in auto)
qed

lemma populate_link_new:
  assumes ht: "ck_ht_spec (ops_ht ops)" and put: "ht_put_ok ops" and m: "core_memory ops env" and n: "links_new ops table ctx"
  obtains table' ctx' where "populate_link ops env cn l (table, ctx) = Some (table', ctx')" "links_new ops table' ctx'"
    "ck_ht_get (ops_ht ops) table' (map_alias cn (ld_map_name l)) \<noteq> None" "dom (ck_ht_get (ops_ht ops) table) \<subseteq> dom (ck_ht_get (ops_ht ops) table')"
proof -
  let ?ht = "ops_ht ops" and ?a1 = "map_alias cn (ld_map_name l)" and ?a2 = "map_alias (ld_linked_codelet_name l) (ld_linked_map_name l)"
  let ?o1 = "ck_ht_get ?ht table ?a1" and ?o2 = "ck_ht_get ?ht table ?a2" and ?k = "clock (cx_maps ctx)"
  have put_in: "ck_ht_get ?ht (snd (ck_ht_put ?ht h k v)) k \<noteq> None" "dom (ck_ht_get ?ht h) \<subseteq> dom (ck_ht_get ?ht (snd (ck_ht_put ?ht h k v)))"
    if "ck_ht_get ?ht h k = None" for h k v
  proof -
    obtain ok h' where h': "ck_ht_put ?ht h k v = (ok, h')" by fastforce
    moreover have "ok" using put that h' unfolding ht_put_ok_def by (metis fst_conv)
    ultimately show "ck_ht_get ?ht (snd (ck_ht_put ?ht h k v)) k \<noteq> None" "dom (ck_ht_get ?ht h) \<subseteq> dom (ck_ht_get ?ht (snd (ck_ht_put ?ht h k v)))"
      using ht_put [OF ht h'] by auto
  qed
  have dom: "dom (ck_ht_get ?ht h) \<subseteq> dom (ck_ht_get ?ht (snd (ck_ht_put ?ht h k v)))" for h k v
    using ht_put [OF ht, of h k v] by (cases "ck_ht_put ?ht h k v") (auto split: if_splits)
  let ?c = "\<lambda>i. (cx_maps ctx)\<lparr>clock := i\<rparr>"
  show thesis
  proof (cases ?o1)
    case (Some lm)
    then obtain x where x: "lm < ?k" "linked_mem ctx lm = Some x" "lm_map x = None" "lm_ref_count x = 0" "lm_total_refs x > 0"
      using links_newD [OF n] by blast
    let ?r = "if ?o2 = None then 1 else 0" and ?t = "if ?o2 = None then snd (ck_ht_put ?ht table ?a2 lm) else table"
    let ?ctx = "ctx\<lparr>cx_maps := ?c (Suc (Suc ?k)), linked_mem := (linked_mem ctx)(lm \<mapsto> x\<lparr>lm_total_refs := lm_total_refs x + ?r\<rparr>)\<rparr>"
    show thesis
    proof (rule that [of ?t ?ctx])
      show "populate_link ops env cn l (table, ctx) = Some (?t, ?ctx)"
        using Some x(2) by (auto simp: populate_link_def core_alloc [OF m] Let_def)
      show "links_new ops ?t ?ctx"
        by (rule links_new_upd [OF n, of ?ctx lm "x\<lparr>lm_total_refs := lm_total_refs x + ?r\<rparr>"])
          (use x ht_put_get [OF ht] in \<open>auto split: if_splits\<close>)
      show "dom (ck_ht_get ?ht table) \<subseteq> dom (ck_ht_get ?ht ?t)" using dom by simp
      then show "ck_ht_get ?ht ?t ?a1 \<noteq> None" using Some by auto
    qed
  next
    case n1: None
    show thesis
    proof (cases ?o2)
      case (Some lm)
      then obtain x where x: "lm < ?k" "linked_mem ctx lm = Some x" "lm_map x = None" "lm_ref_count x = 0" "lm_total_refs x > 0"
        using links_newD [OF n] by blast
      let ?ctx = "ctx\<lparr>cx_maps := ?c (Suc (Suc ?k)), linked_mem := (linked_mem ctx)(lm \<mapsto> x\<lparr>lm_total_refs := lm_total_refs x + 1\<rparr>)\<rparr>"
      show thesis
      proof (rule that [of "snd (ck_ht_put ?ht table ?a1 lm)" ?ctx])
        show "populate_link ops env cn l (table, ctx) = Some (snd (ck_ht_put ?ht table ?a1 lm), ?ctx)"
          using Some n1 x(2) by (simp add: populate_link_def core_alloc [OF m] Let_def)
        show "links_new ops (snd (ck_ht_put ?ht table ?a1 lm)) ?ctx"
          by (rule links_new_upd [OF n, of ?ctx lm "x\<lparr>lm_total_refs := lm_total_refs x + 1\<rparr>"]) (use x ht_put_get [OF ht] in auto)
      qed (use dom put_in n1 in auto)
    next
      case n2: None
      let ?lm = "Suc (Suc ?k)" and ?x = "\<lparr> lm_map = None, lm_ref_count = 0, lm_total_refs = 2 \<rparr>"
      let ?t1 = "snd (ck_ht_put ?ht table ?a1 ?lm)" and ?ctx = "ctx\<lparr>cx_maps := ?c (Suc ?lm), linked_mem := (linked_mem ctx)(?lm \<mapsto> ?x)\<rparr>"
      let ?t2 = "snd (ck_ht_put ?ht ?t1 ?a2 ?lm)"
      show thesis
      proof (rule that [of ?t2 ?ctx])
        show "populate_link ops env cn l (table, ctx) = Some (?t2, ?ctx)"
          using n1 n2 by (simp add: populate_link_def core_alloc [OF m] Let_def)
        have "ck_ht_get ?ht table k = Some w \<or> w = ?lm" if "ck_ht_get ?ht ?t2 k = Some w" for k w
          using ht_put_get [OF ht that] ht_put_get [OF ht, of table ?a1 ?lm k w] by blast
        then show "links_new ops ?t2 ?ctx"
          by (intro links_new_upd [OF n, of ?ctx ?lm ?x]) simp_all
        show "ck_ht_get ?ht ?t2 ?a1 \<noteq> None" using put_in(1) [OF n1, of ?lm] dom [of ?t1 ?a2 ?lm] by blast
        show "dom (ck_ht_get ?ht table) \<subseteq> dom (ck_ht_get ?ht ?t2)" using dom [of table ?a1 ?lm] dom [of ?t1 ?a2 ?lm] by blast
      qed
    qed
  qed
qed

lemma populate_links_new:
  assumes ht: "ck_ht_spec (ops_ht ops)" and put: "ht_put_ok ops" and m: "core_memory ops env"
  shows "links_new ops table ctx \<Longrightarrow> \<exists>table' ctx'. populate_links ops env ls (table, ctx) = Some (table', ctx') \<and> links_new ops table' ctx'
    \<and> dom (ck_ht_get (ops_ht ops) table) \<subseteq> dom (ck_ht_get (ops_ht ops) table')
    \<and> (ls \<noteq> [] \<longrightarrow> dom (ck_ht_get (ops_ht ops) table') \<noteq> {})"
proof (induction ls arbitrary: table ctx)
  case (Cons x ls)
  obtain cn l where x: "x = (cn, l)" by fastforce
  obtain t1 c1 where 1: "populate_link ops env cn l (table, ctx) = Some (t1, c1)" "links_new ops t1 c1"
    "ck_ht_get (ops_ht ops) t1 (map_alias cn (ld_map_name l)) \<noteq> None" "dom (ck_ht_get (ops_ht ops) table) \<subseteq> dom (ck_ht_get (ops_ht ops) t1)"
    by (rule populate_link_new [OF ht put m Cons.prems])
  from Cons.IH [OF 1(2)] obtain t2 c2 where 2: "populate_links ops env ls (t1, c1) = Some (t2, c2)" "links_new ops t2 c2"
    "dom (ck_ht_get (ops_ht ops) t1) \<subseteq> dom (ck_ht_get (ops_ht ops) t2)" by blast
  have "dom (ck_ht_get (ops_ht ops) table) \<subseteq> dom (ck_ht_get (ops_ht ops) t2)" "dom (ck_ht_get (ops_ht ops) t2) \<noteq> {}"
    using 1(3,4) 2(3) by blast+
  then show ?case using 1(1) 2(1,2) x by (intro exI [of _ t2] exI [of _ c2]) simp
qed simp

lemma plain_adds:
  assumes m: "core_memory ops env"
  shows "list_all (plain_codelet env) ds \<Longrightarrow> set_mem ctx S = Some st \<Longrightarrow> \<exists>ctx' st'. add_codelets ops env S ds ctx = Some (True, ctx')
    \<and> set_mem ctx' S = Some st' \<and> s_linked_map_entries st' = s_linked_map_entries st \<and> linked_mem ctx' = linked_mem ctx"
proof (induction ds arbitrary: ctx st)
  case (Cons d ds)
  have d: "plain_codelet env d" using Cons.prems by simp
  let ?k = "clock (cx_maps ctx)"
  obtain c where a: "jbpf_add_codelet_to_codeletset ops env S d ctx = Some (True, ctx\<lparr>cx_maps := (cx_maps ctx)\<lparr>clock := Suc ?k\<rparr>,
      codelet_mem := (codelet_mem ctx)(?k \<mapsto> c),
      set_mem := (set_mem ctx)(S \<mapsto> st\<lparr>s_codelets := snd (ck_ht_put (ops_ht ops) (s_codelets st) (c_name c) ?k)\<rparr>)\<rparr>)"
    by (rule plain_add [OF m d Cons.prems(2)]) blast
  let ?st = "st\<lparr>s_codelets := snd (ck_ht_put (ops_ht ops) (s_codelets st) (c_name c) ?k)\<rparr>"
  let ?ctx = "ctx\<lparr>cx_maps := (cx_maps ctx)\<lparr>clock := Suc ?k\<rparr>, codelet_mem := (codelet_mem ctx)(?k \<mapsto> c), set_mem := (set_mem ctx)(S \<mapsto> ?st),
    total_num_codelets := total_num_codelets ctx + 1\<rparr>"
  have "\<exists>ctx' st'. add_codelets ops env S ds ?ctx = Some (True, ctx')
      \<and> set_mem ctx' S = Some st' \<and> s_linked_map_entries st' = s_linked_map_entries ?st \<and> linked_mem ctx' = linked_mem ?ctx"
    using Cons.prems by (intro Cons.IH) simp_all
  then show ?case using a by simp
qed simp

text \<open>C23: A link that no codelet uses crashes the core.  A valid request whose codelets have no maps but declare at
  least one link between maps is not rejected with the error that is provided for it: the message of this error
  is built from the name of the linked map, and there is no such map, so that a null pointer is read.\<close>

theorem unused_link_crashes:
  assumes "ck_ht_spec (ops_ht ops)" and "ht_put_ok ops" and "core_memory ops env"
    and "validate_codeletset (\<lambda>f. ce_file env f \<noteq> None) (Some req) = Some JBPF_CODELET_LOAD_SUCCESS"
    and "list_all (plain_codelet env) (req_codelets req)" and "req_links req \<noteq> []"
    and "list_all (\<lambda>d. jbpf_hook_exists (d_hook_name d) ctx) (req_codelets req)"
    and "ck_ht_count (ops_ht ops) (codeletset_registry ctx) < JBPF_MAX_LOADED_CODELETSETS" and "reg ops ctx (lr_codeletset_id req) = None"
    and "total_num_codelets ctx + lr_num_codelet_descriptors req \<le> JBPF_MAX_LOADED_CODELETS"
    and "lr_num_codelet_descriptors req \<le> int JBPF_MAX_CODELETS_IN_CODELETSET"
  shows "jbpf_codeletset_load ops env (Some req) ctx = None"
proof -
  note ht = assms(1) and m = assms(3)
  let ?k = "clock (cx_maps ctx)" and ?c0 = "ctx\<lparr>cx_maps := (cx_maps ctx)\<lparr>clock := Suc (clock (cx_maps ctx))\<rparr>\<rparr>"
  obtain cs lt where init: "ck_ht_init (ops_ht ops) JBPF_MAX_CODELETS_IN_CODELETSET = Some cs" "ck_ht_init (ops_ht ops) JBPF_MAX_CODELET_MAPS = Some lt"
    using m unfolding core_memory_def by (meson option.exhaust)
  have "links_new ops lt ?c0" using ht_init [OF ht init(2)] by (simp add: links_new_def)
  from populate_links_new [OF ht assms(2) m this, of "req_links req"] assms(6)
  obtain t c1 where t: "populate_links ops env (req_links req) (lt, ?c0) = Some (t, c1)" "links_new ops t c1" "dom (ck_ht_get (ops_ht ops) t) \<noteq> {}"
    by blast
  have pop: "jbpf_populate_linked_map_entries ops env req ?c0 = Some (t, c1)" using init t by (simp add: jbpf_populate_linked_map_entries_def)
  let ?st = "\<lparr> s_codeletset_id = lr_codeletset_id req, s_codelets = cs, s_linked_map_entries = t \<rparr>"
  let ?c2 = "c1\<lparr>set_mem := (set_mem c1)(?k \<mapsto> ?st)\<rparr>"
  have st: "set_mem ?c2 ?k = Some ?st" by simp
  from plain_adds [OF m assms(5) st] obtain c3 st3 where 3: "add_codelets ops env ?k (req_codelets req) ?c2 = Some (True, c3)"
    "set_mem c3 ?k = Some st3" "s_linked_map_entries st3 = t" "linked_mem c3 = linked_mem c1" by auto
  have "check_links (map snd (ck_ht_entries (ops_ht ops) t)) c3 = None"
  proof (cases "ck_ht_entries (ops_ht ops) t")
    case Nil
    then show ?thesis using t(3) ht_entries(2) [OF ht, of t] by auto
  next
    case (Cons y ys)
    then have "ck_ht_get (ops_ht ops) t (fst y) = Some (snd y)" using ht_entries(2) [OF ht, of t] by (cases y) (metis fst_conv map_of_Cons_code(2) snd_conv)
    then show ?thesis using links_newD [OF t(2)] Cons 3(4) by fastforce
  qed
  then have "build_codeletset ops env ?k (req_codelets req) ?c2 = None" using 3 by (simp add: build_codeletset_def)
  then show ?thesis
    using assms(4,7-11) init pop core_alloc [OF m, of ctx]
    by (simp add: jbpf_codeletset_load_def reg_def)
qed

definition wit_linked :: jbpf_codeletset_load_req where
  "wit_linked = wit_load_req (wit_desc\<lparr>d_num_linked_maps := 1\<rparr>)"

theorem unused_link_crashes_witness:
  "validate_codeletset (\<lambda>f. ce_file wit_core_env f \<noteq> None) (Some wit_linked) = Some JBPF_CODELET_LOAD_SUCCESS
    \<and> jbpf_codeletset_load wit_ops wit_core_env (Some wit_linked) wit_ctx = None"
proof -
  have v: "validate_codeletset (\<lambda>f. ce_file wit_core_env f \<noteq> None) (Some wit_linked) = Some JBPF_CODELET_LOAD_SUCCESS"
    by code_simp
  have m: "core_memory wit_ops wit_core_env" by (simp add: core_memory_def wit_core_env_def wit_map_env_def wit_ops_def alist_ht_def)
  have ds: "req_codelets wit_linked = [wit_desc\<lparr>d_num_linked_maps := 1\<rparr>]" "req_links wit_linked \<noteq> []"
    by (simp_all add: req_codelets_def wit_linked_def wit_load_req_def req_links_def links_def wit_desc_def)
  have pl: "list_all (plain_codelet wit_core_env) (req_codelets wit_linked)"
    "list_all (\<lambda>d. jbpf_hook_exists (d_hook_name d) wit_ctx) (req_codelets wit_linked)"
    unfolding ds by (simp_all add: plain_codelet_def wit_core_env_def wit_desc_def jbpf_hook_exists_def wit_ctx_def DEFINE_JBPF_HOOK_def c_string_def)
  have rg: "ck_ht_count (ops_ht wit_ops) (codeletset_registry wit_ctx) < JBPF_MAX_LOADED_CODELETSETS" "reg wit_ops wit_ctx (lr_codeletset_id wit_linked) = None"
    "total_num_codelets wit_ctx + lr_num_codelet_descriptors wit_linked \<le> JBPF_MAX_LOADED_CODELETS"
    "lr_num_codelet_descriptors wit_linked \<le> int JBPF_MAX_CODELETS_IN_CODELETSET"
    by (simp_all add: ck_ht_count_def reg_def wit_ops_def alist_ht_def wit_ctx_def JBPF_MAX_LOADED_CODELETSETS_def wit_linked_def wit_load_req_def
      JBPF_MAX_LOADED_CODELETS_def JBPF_MAX_CODELETS_IN_CODELETSET_def)
  show ?thesis using unused_link_crashes [OF wit_ops_spec wit_put m v pl(1) ds(2) pl(2) rg] v by simp
qed

end
