(* ===== verification/Spec2Isabelle.thy ===== *)
theory Spec2Isabelle
  imports Threads Hook_Epoch Murmur Load_Faults
begin

text \<open>
  Verification of jbpf, the library that lets an application run eBPF codelets at hooks.
\<close>

end
